(* ===== verification/Prelude.thy ===== *)
theory Prelude
  imports Main "HOL-Library.Word" "HOL-Library.List_Lexorder" "HOL-Library.Monad_Syntax"
    "HOL-Library.Sublist"
begin

text \<open>
  Shared vocabulary of the development: bytes and byte strings, the parts of Go's standard
  library the sources use everywhere (\<^verbatim>\<open>bytes.Compare\<close>, \<^verbatim>\<open>bytes.HasPrefix\<close>,
  \<^verbatim>\<open>sort.Search\<close>, the fixed-width integers of \<^verbatim>\<open>encoding/binary\<close>), and the generic
  lemmas on lists the component theories rely on.

  Conventions.  A Go \<^verbatim>\<open>[]byte\<close> is a list of \<^verbatim>\<open>8 word\<close>.  Unsigned 32- and 64-bit
  values that are only compared, stored and counted are natural numbers; every encoder reduces
  them modulo their width, and every place where the source's arithmetic could wrap is written
  out.  A Go panic is the value \<^verbatim>\<open>None\<close> of an option type; a returned \<^verbatim>\<open>error\<close> is the left
  injection of a sum type.
\<close>

unbundle bit_operations_syntax

section \<open>Byte strings\<close>

type_synonym byte = "8 word"
type_synonym bytes = "byte list"

named_theorems codec_simps \<open>round-trip and length facts of the binary encodings\<close>

text \<open>\<^verbatim>\<open>bytes.Compare\<close> is the lexicographic order on unsigned bytes.\<close>

definition bytes_compare :: "bytes \<Rightarrow> bytes \<Rightarrow> int" where
  "bytes_compare a b = (if a < b then -1 else if a = b then 0 else 1)"

lemma bytes_compare_cases [simp]:
  "bytes_compare a b < 0 \<longleftrightarrow> a < b"
  "bytes_compare a b = 0 \<longleftrightarrow> a = b"
  "bytes_compare a b \<le> 0 \<longleftrightarrow> a \<le> b"
  "bytes_compare a b > 0 \<longleftrightarrow> b < a"
  "bytes_compare a b \<ge> 0 \<longleftrightarrow> b \<le> a"
  by (auto simp: bytes_compare_def)

text \<open>\<^verbatim>\<open>bytes.HasPrefix\<close>.\<close>

definition has_prefix :: "bytes \<Rightarrow> bytes \<Rightarrow> bool" where
  "has_prefix s p \<longleftrightarrow> length p \<le> length s \<and> take (length p) s = p"

lemma has_prefix_iff: "has_prefix s p \<longleftrightarrow> prefix p s"
  by (metis (no_types, lifting) append_eq_conv_conj append_take_drop_id has_prefix_def prefix_def
      prefix_length_le)

section \<open>Fixed-width little- and big-endian integers\<close>

text \<open>
  \<^verbatim>\<open>binary.LittleEndian.AppendUint64\<close> and its kin are \<^term>\<open>le_enc\<close> at the widths 4 and 8,
  \<^verbatim>\<open>binary.LittleEndian.Uint64\<close> is \<^term>\<open>le_dec\<close> of the first eight bytes.
\<close>

fun le_enc :: "nat \<Rightarrow> nat \<Rightarrow> bytes" where
  "le_enc 0 x = []"
| "le_enc (Suc n) x = of_nat (x mod 256) # le_enc n (x div 256)"

fun le_dec :: "bytes \<Rightarrow> nat" where
  "le_dec [] = 0"
| "le_dec (b # bs) = unat b + 256 * le_dec bs"

abbreviation put_u32 :: "nat \<Rightarrow> bytes" where "put_u32 \<equiv> le_enc 4"
abbreviation put_u64 :: "nat \<Rightarrow> bytes" where "put_u64 \<equiv> le_enc 8"
abbreviation get_u32 :: "bytes \<Rightarrow> nat" where "get_u32 b \<equiv> le_dec (take 4 b)"
abbreviation get_u64 :: "bytes \<Rightarrow> nat" where "get_u64 b \<equiv> le_dec (take 8 b)"

definition put_be64 :: "nat \<Rightarrow> bytes" where
  "put_be64 x = rev (le_enc 8 x)"

definition get_be64 :: "bytes \<Rightarrow> nat" where
  "get_be64 b = le_dec (rev (take 8 b))"

lemma length_le_enc [simp, codec_simps]: "length (le_enc n x) = n"
  by (induction n arbitrary: x) auto

lemma unat_byte_less [simp]: "unat (b :: byte) < 256"
  using unsigned_less [of b, where 'a = nat] by simp

lemma unat_of_nat_byte: "unat (of_nat x :: byte) = x mod 256"
  by (simp add: unat_of_nat)

lemma le_dec_le_enc [codec_simps]: "le_dec (le_enc n x) = x mod 256 ^ n"
proof (induction n arbitrary: x)
  case (Suc n)
  have "le_dec (le_enc (Suc n) x) = x mod 256 + 256 * (x div 256 mod 256 ^ n)"
    by (simp add: Suc unat_of_nat_byte)
  also have "\<dots> = x mod (256 * 256 ^ n)"
    by (simp add: mod_mult2_eq)
  finally show ?case by simp
qed simp

lemma le_dec_less: "le_dec bs < 256 ^ length bs"
proof (induction bs)
  case (Cons b bs)
  have "unat b + 256 * le_dec bs < 256 + 256 * le_dec bs" by simp
  also have "\<dots> \<le> 256 * 256 ^ length bs"
    using Cons by (metis Suc_leI mult_Suc_right mult_le_mono2)
  finally show ?case by simp
qed simp

lemma le_enc_le_dec [codec_simps]: "length bs = n \<Longrightarrow> le_enc n (le_dec bs) = bs"
  by (induction bs arbitrary: n) (auto simp: word_unat_eq_iff unat_of_nat_byte)

lemma get_u64_put [codec_simps]: "x < 2 ^ 64 \<Longrightarrow> get_u64 (put_u64 x @ r) = x"
  by (simp add: le_dec_le_enc)

lemma get_u32_put [codec_simps]: "x < 2 ^ 32 \<Longrightarrow> get_u32 (put_u32 x @ r) = x"
  by (simp add: le_dec_le_enc)

lemma get_u64_less: "get_u64 b < 2 ^ 64"
proof -
  have "get_u64 b < 256 ^ length (take 8 b)" by (rule le_dec_less)
  also have "\<dots> \<le> (256 :: nat) ^ 8" by (rule power_increasing) auto
  finally show ?thesis by simp
qed

lemma get_u32_less: "get_u32 b < 2 ^ 32"
proof -
  have "get_u32 b < 256 ^ length (take 4 b)" by (rule le_dec_less)
  also have "\<dots> \<le> (256 :: nat) ^ 4" by (rule power_increasing) auto
  finally show ?thesis by simp
qed

lemma get_be64_put [codec_simps]: "x < 2 ^ 64 \<Longrightarrow> get_be64 (put_be64 x @ r) = x"
  by (simp add: get_be64_def put_be64_def le_dec_le_enc)

lemma length_put_be64 [simp, codec_simps]: "length (put_be64 x) = 8"
  by (simp add: put_be64_def)

section \<open>Binary search\<close>

text \<open>\<^verbatim>\<open>sort.Search(n, f)\<close>: the loop of the standard library.\<close>

function search_loop :: "(nat \<Rightarrow> bool) \<Rightarrow> nat \<Rightarrow> nat \<Rightarrow> nat" where
  "search_loop f i j =
     (if i < j then
        let h = (i + j) div 2
        in if \<not> f h then search_loop f (h + 1) j else search_loop f i h
      else i)"
  by pat_completeness auto
termination
  by (relation "measure (\<lambda>(f, i, j). j - i)") auto

declare search_loop.simps [simp del]

definition sort_search :: "nat \<Rightarrow> (nat \<Rightarrow> bool) \<Rightarrow> nat" where
  "sort_search n f = search_loop f 0 n"

lemma search_loop_spec:
  assumes "i \<le> j" "\<And>k k'. k \<le> k' \<Longrightarrow> k' < n \<Longrightarrow> f k \<Longrightarrow> f k'" "j \<le> n"
    and "\<And>k. k < i \<Longrightarrow> \<not> f k" "\<And>k. j \<le> k \<Longrightarrow> k < n \<Longrightarrow> f k"
  shows "search_loop f i j \<le> n \<and> (\<forall>k < search_loop f i j. \<not> f k)
    \<and> (\<forall>k. search_loop f i j \<le> k \<longrightarrow> k < n \<longrightarrow> f k)"
  using assms
proof (induction f i j rule: search_loop.induct)
  case (1 f i j)
  show ?case
  proof (cases "i < j")
    case lt: True
    define h where "h = (i + j) div 2"
    have h: "i \<le> h" "h < j" using lt by (auto simp: h_def)
    show ?thesis
    proof (cases "f h")
      case True
      have "\<And>k. h \<le> k \<Longrightarrow> k < n \<Longrightarrow> f k" using "1.prems"(2) True by blast
      with "1.IH"(2) [OF lt h_def] True h "1.prems" show ?thesis
        by (subst (1 2 3) search_loop.simps) (simp add: Let_def lt flip: h_def)
    next
      case False
      have "\<And>k. k < h + 1 \<Longrightarrow> \<not> f k"
        using "1.prems"(2,3) False h by (metis Suc_eq_plus1 le_trans less_Suc_eq_le not_less)
      with "1.IH"(1) [OF lt h_def] False h "1.prems" show ?thesis
        by (subst (1 2 3) search_loop.simps) (simp add: Let_def lt flip: h_def)
    qed
  next
    case False
    with "1.prems" show ?thesis by (subst (1 2 3) search_loop.simps) auto
  qed
qed

text \<open>On a monotone predicate the search returns the least index that satisfies it, or \<open>n\<close>.\<close>

lemma sort_search_spec:
  assumes "\<And>k k'. k \<le> k' \<Longrightarrow> k' < n \<Longrightarrow> f k \<Longrightarrow> f k'"
  shows "sort_search n f \<le> n"
    and "\<And>k. k < sort_search n f \<Longrightarrow> \<not> f k"
    and "\<And>k. sort_search n f \<le> k \<Longrightarrow> k < n \<Longrightarrow> f k"
  using search_loop_spec [of 0 n n f, OF _ assms] by (auto simp: sort_search_def)

section \<open>Lists\<close>

lemma take_append_drop_same: "take n xs @ drop n xs = xs"
  by simp

lemma nth_take_drop: "i + j < length xs \<Longrightarrow> drop i xs ! j = xs ! (i + j)"
  by simp

lemma sorted_wrt_nth_less_trans:
  "sorted_wrt P xs \<Longrightarrow> i < j \<Longrightarrow> j < length xs \<Longrightarrow> P (xs ! i) (xs ! j)"
  by (rule sorted_wrt_nth_less)

end
