(* ===== verification/Codec.thy ===== *)
theory Codec
  imports Prelude
begin

text \<open>
  The variable-length integers of \<^verbatim>\<open>encoding/binary\<close> and the length-prefixed framing of
  \<^verbatim>\<open>src/internal/base/varint.go\<close>, with the round-trip laws and the bounds the callers use.
\<close>

section \<open>Unsigned varints\<close>

text \<open>\<^verbatim>\<open>binary.AppendUvarint\<close>: the bytes appended for \<open>x\<close>.\<close>

fun put_uvarint :: "nat \<Rightarrow> bytes" where
  "put_uvarint x =
     (if x \<ge> 128 then (of_nat x OR 128) # put_uvarint (x div 128) else [of_nat x])"

declare put_uvarint.simps [simp del]

text \<open>
  \<^verbatim>\<open>binary.Uvarint\<close>: the value and the number of bytes read.  \<open>None\<close> stands for a width
  \<open>n \<le> 0\<close> (buffer exhausted, or a value past 64 bits), the one case every caller tests.
\<close>

fun uvarint_loop :: "nat \<Rightarrow> nat \<Rightarrow> nat \<Rightarrow> bytes \<Rightarrow> (nat \<times> nat) option" where
  "uvarint_loop i s x [] = None"
| "uvarint_loop i s x (b # bs) =
     (if i = 10 then None
      else if b < 128 then
        (if i = 9 \<and> b > 1 then None else Some (x OR push_bit s (unat b), i + 1))
      else uvarint_loop (i + 1) (s + 7) (x OR push_bit s (unat (b AND 127))) bs)"

definition uvarint :: "bytes \<Rightarrow> (nat \<times> nat) option" where
  "uvarint buf = uvarint_loop 0 0 0 buf"

lemma or_push_bit_nat: "x < 2 ^ s \<Longrightarrow> x OR push_bit s y = x + y * 2 ^ s" for x y s :: nat
proof -
  assume x: "x < 2 ^ s"
  have "\<not> bit (x AND push_bit s y) n" for n
  proof (cases "s \<le> n")
    case True
    with x have "\<not> bit (take_bit s x) n" by (simp add: bit_take_bit_iff)
    with x show ?thesis by (simp add: bit_and_iff take_bit_nat_eq_self)
  qed (simp add: bit_and_iff bit_push_bit_iff)
  then have "x AND push_bit s y = 0" by (intro bit_eqI) simp
  then have "x + push_bit s y = x OR push_bit s y" by (rule disjunctive_add_eq_or)
  then show ?thesis by (simp add: push_bit_eq_mult)
qed

lemma unat_or_128: "unat (of_nat x OR 128 :: byte) = x mod 128 + 128"
proof -
  have "unat (of_nat x OR 128 :: byte) = unat (of_nat x :: byte) OR unat (128 :: byte)"
    by (simp only: unsigned_or_eq)
  also have "\<dots> = take_bit 8 x OR 2 ^ 7"
    by (simp add: unat_of_nat_byte take_bit_eq_mod)
  also have "\<dots> = take_bit 7 x OR push_bit 7 1"
  proof (rule bit_eqI)
    fix n
    have "bit ((2 :: nat) ^ 7) n \<longleftrightarrow> n = 7" by (simp only: bit_exp_iff possible_bit_nat) auto
    then show "bit (take_bit 8 x OR 2 ^ 7) n \<longleftrightarrow> bit (take_bit 7 x OR push_bit 7 1) n"
      by (auto simp: bit_or_iff bit_take_bit_iff bit_push_bit_iff bit_1_iff)
  qed
  also have "\<dots> = x mod 128 + 128"
    by (subst or_push_bit_nat) (simp_all add: take_bit_eq_mod)
  finally show ?thesis .
qed

lemma unat_and_127: "unat (b AND 127 :: byte) = unat b mod 128"
proof -
  have "unat (b AND 127 :: byte) = unat b AND unat (127 :: byte)"
    by (simp only: unsigned_and_eq)
  also have "\<dots> = unat b AND mask 7"
    by (simp add: mask_eq_exp_minus_1)
  also have "\<dots> = unat b mod 128"
    by (simp add: take_bit_eq_mod flip: take_bit_eq_mask)
  finally show ?thesis .
qed

lemma or_128_not_less: "\<not> (of_nat x OR 128 :: byte) < 128"
  by (simp add: word_less_nat_alt unat_or_128)

lemma put_uvarint_small: "x < 128 \<Longrightarrow> put_uvarint x = [of_nat x]"
  by (simp add: put_uvarint.simps)

lemma put_uvarint_large:
  "128 \<le> x \<Longrightarrow> put_uvarint x = (of_nat x OR 128) # put_uvarint (x div 128)"
  by (subst put_uvarint.simps) simp

lemma uvarint_loop_put:
  assumes "i \<le> 9" "x < 2 ^ (7 * i)" "y < 2 ^ (64 - 7 * i)"
  shows "uvarint_loop i (7 * i) x (put_uvarint y @ r)
    = Some (x + y * 2 ^ (7 * i), i + length (put_uvarint y))"
  using assms
proof (induction y arbitrary: i x rule: put_uvarint.induct)
  case (1 y)
  show ?case
  proof (cases "128 \<le> y")
    case True
    have i: "i < 9"
    proof (rule ccontr)
      assume "\<not> i < 9"
      with "1.prems" have "y < 2" by (cases "i = 9") auto
      with True show False by simp
    qed
    have m: "unat ((of_nat y OR 128 :: byte) AND 127) = y mod 128"
      by (simp add: unat_and_127 unat_or_128)
    have x': "x + (y mod 128) * 2 ^ (7 * i) < 2 ^ (7 * (i + 1))"
    proof -
      have "x + (y mod 128) * 2 ^ (7 * i) < 2 ^ (7 * i) + (y mod 128) * 2 ^ (7 * i)"
        using "1.prems"(2) by simp
      also have "\<dots> = (y mod 128 + 1) * 2 ^ (7 * i)" by simp
      also have "\<dots> \<le> 128 * 2 ^ (7 * i)" by (intro mult_le_mono1) (simp add: Suc_leI)
      also have "\<dots> = 2 ^ (7 * (i + 1))" by (simp add: power_add)
      finally show ?thesis .
    qed
    have y': "y div 128 < 2 ^ (64 - 7 * (i + 1))"
    proof -
      have "(2 :: nat) ^ (64 - 7 * i) = 2 ^ (64 - 7 * (i + 1)) * 128"
      proof -
        have "64 - 7 * i = (64 - 7 * (i + 1)) + 7" using i by simp
        then show ?thesis by (simp only: power_add) simp
      qed
      then show ?thesis using "1.prems"(3) by (simp add: less_mult_imp_div_less)
    qed
    have "uvarint_loop i (7 * i) x (put_uvarint y @ r)
      = uvarint_loop (i + 1) (7 * (i + 1)) (x + (y mod 128) * 2 ^ (7 * i)) (put_uvarint (y div 128) @ r)"
      using i True "1.prems"(2)
      by (simp add: put_uvarint_large or_128_not_less m or_push_bit_nat add.commute)
    also have "\<dots> = Some (x + (y mod 128) * 2 ^ (7 * i) + (y div 128) * 2 ^ (7 * (i + 1)),
        i + 1 + length (put_uvarint (y div 128)))"
      using "1.IH" [OF True _ x' y'] i by simp
    also have "x + (y mod 128) * 2 ^ (7 * i) + (y div 128) * 2 ^ (7 * (i + 1)) = x + y * 2 ^ (7 * i)"
    proof -
      have "(y mod 128) * 2 ^ (7 * i) + (y div 128) * (128 * 2 ^ (7 * i)) = y * 2 ^ (7 * i)"
        by (metis add_mult_distrib mod_div_mult_eq mult.assoc)
      moreover have "(2 :: nat) ^ (7 * (i + 1)) = 128 * 2 ^ (7 * i)" by (simp add: power_add)
      ultimately show ?thesis by (simp only: add.assoc)
    qed
    finally show ?thesis using True by (simp add: put_uvarint_large)
  next
    case False
    then have u: "unat (of_nat y :: byte) = y" by (simp add: unat_of_nat_byte)
    have "i = 9 \<Longrightarrow> y \<le> 1" using "1.prems"(3) by simp
    with False "1.prems" u show ?thesis
      by (auto simp: put_uvarint_small word_less_nat_alt or_push_bit_nat)
  qed
qed

text \<open>Reading back a written varint gives the value and its width, whatever follows it.\<close>

lemma uvarint_put [codec_simps]:
  "x < 2 ^ 64 \<Longrightarrow> uvarint (put_uvarint x @ r) = Some (x, length (put_uvarint x))"
  using uvarint_loop_put [of 0 0 x r] by (simp add: uvarint_def)

lemma put_uvarint_ne [simp]: "put_uvarint x \<noteq> []"
  by (subst put_uvarint.simps) simp

lemma length_put_uvarint_pos [simp]: "0 < length (put_uvarint x)"
  by simp

lemma uvarint_loop_bounds:
  assumes "uvarint_loop i (7 * i) x bs = Some (v, n)" "x < 2 ^ (7 * i)" "i \<le> 10"
  shows "i < n \<and> n \<le> i + length bs \<and> n \<le> 10 \<and> v < 2 ^ 64"
  using assms
proof (induction bs arbitrary: i x)
  case (Cons b bs)
  have i10: "i < 10" using Cons.prems by (cases "i = 10") auto
  show ?case
  proof (cases "b < 128")
    case True
    then have b: "unat b < 128" by (simp add: word_less_nat_alt)
    have v: "v = x + unat b * 2 ^ (7 * i)" and n: "n = i + 1" and b9: "i = 9 \<Longrightarrow> unat b \<le> 1"
      using Cons.prems True i10
      by (auto simp: or_push_bit_nat word_less_nat_alt split: if_splits)
    have "v < 2 ^ 64"
    proof (cases "i = 9")
      case True
      with Cons.prems(2) b9 v have "x < 2 ^ 63" "unat b \<le> 1" by simp_all
      then have "x + unat b * 2 ^ 63 < 2 ^ 63 + 1 * 2 ^ 63"
        by (intro add_less_le_mono mult_le_mono1) auto
      with True v show ?thesis by simp
    next
      case False
      have "x + unat b * 2 ^ (7 * i) < (unat b + 1) * 2 ^ (7 * i)" using Cons.prems(2) by simp
      also have "\<dots> \<le> 2 ^ 7 * 2 ^ (7 * i)" using b by (intro mult_le_mono1) simp
      also have "\<dots> = 2 ^ (7 + 7 * i)" by (simp add: power_add)
      also have "\<dots> \<le> 2 ^ 64" using False i10 by (intro power_increasing) auto
      finally show ?thesis using v by simp
    qed
    with n i10 show ?thesis by simp
  next
    case False
    let ?x = "x + (unat b mod 128) * 2 ^ (7 * i)"
    have rec: "uvarint_loop (i + 1) (7 * (i + 1)) ?x bs = Some (v, n)"
      using Cons.prems False i10 by (simp add: or_push_bit_nat unat_and_127 add.commute)
    have "?x < (unat b mod 128 + 1) * 2 ^ (7 * i)" using Cons.prems(2) by simp
    also have "\<dots> \<le> 2 ^ 7 * 2 ^ (7 * i)" by (intro mult_le_mono1) (simp add: Suc_leI)
    also have "\<dots> = 2 ^ (7 * (i + 1))" by (simp add: power_add)
    finally have "?x < 2 ^ (7 * (i + 1))" .
    from Cons.IH [OF rec this] i10 show ?thesis by auto
  qed
qed simp

lemma uvarint_bounds:
  "uvarint bs = Some (v, n) \<Longrightarrow> 0 < n \<and> n \<le> length bs \<and> n \<le> 10 \<and> v < 2 ^ 64"
  using uvarint_loop_bounds [of 0 0 bs v n] by (simp add: uvarint_def)

section \<open>Length-prefixed values\<close>

datatype base_error = ErrCorruptFraming | ErrKeyTooShort | ErrInvalidKind nat

definition AppendLengthPrefixed :: "bytes \<Rightarrow> bytes \<Rightarrow> bytes" where
  "AppendLengthPrefixed dst val = (dst @ put_uvarint (length val)) @ val"

definition DecodeLengthPrefixed :: "bytes \<Rightarrow> base_error + (bytes \<times> bytes)" where
  "DecodeLengthPrefixed src =
     (case uvarint src of
        None \<Rightarrow> Inl ErrCorruptFraming
      | Some (n, w) \<Rightarrow>
          if n > length src - w then Inl ErrCorruptFraming
          else let end = w + n in Inr (drop w (take end src), drop end src))"

lemma AppendLengthPrefixed_dst: "AppendLengthPrefixed dst val = dst @ AppendLengthPrefixed [] val"
  by (simp add: AppendLengthPrefixed_def)

lemma DecodeLengthPrefixed_Append [codec_simps]:
  "length val < 2 ^ 64 \<Longrightarrow>
   DecodeLengthPrefixed (AppendLengthPrefixed [] val @ rest) = Inr (val, rest)"
  by (simp add: DecodeLengthPrefixed_def AppendLengthPrefixed_def codec_simps)

lemma DecodeLengthPrefixed_Inr:
  assumes "DecodeLengthPrefixed src = Inr (val, rest)"
  shows "\<exists>w. 0 < w \<and> w \<le> 10 \<and> length src = w + length val + length rest
    \<and> drop (w + length val) src = rest \<and> take (length val) (drop w src) = val"
  using assms
  by (auto simp: DecodeLengthPrefixed_def Let_def drop_take dest!: uvarint_bounds
      split: option.splits prod.splits if_splits intro!: exI)

end
