(* ===== verification/InternalKey.thy ===== *)
theory InternalKey
  imports Codec "HOL-Library.Product_Lexorder"
begin

text \<open>
  Versioned keys, \<^verbatim>\<open>src/internal/base/internal_key.go\<close>: a user key followed by an eight-byte
  trailer that packs the sequence number (56 bits) and the kind (8 bits).  Every ordered structure
  of the engine is sorted by \<^verbatim>\<open>Compare\<close> on the encoded form; \<open>ikey_rank\<close> maps an
  encoded key into a linear order of the library so that the automation for sorted lists applies.

  \<^verbatim>\<open>UserKey\<close> and \<^verbatim>\<open>Compare\<close> slice off the last eight bytes and panic on shorter input; the
  predicate \<open>valid_ikey\<close> states the length they require, and the theories that call them show
  that the keys they pass satisfy it.
\<close>

section \<open>Definitions\<close>

abbreviation (input) TrailerLen :: nat where "TrailerLen \<equiv> 8"

definition KindDelete :: nat where "KindDelete = 0"
definition KindPut :: nat where "KindPut = 1"
definition maxKind :: nat where "maxKind = KindPut"
definition MaxSeq :: nat where "MaxSeq = 2 ^ 56 - 1"

record InternalKey =
  ik_UserKey :: bytes
  ik_Seq :: nat
  ik_Kind :: nat

definition valid_ikey :: "bytes \<Rightarrow> bool" where
  "valid_ikey enc \<longleftrightarrow> TrailerLen \<le> length enc"

definition AppendInternalKey :: "bytes \<Rightarrow> bytes \<Rightarrow> nat \<Rightarrow> nat \<Rightarrow> bytes option" where
  "AppendInternalKey dst userKey seq kind =
     (if seq > MaxSeq then None
      else if kind > maxKind then None
      else Some ((dst @ userKey) @ put_u64 (push_bit 8 seq OR kind)))"

definition AppendSeekKey :: "bytes \<Rightarrow> bytes \<Rightarrow> nat \<Rightarrow> bytes option" where
  "AppendSeekKey dst userKey seq = AppendInternalKey dst userKey seq maxKind"

definition UserKey :: "bytes \<Rightarrow> bytes" where
  "UserKey encoded = take (length encoded - TrailerLen) encoded"

definition trailer_of :: "bytes \<Rightarrow> nat" where
  "trailer_of encoded = le_dec (drop (length encoded - TrailerLen) encoded)"

definition DecodeInternalKey :: "bytes \<Rightarrow> base_error + InternalKey" where
  "DecodeInternalKey encoded =
     (if length encoded < TrailerLen then Inl ErrKeyTooShort
      else
        let trailer = trailer_of encoded;
            kind = trailer AND 255
        in if kind > maxKind then Inl (ErrInvalidKind kind)
           else Inr \<lparr>ik_UserKey = UserKey encoded, ik_Seq = drop_bit 8 trailer, ik_Kind = kind\<rparr>)"

definition Compare :: "bytes \<Rightarrow> bytes \<Rightarrow> int" where
  "Compare a b =
     (let c = bytes_compare (UserKey a) (UserKey b) in
      if c \<noteq> 0 then c
      else if trailer_of a > trailer_of b then -1
      else if trailer_of a < trailer_of b then 1
      else 0)"

section \<open>The order on encoded keys\<close>

lemma trailer_less: "trailer_of k < 2 ^ 64"
proof -
  have "trailer_of k < 256 ^ length (drop (length k - 8) k)"
    unfolding trailer_of_def by (rule le_dec_less)
  also have "\<dots> \<le> (256 :: nat) ^ 8" by (rule power_increasing) auto
  finally show ?thesis by simp
qed

definition ikey_rank :: "bytes \<Rightarrow> bytes \<times> nat" where
  "ikey_rank k = (UserKey k, 2 ^ 64 - 1 - trailer_of k)"

lemma Compare_rank [simp]:
  "Compare a b < 0 \<longleftrightarrow> ikey_rank a < ikey_rank b"
  "Compare a b = 0 \<longleftrightarrow> ikey_rank a = ikey_rank b"
  "Compare a b > 0 \<longleftrightarrow> ikey_rank b < ikey_rank a"
  "Compare a b \<le> 0 \<longleftrightarrow> ikey_rank a \<le> ikey_rank b"
  "Compare a b \<ge> 0 \<longleftrightarrow> ikey_rank b \<le> ikey_rank a"
  using trailer_less [of a] trailer_less [of b]
  by (auto simp: Compare_def ikey_rank_def Let_def bytes_compare_def)

lemma ikey_rank_inj: "valid_ikey a \<Longrightarrow> valid_ikey b \<Longrightarrow> ikey_rank a = ikey_rank b \<longleftrightarrow> a = b"
proof
  assume v: "valid_ikey a" "valid_ikey b" and eq: "ikey_rank a = ikey_rank b"
  have t: "trailer_of a = trailer_of b" and u: "UserKey a = UserKey b"
    using eq trailer_less [of a] trailer_less [of b] by (auto simp: ikey_rank_def)
  have *: "drop (length x - 8) x = le_enc 8 (trailer_of x)" if "valid_ikey x" for x
    using that by (simp add: trailer_of_def valid_ikey_def le_enc_le_dec)
  have "a = UserKey a @ drop (length a - 8) a" by (simp add: UserKey_def)
  also have "\<dots> = UserKey b @ drop (length b - 8) b" using * v t u by simp
  also have "\<dots> = b" by (simp add: UserKey_def)
  finally show "a = b" .
qed simp

section \<open>Encoding and decoding\<close>

lemma pack_trailer: "kind < 256 \<Longrightarrow> push_bit 8 seq OR kind = seq * 256 + kind" for seq kind :: nat
  using or_push_bit_nat [of kind 8 seq] by (simp add: or.commute)

lemma pack_trailer_less: "seq \<le> MaxSeq \<Longrightarrow> kind \<le> maxKind \<Longrightarrow> seq * 256 + kind < 2 ^ 64"
  by (simp add: MaxSeq_def maxKind_def KindPut_def)

lemma AppendInternalKey_Some:
  assumes "seq \<le> MaxSeq" "kind \<le> maxKind"
  shows "AppendInternalKey dst uk seq kind = Some (dst @ uk @ put_u64 (seq * 256 + kind))"
proof -
  have "kind < 256" using assms(2) by (simp add: maxKind_def KindPut_def)
  with assms show ?thesis by (simp add: AppendInternalKey_def pack_trailer)
qed

text \<open>The encoded form of a key, as the engine builds it from an empty destination.\<close>

abbreviation enc_ikey :: "bytes \<Rightarrow> nat \<Rightarrow> nat \<Rightarrow> bytes" where
  "enc_ikey uk seq kind \<equiv> uk @ put_u64 (seq * 256 + kind)"

lemma UserKey_enc [simp]: "UserKey (enc_ikey uk s k) = uk"
  by (simp add: UserKey_def)

lemma valid_enc [simp]: "valid_ikey (enc_ikey uk s k)"
  by (simp add: valid_ikey_def)

lemma trailer_enc:
  "s \<le> MaxSeq \<Longrightarrow> k \<le> maxKind \<Longrightarrow> trailer_of (enc_ikey uk s k) = s * 256 + k"
  using pack_trailer_less [of s k] by (simp add: trailer_of_def le_dec_le_enc)

lemma and_255_nat: "n AND 255 = n mod 256" for n :: nat
  using take_bit_eq_mask [of 8 n] by (simp add: take_bit_eq_mod mask_eq_exp_minus_1)

lemma DecodeInternalKey_enc:
  assumes "s \<le> MaxSeq" "k \<le> maxKind"
  shows "DecodeInternalKey (enc_ikey uk s k) = Inr \<lparr>ik_UserKey = uk, ik_Seq = s, ik_Kind = k\<rparr>"
proof -
  have "k < 256" using assms(2) by (simp add: maxKind_def KindPut_def)
  with assms show ?thesis
    using UserKey_enc [of uk s k]
    by (simp add: DecodeInternalKey_def Let_def trailer_enc and_255_nat drop_bit_eq_div)
qed

lemma enc_DecodeInternalKey:
  assumes "DecodeInternalKey enc = Inr ik"
  shows "ik_Seq ik \<le> MaxSeq \<and> ik_Kind ik \<le> maxKind
    \<and> enc = enc_ikey (ik_UserKey ik) (ik_Seq ik) (ik_Kind ik)"
proof -
  have v: "8 \<le> length enc" and k: "ik_Kind ik = trailer_of enc mod 256" "ik_Kind ik \<le> maxKind"
    and s: "ik_Seq ik = trailer_of enc div 256" and u: "ik_UserKey ik = UserKey enc"
    using assms by (auto simp: DecodeInternalKey_def Let_def and_255_nat drop_bit_eq_div split: if_splits)
  have "ik_Seq ik \<le> MaxSeq"
    using trailer_less [of enc] s by (simp add: MaxSeq_def)
  moreover have "ik_Seq ik * 256 + ik_Kind ik = trailer_of enc"
    by (simp add: s k div_mult_mod_eq)
  moreover have "enc = UserKey enc @ le_enc 8 (trailer_of enc)"
    using v by (simp add: UserKey_def trailer_of_def le_enc_le_dec)
  ultimately show ?thesis using k u by simp
qed

lemma rank_enc_less:
  assumes "s1 \<le> MaxSeq" "k1 \<le> maxKind" "s2 \<le> MaxSeq" "k2 \<le> maxKind"
  shows "ikey_rank (enc_ikey u1 s1 k1) < ikey_rank (enc_ikey u2 s2 k2) \<longleftrightarrow>
    u1 < u2 \<or> u1 = u2 \<and> (s2 < s1 \<or> s2 = s1 \<and> k2 < k1)"
proof -
  have k: "k1 \<le> 1" "k2 \<le> 1" using assms by (auto simp: maxKind_def KindPut_def)
  have "s2 * 256 + k2 < s1 * 256 + k1 \<longleftrightarrow> s2 < s1 \<or> s2 = s1 \<and> k2 < k1"
    using k by (cases s1 s2 rule: linorder_cases) auto
  then show ?thesis
    using assms pack_trailer_less [of s1 k1] pack_trailer_less [of s2 k2]
      UserKey_enc [of u1 s1 k1] UserKey_enc [of u2 s2 k2]
    by (auto simp: ikey_rank_def trailer_enc simp del: UserKey_enc)
qed

end
