(* ===== verification/WalBatch.thy ===== *)
theory WalBatch
  imports InternalKey
begin

text \<open>
  Write batches, \<^verbatim>\<open>src/internal/wal/batch.go\<close>: the payload the engine logs per write and the
  body of a replicated command.  A nil value (a delete) is the empty byte string.
\<close>

section \<open>Definitions\<close>

record Op =
  op_Kind :: nat
  op_UserKey :: bytes
  op_Value :: bytes

record Batch =
  BaseSeq :: nat
  Ops :: "Op list"

datatype wal_error = ErrCorruptBatch

definition Batch_Put :: "bytes \<Rightarrow> bytes \<Rightarrow> Batch \<Rightarrow> Batch" where
  "Batch_Put userKey value b =
     b\<lparr>Ops := Ops b @ [\<lparr>op_Kind = KindPut, op_UserKey = userKey, op_Value = value\<rparr>]\<rparr>"

definition Batch_Delete :: "bytes \<Rightarrow> Batch \<Rightarrow> Batch" where
  "Batch_Delete userKey b =
     b\<lparr>Ops := Ops b @ [\<lparr>op_Kind = KindDelete, op_UserKey = userKey, op_Value = []\<rparr>]\<rparr>"

fun encode_ops :: "Op list \<Rightarrow> bytes \<Rightarrow> bytes" where
  "encode_ops [] dst = dst"
| "encode_ops (op # ops) dst =
     (let dst = dst @ [of_nat (op_Kind op)];
          dst = AppendLengthPrefixed dst (op_UserKey op);
          dst = (if op_Kind op = KindPut then AppendLengthPrefixed dst (op_Value op) else dst)
      in encode_ops ops dst)"

definition Encode :: "Batch \<Rightarrow> bytes \<Rightarrow> bytes" where
  "Encode b dst =
     (let dst = dst @ put_u64 (BaseSeq b);
          dst = dst @ put_uvarint (length (Ops b))
      in encode_ops (Ops b) dst)"

fun decode_ops :: "nat \<Rightarrow> bytes \<Rightarrow> Op list \<Rightarrow> wal_error + (Op list \<times> bytes)" where
  "decode_ops 0 rest ops = Inr (ops, rest)"
| "decode_ops (Suc n) rest ops =
     (case rest of
        [] \<Rightarrow> Inl ErrCorruptBatch
      | k # rest \<Rightarrow>
          let kind = unat k in
          if kind \<noteq> KindPut \<and> kind \<noteq> KindDelete then Inl ErrCorruptBatch
          else case DecodeLengthPrefixed rest of
            Inl _ \<Rightarrow> Inl ErrCorruptBatch
          | Inr (userKey, rest) \<Rightarrow>
              if kind = KindPut then
                (case DecodeLengthPrefixed rest of
                   Inl _ \<Rightarrow> Inl ErrCorruptBatch
                 | Inr (value, rest) \<Rightarrow>
                     decode_ops n rest
                       (ops @ [\<lparr>op_Kind = kind, op_UserKey = userKey, op_Value = value\<rparr>]))
              else
                decode_ops n rest
                  (ops @ [\<lparr>op_Kind = kind, op_UserKey = userKey, op_Value = []\<rparr>]))"

definition DecodeBatch :: "bytes \<Rightarrow> wal_error + Batch" where
  "DecodeBatch payload =
     (if length payload < 8 then Inl ErrCorruptBatch
      else
        let rest = drop 8 payload in
        case uvarint rest of
          None \<Rightarrow> Inl ErrCorruptBatch
        | Some (count, w) \<Rightarrow>
            let rest = drop w rest in
            if count > length rest div 2 then Inl ErrCorruptBatch
            else case decode_ops count rest [] of
              Inl e \<Rightarrow> Inl e
            | Inr (ops, rest) \<Rightarrow>
                if rest \<noteq> [] then Inl ErrCorruptBatch
                else Inr \<lparr>BaseSeq = get_u64 (take 8 payload), Ops = ops\<rparr>)"

section \<open>Round trip\<close>

text \<open>The batches the engine builds: known kinds, no value on a delete, 64-bit sizes.\<close>

definition wf_op :: "Op \<Rightarrow> bool" where
  "wf_op op \<longleftrightarrow> (op_Kind op = KindPut \<or> op_Kind op = KindDelete \<and> op_Value op = [])
     \<and> length (op_UserKey op) < 2 ^ 64 \<and> length (op_Value op) < 2 ^ 64"

definition wf_batch :: "Batch \<Rightarrow> bool" where
  "wf_batch b \<longleftrightarrow> BaseSeq b < 2 ^ 64 \<and> length (Ops b) < 2 ^ 64 \<and> list_all wf_op (Ops b)"

lemma wf_batch_Put:
  assumes "wf_batch b" "length k < 2 ^ 64" "length v < 2 ^ 64" "length (Ops b) + 1 < 2 ^ 64"
  shows "wf_batch (Batch_Put k v b)"
  using assms by (simp add: wf_batch_def Batch_Put_def wf_op_def)

lemma wf_batch_Delete:
  assumes "wf_batch b" "length k < 2 ^ 64" "length (Ops b) + 1 < 2 ^ 64"
  shows "wf_batch (Batch_Delete k b)"
  using assms by (simp add: wf_batch_def Batch_Delete_def wf_op_def)

text \<open>The bytes one op contributes.\<close>

definition op_bytes :: "Op \<Rightarrow> bytes" where
  "op_bytes op = of_nat (op_Kind op) # AppendLengthPrefixed [] (op_UserKey op)
     @ (if op_Kind op = KindPut then AppendLengthPrefixed [] (op_Value op) else [])"

lemma encode_ops_concat: "encode_ops ops dst = dst @ concat (map op_bytes ops)"
proof (induction ops arbitrary: dst)
  case (Cons op ops)
  have "encode_ops (op # ops) dst = encode_ops ops (dst @ op_bytes op)"
    by (simp add: op_bytes_def Let_def AppendLengthPrefixed_def)
  with Cons show ?case by simp
qed simp

lemma length_op_bytes: "2 \<le> length (op_bytes op)"
proof -
  have "1 \<le> length (put_uvarint (length (op_UserKey op)))"
    using length_put_uvarint_pos by (metis One_nat_def Suc_leI)
  then show ?thesis by (simp add: op_bytes_def AppendLengthPrefixed_def)
qed

lemma decode_op:
  assumes "wf_op op"
  shows "decode_ops (Suc n) (op_bytes op @ r) acc = decode_ops n r (acc @ [op])"
proof -
  have k: "unat (of_nat (op_Kind op) :: byte) = op_Kind op"
    using assms by (auto simp: wf_op_def KindPut_def KindDelete_def unat_of_nat_byte)
  show ?thesis
  proof (cases "op_Kind op = KindPut")
    case True
    then show ?thesis using assms k
      by (cases op) (simp add: op_bytes_def codec_simps wf_op_def)
  next
    case False
    then have "op_Kind op = KindDelete" "op_Value op = []" using assms by (auto simp: wf_op_def)
    then show ?thesis using assms k
      by (cases op) (simp add: op_bytes_def codec_simps wf_op_def KindPut_def KindDelete_def)
  qed
qed

lemma decode_ops_concat:
  "list_all wf_op ops \<Longrightarrow>
   decode_ops (length ops) (concat (map op_bytes ops) @ r) acc = Inr (acc @ ops, r)"
  by (induction ops arbitrary: acc) (simp_all add: decode_op del: decode_ops.simps(2))

lemma length_concat_op_bytes: "2 * length ops \<le> length (concat (map op_bytes ops))"
proof (induction ops)
  case (Cons op ops)
  then show ?case using length_op_bytes [of op] by simp
qed simp

lemma DecodeBatch_Encode:
  assumes "wf_batch b"
  shows "DecodeBatch (Encode b []) = Inr b"
proof -
  let ?body = "concat (map op_bytes (Ops b))"
  have enc: "Encode b [] = put_u64 (BaseSeq b) @ put_uvarint (length (Ops b)) @ ?body"
    by (simp add: Encode_def encode_ops_concat)
  have u: "uvarint (put_uvarint (length (Ops b)) @ ?body)
      = Some (length (Ops b), length (put_uvarint (length (Ops b))))"
    using assms by (simp add: codec_simps wf_batch_def)
  have n: "length (Ops b) \<le> length ?body div 2"
    using length_concat_op_bytes [of "Ops b"] by simp
  have d: "decode_ops (length (Ops b)) ?body [] = Inr (Ops b, [])"
    using decode_ops_concat [of "Ops b" "[]" "[]"] assms by (simp add: wf_batch_def)
  have s: "get_u64 (put_u64 (BaseSeq b)) = BaseSeq b"
    using assms get_u64_put [of "BaseSeq b" "[]"] by (simp add: wf_batch_def)
  show ?thesis
    using n s by (simp add: DecodeBatch_def enc u d Let_def not_less)
qed

end
