(* ===== verification/Crc32c.thy ===== *)
theory Crc32c
  imports Prelude
begin

text \<open>
  The CRC-32C checksum of Go's \<^verbatim>\<open>hash/crc32\<close> with the Castagnoli polynomial, which the WAL,
  the tables and the shard map use.  \<open>crc_bit\<close> is one step of the reflected division,
  \<open>crc_byte\<close> is what the library's table lookup precomputes for the eight steps of a byte.
  The lemmas show that updating composes and that the checksum of a string changes whenever a
  single byte of it does.
\<close>

section \<open>Definitions\<close>

definition castagnoli_poly :: "32 word" where
  "castagnoli_poly = 0x82F63B78"

definition crc_bit :: "32 word \<Rightarrow> 32 word" where
  "crc_bit c = (if bit c 0 then drop_bit 1 c XOR castagnoli_poly else drop_bit 1 c)"

definition crc_byte :: "32 word \<Rightarrow> byte \<Rightarrow> 32 word" where
  "crc_byte c b = (crc_bit ^^ 8) (c XOR ucast b)"

definition crc_update :: "32 word \<Rightarrow> bytes \<Rightarrow> 32 word" where
  "crc_update crc p = NOT (foldl crc_byte (NOT crc) p)"

definition crc_checksum :: "bytes \<Rightarrow> 32 word" where
  "crc_checksum p = crc_update 0 p"

section \<open>Composition\<close>

lemma crc_update_append: "crc_update (crc_update c a) b = crc_update c (a @ b)"
  by (simp add: crc_update_def)

lemma crc_checksum_append: "crc_update (crc_checksum a) b = crc_checksum (a @ b)"
  by (simp add: crc_checksum_def crc_update_append)

section \<open>Injectivity\<close>

lemma xor_right_cancel: "a XOR c = b XOR c \<Longrightarrow> a = b" for a b c :: "'a :: len word"
  by (metis xor.assoc xor.right_neutral xor_self_eq)

lemma bit_crc_bit_31: "bit (crc_bit c) 31 \<longleftrightarrow> bit c 0"
proof -
  have "bit castagnoli_poly 31" by (simp add: castagnoli_poly_def bit_numeral_rec)
  moreover have "\<not> bit (drop_bit 1 c) 31" by (auto simp: bit_drop_bit_eq dest: bit_imp_le_length)
  ultimately show ?thesis by (auto simp: crc_bit_def bit_xor_iff)
qed

lemma crc_bit_inj: "crc_bit c = crc_bit d \<Longrightarrow> c = d"
proof -
  assume eq: "crc_bit c = crc_bit d"
  then have lsb: "bit c 0 \<longleftrightarrow> bit d 0" by (metis bit_crc_bit_31)
  then have dr: "drop_bit 1 c = drop_bit 1 d"
    using eq by (auto simp: crc_bit_def dest: xor_right_cancel split: if_splits)
  have "bit c n \<longleftrightarrow> bit d n" for n
  proof (cases n)
    case (Suc m)
    have "bit (drop_bit 1 c) m \<longleftrightarrow> bit (drop_bit 1 d) m" by (simp only: dr)
    then show ?thesis by (simp add: bit_drop_bit_eq Suc)
  qed (simp add: lsb)
  then show "c = d" by (intro bit_eqI) simp
qed

lemma crc_bit_iter_inj: "(crc_bit ^^ n) c = (crc_bit ^^ n) d \<Longrightarrow> c = d"
  by (induction n) (auto dest: crc_bit_inj)

lemma crc_byte_inj_state: "crc_byte c b = crc_byte d b \<Longrightarrow> c = d"
  unfolding crc_byte_def by (drule crc_bit_iter_inj) (rule xor_right_cancel)

lemma crc_byte_inj_byte: "crc_byte c a = crc_byte c b \<Longrightarrow> a = b"
proof -
  assume "crc_byte c a = crc_byte c b"
  then have "c XOR ucast a = c XOR ucast b" unfolding crc_byte_def by (rule crc_bit_iter_inj)
  then have "(ucast a :: 32 word) = ucast b" by (metis xor.commute xor_right_cancel)
  then have "unat (ucast a :: 32 word) = unat (ucast b :: 32 word)" by simp
  moreover have "take_bit 32 (unat x) = unat x" for x :: byte
    by (rule take_bit_nat_eq_self) (rule less_trans [OF unat_byte_less], simp)
  ultimately show "a = b" by (simp add: unsigned_ucast_eq word_unat_eq_iff)
qed

lemma foldl_crc_inj: "foldl crc_byte c p = foldl crc_byte d p \<Longrightarrow> c = d"
  by (induction p arbitrary: c d) (auto dest: crc_byte_inj_state)

text \<open>Strings of one length that differ in exactly one byte have different checksums.\<close>

lemma crc_update_single_byte:
  assumes "i < length p" "b \<noteq> p ! i"
  shows "crc_update c (p[i := b]) \<noteq> crc_update c p"
proof
  assume "crc_update c (p[i := b]) = crc_update c p"
  then have "NOT (crc_update c (p[i := b])) = NOT (crc_update c p)" by simp
  then have eq: "foldl crc_byte (NOT c) (p[i := b]) = foldl crc_byte (NOT c) p"
    by (simp add: crc_update_def)
  define s where "s = foldl crc_byte (NOT c) (take i p)"
  have "foldl crc_byte (NOT c) (p[i := b]) = foldl crc_byte (crc_byte s b) (drop (Suc i) p)"
    using assms(1) by (simp add: upd_conv_take_nth_drop s_def)
  moreover have "foldl crc_byte (NOT c) p = foldl crc_byte (crc_byte s (p ! i)) (drop (Suc i) p)"
    using arg_cong [OF id_take_nth_drop [OF assms(1)], of "foldl crc_byte (NOT c)"]
    by (simp add: s_def)
  ultimately have "crc_byte s b = crc_byte s (p ! i)"
    using eq foldl_crc_inj by metis
  then have "b = p ! i" by (rule crc_byte_inj_byte)
  with assms(2) show False by simp
qed

end
