(* ===== verification/WalRecord.thy ===== *)
theory WalRecord
  imports Codec Crc32c
begin

text \<open>
  Record framing, \<^verbatim>\<open>src/internal/wal/record.go\<close>.  The write-ahead log, the manifest and the
  raft state file are all sequences of these records.  The lemmas give the round trip, the
  behaviour on a torn tail (a file cut anywhere yields exactly the records wholly before the cut)
  and the detection of a corrupted byte.
\<close>

section \<open>Definitions\<close>

abbreviation (input) RecordHeaderLen :: nat where "RecordHeaderLen \<equiv> 8"

definition MaxUint32 :: nat where "MaxUint32 = 2 ^ 32 - 1"

text \<open>\<open>None\<close> is the panic on a payload past the length field.\<close>

definition AppendRecord :: "bytes \<Rightarrow> bytes \<Rightarrow> bytes option" where
  "AppendRecord dst payload =
     (if length payload > MaxUint32 then None
      else
        let lenBuf = put_u32 (length payload);
            c = crc_update (crc_checksum lenBuf) payload
        in Some (((dst @ put_u32 (unat c)) @ lenBuf) @ payload))"

definition NextRecord :: "bytes \<Rightarrow> (bytes \<times> bytes) option" where
  "NextRecord buf =
     (if length buf < RecordHeaderLen then None
      else
        let wantCRC = get_u32 (take 4 buf);
            len = get_u32 (drop 4 (take 8 buf))
        in if len > length buf - RecordHeaderLen then None
           else
             let end = RecordHeaderLen + len;
                 c = crc_update (crc_checksum (drop 4 (take 8 buf))) (drop RecordHeaderLen (take end buf))
             in if unat c \<noteq> wantCRC then None
                else Some (drop RecordHeaderLen (take end buf), drop end buf))"

lemma NextRecord_length:
  "NextRecord buf = Some (payload, rest) \<Longrightarrow> length rest + 8 + length payload = length buf"
  by (auto simp: NextRecord_def Let_def split: if_splits)

text \<open>
  \<^verbatim>\<open>ScanRecords(buf, fn)\<close>: the callback is a state transformer that may fail; the result is
  the length of the clean prefix and the callback's error or final state.
\<close>

function scan_loop :: "(bytes \<Rightarrow> 's \<Rightarrow> 'e + 's) \<Rightarrow> bytes \<Rightarrow> bytes \<Rightarrow> 's \<Rightarrow> nat \<times> ('e + 's)" where
  "scan_loop fn buf rest s =
     (if rest = [] then (length buf - length rest, Inr s)
      else case NextRecord rest of
        None \<Rightarrow> (length buf - length rest, Inr s)
      | Some (payload, next) \<Rightarrow>
          (case fn payload s of
             Inl e \<Rightarrow> (length buf - length rest, Inl e)
           | Inr s' \<Rightarrow> scan_loop fn buf next s'))"
  by pat_completeness auto
termination
  by (relation "measure (\<lambda>(fn, buf, rest, s). length rest)") (auto dest: NextRecord_length)

declare scan_loop.simps [simp del]

definition ScanRecords :: "bytes \<Rightarrow> (bytes \<Rightarrow> 's \<Rightarrow> 'e + 's) \<Rightarrow> 's \<Rightarrow> nat \<times> ('e + 's)" where
  "ScanRecords buf fn s = scan_loop fn buf buf s"

section \<open>Frames\<close>

text \<open>The bytes of one record and of a sequence of records.\<close>

definition frame :: "bytes \<Rightarrow> bytes" where
  "frame p = put_u32 (unat (crc_checksum (put_u32 (length p) @ p))) @ put_u32 (length p) @ p"

definition frames :: "bytes list \<Rightarrow> bytes" where
  "frames ps = concat (map frame ps)"

definition fits :: "bytes \<Rightarrow> bool" where
  "fits p \<longleftrightarrow> length p \<le> MaxUint32"

lemma AppendRecord_frame: "fits p \<Longrightarrow> AppendRecord dst p = Some (dst @ frame p)"
  by (simp add: AppendRecord_def frame_def fits_def crc_checksum_append Let_def)

lemma AppendRecord_panics_iff: "AppendRecord dst p = None \<longleftrightarrow> \<not> fits p"
  by (simp add: AppendRecord_def fits_def Let_def)

lemma length_frame [simp]: "length (frame p) = 8 + length p"
  by (simp add: frame_def)

lemma frame_ne [simp]: "frame p \<noteq> []"
  using length_frame [of p] by (metis add_is_0 length_0_conv zero_neq_numeral)

lemma frames_simps [simp]:
  "frames [] = []" "frames (p # ps) = frame p @ frames ps" "frames (ps @ qs) = frames ps @ frames qs"
  by (auto simp: frames_def)

lemma unat_crc_less: "unat (c :: 32 word) < 2 ^ 32"
  using unsigned_less [of c, where 'a = nat] by simp

lemma fits_less: "fits p \<Longrightarrow> length p < 2 ^ 32"
  by (simp add: fits_def MaxUint32_def)

lemma frame_header:
  assumes "fits p"
  shows "get_u32 (take 4 (frame p @ r)) = unat (crc_checksum (put_u32 (length p) @ p))"
    and "drop 4 (take 8 (frame p @ r)) = put_u32 (length p)"
  using fits_less [OF assms] unat_crc_less
  by (auto simp: frame_def le_dec_le_enc)

lemma NextRecord_frame:
  assumes "fits p"
  shows "NextRecord (frame p @ r) = Some (p, r)"
proof -
  have len: "get_u32 (put_u32 (length p)) = length p"
    using fits_less [OF assms] get_u32_put [of "length p" "[]"] by simp
  have payload: "drop 8 (take (8 + length p) (frame p @ r)) = p"
    by (simp add: frame_def)
  have rest: "drop (8 + length p) (frame p @ r) = r"
    by (simp add: frame_def)
  show ?thesis
    unfolding NextRecord_def Let_def frame_header [OF assms] len payload rest
    by (simp add: crc_checksum_append)
qed

text \<open>A record cut short is never accepted: its length field, if whole, exceeds what is left.\<close>

lemma NextRecord_torn:
  assumes "fits p" "strict_prefix t (frame p)"
  shows "NextRecord t = None"
proof (cases "length t < 8")
  case False
  obtain u where u: "frame p = t @ u" "u \<noteq> []"
    using assms(2) by (auto simp: strict_prefix_def prefix_def)
  have "drop 4 (take 8 t) = put_u32 (length p)"
    using frame_header(2) [OF assms(1), of "[]"] False u(1) by simp
  moreover have "get_u32 (put_u32 (length p)) = length p"
    using fits_less [OF assms(1)] get_u32_put [of "length p" "[]"] by simp
  moreover have "length t - 8 < length p"
  proof -
    have "8 + length p = length t + length u" using arg_cong [OF u(1), of length] by simp
    moreover have "0 < length u" using u(2) by simp
    ultimately show ?thesis using False by linarith
  qed
  ultimately show ?thesis using False by (simp add: NextRecord_def Let_def)
qed (simp add: NextRecord_def)

text \<open>
  A record with one corrupted byte, in the checksum or in the payload, is rejected whatever
  follows it.
\<close>

lemma NextRecord_corrupt_payload:
  assumes "fits p" "i < length p" "b \<noteq> p ! i"
  shows "NextRecord ((frame p)[8 + i := b] @ r) = None"
proof -
  let ?h = "put_u32 (length p)"
  let ?q = "p[i := b]"
  have f: "(frame p)[8 + i := b] = put_u32 (unat (crc_checksum (?h @ p))) @ ?h @ ?q"
    by (simp add: frame_def list_update_append)
  have len: "get_u32 ?h = length p"
    using fits_less [OF assms(1)] get_u32_put [of "length p" "[]"] by simp
  have crc: "get_u32 (put_u32 (unat (crc_checksum (?h @ p)))) = unat (crc_checksum (?h @ p))"
    using unat_crc_less get_u32_put [of _ "[]"] by simp
  have "(?h @ p)[4 + i := b] = ?h @ ?q" by (simp add: list_update_append)
  then have "crc_checksum (?h @ ?q) \<noteq> crc_checksum (?h @ p)"
    using crc_update_single_byte [of "4 + i" "?h @ p" b 0] assms(2,3)
    by (simp add: crc_checksum_def nth_append)
  then have "unat (crc_checksum (?h @ ?q)) \<noteq> unat (crc_checksum (?h @ p))"
    by (simp add: word_unat_eq_iff)
  then show ?thesis
    unfolding f NextRecord_def Let_def
    using len crc by (simp add: crc_checksum_append)
qed

lemma NextRecord_corrupt_crc:
  assumes "fits p" "i < 4" "b \<noteq> frame p ! i"
  shows "NextRecord ((frame p)[i := b] @ r) = None"
proof -
  let ?h = "put_u32 (length p)" and ?c = "crc_checksum (put_u32 (length p) @ p)"
  have f: "(frame p)[i := b] = (put_u32 (unat ?c))[i := b] @ ?h @ p"
    using assms(2) by (simp add: frame_def list_update_append)
  have len: "get_u32 ?h = length p"
    using fits_less [OF assms(1)] get_u32_put [of "length p" "[]"] by simp
  have "(put_u32 (unat ?c))[i := b] \<noteq> put_u32 (unat ?c)"
    using assms(2,3) by (metis frame_def length_le_enc nth_append nth_list_update_eq)
  then have "le_dec ((put_u32 (unat ?c))[i := b]) \<noteq> unat ?c"
    by (metis le_enc_le_dec length_le_enc length_list_update)
  then show ?thesis
    unfolding f NextRecord_def Let_def
    using len by (simp add: crc_checksum_append)
qed

section \<open>Scanning\<close>

text \<open>The callback's result over a list of payloads: it stops at the first error.\<close>

fun fold_fn :: "(bytes \<Rightarrow> 's \<Rightarrow> 'e + 's) \<Rightarrow> bytes list \<Rightarrow> 's \<Rightarrow> 'e + 's" where
  "fold_fn fn [] s = Inr s"
| "fold_fn fn (p # ps) s = (case fn p s of Inl e \<Rightarrow> Inl e | Inr s' \<Rightarrow> fold_fn fn ps s')"

lemma fold_fn_append:
  "fold_fn fn (ps @ qs) s = (case fold_fn fn ps s of Inl e \<Rightarrow> Inl e | Inr s' \<Rightarrow> fold_fn fn qs s')"
  by (induction ps arbitrary: s) (auto split: sum.splits)

lemma scan_loop_frames:
  assumes "\<forall>p\<in>set ps. fits p" "NextRecord t = None" "length rest \<le> length buf"
    "rest = frames ps @ t"
  shows "snd (scan_loop fn buf rest s) = fold_fn fn ps s
    \<and> (\<forall>s'. fold_fn fn ps s = Inr s' \<longrightarrow> fst (scan_loop fn buf rest s) = length buf - length t)"
  using assms
proof (induction ps arbitrary: rest s)
  case Nil
  then show ?case by (subst (1 2) scan_loop.simps) (auto split: option.splits)
next
  case (Cons p ps)
  have nx: "NextRecord rest = Some (p, frames ps @ t)"
    using Cons.prems NextRecord_frame [of p "frames ps @ t"] by simp
  have ne: "rest \<noteq> []" using Cons.prems by simp
  show ?case
  proof (cases "fn p s")
    case (Inl e)
    then show ?thesis using nx ne by (subst (1 2) scan_loop.simps) simp
  next
    case (Inr s')
    have "snd (scan_loop fn buf (frames ps @ t) s') = fold_fn fn ps s'
      \<and> (\<forall>s''. fold_fn fn ps s' = Inr s'' \<longrightarrow>
            fst (scan_loop fn buf (frames ps @ t) s') = length buf - length t)"
      using Cons.prems by (intro Cons.IH) auto
    then show ?thesis using nx ne Inr by (subst (1 2) scan_loop.simps) simp
  qed
qed

lemma ScanRecords_frames:
  assumes "\<forall>p\<in>set ps. fits p" "NextRecord t = None"
  shows "snd (ScanRecords (frames ps @ t) fn s) = fold_fn fn ps s"
    and "fold_fn fn ps s = Inr s' \<Longrightarrow>
      fst (ScanRecords (frames ps @ t) fn s) = length (frames ps)"
  using scan_loop_frames [OF assms, of "frames ps @ t" "frames ps @ t" fn s]
  by (auto simp: ScanRecords_def)

lemma NextRecord_Nil [simp]: "NextRecord [] = None"
  by (simp add: NextRecord_def)

text \<open>
  Cutting a sequence of records anywhere leaves some of the records whole and then nothing, or a
  strict prefix of the next record.
\<close>

lemma take_frames:
  "\<exists>k t. k \<le> length ps \<and> take n (frames ps) = frames (take k ps) @ t
     \<and> (t = [] \<or> k < length ps \<and> strict_prefix t (frame (ps ! k)))"
proof (induction ps arbitrary: n)
  case (Cons p ps)
  show ?case
  proof (cases "length (frame p) \<le> n")
    case True
    obtain k t where "k \<le> length ps" "take (n - length (frame p)) (frames ps) = frames (take k ps) @ t"
      "t = [] \<or> k < length ps \<and> strict_prefix t (frame (ps ! k))"
      using Cons.IH by blast
    with True show ?thesis by (intro exI [of _ "Suc k"] exI [of _ t]) auto
  next
    case False
    then have "strict_prefix (take n (frame p)) (frame p)"
      by (metis length_take min.absorb2 nat_le_linear order_less_irrefl strict_prefix_def
          take_all_iff take_is_prefix)
    with False show ?thesis
      by (intro exI [of _ 0] exI [of _ "take n (frame p)"]) auto
  qed
qed simp

lemma take_frames_records:
  assumes "\<forall>p\<in>set ps. fits p"
  obtains k t where "k \<le> length ps" "take n (frames ps) = frames (take k ps) @ t"
    "NextRecord t = None" "length t < 8 + (if k < length ps then length (ps ! k) else 0)"
proof -
  obtain k t where kt: "k \<le> length ps" "take n (frames ps) = frames (take k ps) @ t"
    "t = [] \<or> k < length ps \<and> strict_prefix t (frame (ps ! k))"
    using take_frames [of ps n] by blast
  have "NextRecord t = None"
    using kt(1,3) assms by (auto dest: NextRecord_torn)
  moreover have "length t < 8 + (if k < length ps then length (ps ! k) else 0)"
    using kt(3) prefix_length_less [of t "frame (ps ! k)"] by auto
  ultimately show ?thesis using kt(1,2) that by blast
qed

end
