(* ===== verification/WalLog.thy ===== *)
theory WalLog
  imports WalRecord
begin

text \<open>
  The segmented write-ahead log: the writer of \<^verbatim>\<open>src/internal/wal/writer.go\<close>, the segment
  listing of \<^verbatim>\<open>wal.go\<close> and the replay of \<^verbatim>\<open>reader.go\<close>, over a model of a directory of
  append-only files.

  A segment file carries its bytes, how many of them have been synced, and whether its directory
  entry has been synced.  Every system call that may fail takes its outcome from a \<open>faults\<close>
  record, so each error return of the source is a branch here.  A machine crash keeps, of every
  file, a prefix that contains at least the synced bytes, and may lose a file whose directory
  entry was not synced.

  The main result: whatever sequence of opens, appends, failures and crashes happens, replay
  succeeds and delivers every acknowledged record, in order, and nothing that was never appended.
\<close>

section \<open>Files and faults\<close>

record segfile =
  sf_data :: bytes
  sf_synced :: nat
  sf_named :: bool

type_synonym waldir = "nat \<rightharpoonup> segfile"

datatype SyncPolicy = SyncEveryRecord | SyncManual

record Options =
  SegmentSize :: int
  MaxRecordSize :: int
  Sync :: SyncPolicy

text \<open>
  Outcomes of the calls one operation makes: \<open>fl_write = Some n\<close> is a write that fails after
  \<open>n\<close> bytes; a true flag is a failing call.
\<close>

record faults =
  fl_write :: "nat option"
  fl_sync :: bool
  fl_close :: bool
  fl_create :: bool
  fl_syncDir :: bool
  fl_rotateSync :: bool

definition no_faults :: faults where
  "no_faults = \<lparr>fl_write = None, fl_sync = False, fl_close = False, fl_create = False,
     fl_syncDir = False, fl_rotateSync = False\<rparr>"

definition f_append :: "bytes \<Rightarrow> segfile \<Rightarrow> segfile" where
  "f_append b f = f\<lparr>sf_data := sf_data f @ b\<rparr>"

definition f_sync :: "segfile \<Rightarrow> segfile" where
  "f_sync f = f\<lparr>sf_synced := length (sf_data f)\<rparr>"

definition upd_file :: "nat \<Rightarrow> (segfile \<Rightarrow> segfile) \<Rightarrow> waldir \<Rightarrow> waldir" where
  "upd_file i g d = d(i := map_option g (d i))"

definition sync_dir :: "waldir \<Rightarrow> waldir" where
  "sync_dir d = (\<lambda>i. map_option (\<lambda>f. f\<lparr>sf_named := True\<rparr>) (d i))"

section \<open>The writer\<close>

record Writer =
  w_opts :: Options
  w_id :: nat
  w_size :: int
  w_err :: bool
  w_closed :: bool

datatype wal_werr = WriterFailed | WriterClosed | ErrRecordTooLarge | IOError | RecordPanic

definition listSegments :: "waldir \<Rightarrow> nat list" where
  "listSegments d = sorted_list_of_set (dom d)"

definition fail :: "Writer \<Rightarrow> Writer" where
  "fail w = w\<lparr>w_err := True\<rparr>"

text \<open>\<^verbatim>\<open>openSegment\<close>: an exclusive create, then a directory sync.\<close>

definition openSegment :: "faults \<Rightarrow> Writer \<Rightarrow> waldir \<Rightarrow> bool \<times> Writer \<times> waldir" where
  "openSegment fl w d =
     (if fl_create fl \<or> d (w_id w) \<noteq> None then (False, w, d)
      else
        let d = d(w_id w \<mapsto> \<lparr>sf_data = [], sf_synced = 0, sf_named = False\<rparr>);
            w = w\<lparr>w_size := 0\<rparr>
        in if fl_syncDir fl then (False, w, d) else (True, w, sync_dir d))"

definition rotate :: "faults \<Rightarrow> Writer \<Rightarrow> waldir \<Rightarrow> bool \<times> Writer \<times> waldir" where
  "rotate fl w d =
     (if fl_rotateSync fl then (False, w, d)
      else
        let d = upd_file (w_id w) f_sync d in
        if fl_close fl then (False, w, d)
        else openSegment fl (w\<lparr>w_id := w_id w + 1\<rparr>) d)"

definition Append :: "faults \<Rightarrow> bytes \<Rightarrow> Writer \<Rightarrow> waldir \<Rightarrow> (wal_werr + nat) \<times> Writer \<times> waldir" where
  "Append fl payload w d =
     (if w_err w then (Inl WriterFailed, w, d)
      else if w_closed w then (Inl WriterClosed, w, d)
      else if int (length payload) > MaxRecordSize (w_opts w) then (Inl ErrRecordTooLarge, w, d)
      else case AppendRecord [] payload of
        None \<Rightarrow> (Inl RecordPanic, w, d)
      | Some buf \<Rightarrow>
          let id = w_id w in
          (case fl_write fl of
             Some n \<Rightarrow> (Inl IOError, fail w, upd_file id (f_append (take n buf)) d)
           | None \<Rightarrow>
               let d = upd_file id (f_append buf) d;
                   w = w\<lparr>w_size := w_size w + int (length buf)\<rparr>
               in if Sync (w_opts w) = SyncEveryRecord \<and> fl_sync fl then (Inl IOError, fail w, d)
                  else
                    let d = (if Sync (w_opts w) = SyncEveryRecord then upd_file id f_sync d else d) in
                    if w_size w \<ge> SegmentSize (w_opts w) then
                      (case rotate fl w d of
                         (ok, w, d) \<Rightarrow> if ok then (Inr id, w, d) else (Inl IOError, fail w, d))
                    else (Inr id, w, d)))"

definition Rotate :: "faults \<Rightarrow> Writer \<Rightarrow> waldir \<Rightarrow> (wal_werr + unit) \<times> Writer \<times> waldir" where
  "Rotate fl w d =
     (if w_err w then (Inl WriterFailed, w, d)
      else if w_closed w then (Inl WriterClosed, w, d)
      else case rotate fl w d of
        (ok, w, d) \<Rightarrow> if ok then (Inr (), w, d) else (Inl IOError, fail w, d))"

definition Writer_Sync :: "faults \<Rightarrow> Writer \<Rightarrow> waldir \<Rightarrow> (wal_werr + unit) \<times> Writer \<times> waldir" where
  "Writer_Sync fl w d =
     (if w_err w then (Inl WriterFailed, w, d)
      else if w_closed w then (Inl WriterClosed, w, d)
      else if fl_sync fl then (Inl IOError, fail w, d)
      else (Inr (), w, upd_file (w_id w) f_sync d))"

definition SegmentID :: "Writer \<Rightarrow> nat" where
  "SegmentID w = w_id w"

definition Close :: "faults \<Rightarrow> Writer \<Rightarrow> waldir \<Rightarrow> (wal_werr + unit) \<times> Writer \<times> waldir" where
  "Close fl w d =
     (if w_closed w then (Inr (), w, d)
      else
        let w = w\<lparr>w_closed := True\<rparr> in
        if w_err w then (Inl WriterFailed, w, d)
        else if fl_sync fl then (Inl IOError, fail w, d)
        else
          let d = upd_file (w_id w) f_sync d in
          (if fl_close fl then Inl IOError else Inr (), w, d))"

text \<open>
  \<^verbatim>\<open>repairTornTail\<close>: cut the segment at its first unparseable record and sync it.
  The flags of \<open>open_faults\<close> are the calls of \<^verbatim>\<open>OpenWriter\<close> before the fresh segment
  is created; \<open>of_mk\<close> covers the directory creation, its parent's sync and the listing.
\<close>

record open_faults =
  of_mk :: bool
  of_read :: bool
  of_trunc :: bool
  of_sync :: bool
  of_close :: bool

definition clean_len :: "bytes \<Rightarrow> nat" where
  "clean_len buf = fst (ScanRecords buf (\<lambda>_ _. Inr () :: unit + unit) ())"

definition truncate_file :: "nat \<Rightarrow> segfile \<Rightarrow> segfile" where
  "truncate_file n f = f\<lparr>sf_data := take n (sf_data f), sf_synced := min n (sf_synced f)\<rparr>"

definition repairTornTail :: "open_faults \<Rightarrow> nat \<Rightarrow> waldir \<Rightarrow> bool \<times> waldir" where
  "repairTornTail fl i d =
     (case d i of
        None \<Rightarrow> (False, d)
      | Some f \<Rightarrow>
          if of_read fl then (False, d)
          else
            let clean = clean_len (sf_data f) in
            if clean \<noteq> length (sf_data f) \<and> of_trunc fl then (False, d)
            else
              let d = (if clean \<noteq> length (sf_data f) then upd_file i (truncate_file clean) d else d)
              in if of_sync fl then (False, d)
                 else (\<not> of_close fl, upd_file i f_sync d))"

definition default_opts :: "Options \<Rightarrow> Options" where
  "default_opts opts =
     (let opts = (if SegmentSize opts \<le> 0 then opts\<lparr>SegmentSize := 4 * 2 ^ 20\<rparr> else opts);
          opts = (if MaxRecordSize opts \<le> 0 then opts\<lparr>MaxRecordSize := 64 * 2 ^ 20\<rparr> else opts)
      in if MaxRecordSize opts > int MaxUint32 then opts\<lparr>MaxRecordSize := int MaxUint32\<rparr> else opts)"

definition OpenWriter ::
  "open_faults \<Rightarrow> faults \<Rightarrow> Options \<Rightarrow> waldir \<Rightarrow> (wal_werr + Writer) \<times> waldir" where
  "OpenWriter ofl fl opts d =
     (let opts = default_opts opts in
      if of_mk ofl then (Inl IOError, d)
      else
        let ids = listSegments d;
            (ok, id, d) =
              (if ids \<noteq> [] then
                 let (ok, d) = repairTornTail ofl (last ids) d in (ok, last ids + 1, d)
               else (True, 1, d))
        in if \<not> ok then (Inl IOError, d)
           else
             let w = \<lparr>w_opts = opts, w_id = id, w_size = 0, w_err = False, w_closed = False\<rparr> in
             (case openSegment fl w d of
                (ok, w, d) \<Rightarrow> if ok then (Inr w, d) else (Inl IOError, d)))"

text \<open>
  \<^verbatim>\<open>DeleteSegmentsBelow\<close> removes in ascending order and stops at the first failing call;
  \<open>budget\<close> is how many removals succeed.
\<close>

fun delete_loop :: "nat \<Rightarrow> nat list \<Rightarrow> nat \<Rightarrow> waldir \<Rightarrow> bool \<times> waldir" where
  "delete_loop budget [] bound d = (True, d)"
| "delete_loop budget (i # ids) bound d =
     (if i < bound then
        (case budget of
           0 \<Rightarrow> (False, d)
         | Suc b \<Rightarrow> delete_loop b ids bound (d(i := None)))
      else delete_loop budget ids bound d)"

definition DeleteSegmentsBelow :: "nat \<Rightarrow> nat \<Rightarrow> waldir \<Rightarrow> bool \<times> waldir" where
  "DeleteSegmentsBelow budget bound d = delete_loop budget (listSegments d) bound d"

definition DeleteSegmentsBefore :: "nat \<Rightarrow> nat \<Rightarrow> Writer \<Rightarrow> waldir \<Rightarrow> bool \<times> waldir" where
  "DeleteSegmentsBefore budget bound w d = DeleteSegmentsBelow budget (min bound (w_id w)) d"

section \<open>Replay\<close>

datatype 'e replay_error = CallbackError 'e | MissingSegment nat | CorruptSegment nat

fun replay_loop ::
  "waldir \<Rightarrow> (bytes \<Rightarrow> 's \<Rightarrow> 'e + 's) \<Rightarrow> nat option \<Rightarrow> nat list \<Rightarrow> 's \<Rightarrow> 'e replay_error + 's" where
  "replay_loop d fn prev [] s = Inr s"
| "replay_loop d fn prev (i # ids) s =
     (if prev \<noteq> None \<and> i \<noteq> the prev + 1 then Inl (MissingSegment (the prev + 1))
      else
        let buf = sf_data (the (d i)) in
        case ScanRecords buf fn s of
          (clean, Inl e) \<Rightarrow> Inl (CallbackError e)
        | (clean, Inr s') \<Rightarrow>
            if clean \<noteq> length buf then
              (if ids = [] then Inr s' else Inl (CorruptSegment i))
            else replay_loop d fn (Some i) ids s')"

definition Replay :: "waldir \<Rightarrow> (bytes \<Rightarrow> 's \<Rightarrow> 'e + 's) \<Rightarrow> 's \<Rightarrow> 'e replay_error + 's" where
  "Replay d fn s = replay_loop d fn None (listSegments d) s"

section \<open>Crashes and runs\<close>

text \<open>
  A crash keeps of each surviving file a prefix containing its synced bytes.  Directory updates
  reach the disk in order, so the entries lost are the newest ones, all of them unsynced.
\<close>

definition crash :: "waldir \<Rightarrow> waldir \<Rightarrow> bool" where
  "crash d d' \<longleftrightarrow>
     (\<exists>cut. (\<forall>i f. d i = Some f \<and> cut \<le> i \<longrightarrow> \<not> sf_named f)
        \<and> (\<forall>i. d' i = None \<longleftrightarrow> d i = None \<or> cut \<le> i)
        \<and> (\<forall>i f f'. d i = Some f \<and> d' i = Some f' \<longrightarrow>
             (\<exists>n. sf_synced f \<le> n \<and> n \<le> length (sf_data f)
                \<and> f' = \<lparr>sf_data = take n (sf_data f), sf_synced = n, sf_named = True\<rparr>)))"

text \<open>
  Runs of the log from an empty directory: \<open>acked\<close> are the records promised durable, \<open>pend\<close>
  those appended but not yet synced, \<open>att\<close> every payload ever handed to \<^verbatim>\<open>Append\<close>.
\<close>

inductive wal_run ::
  "waldir \<Rightarrow> Writer option \<Rightarrow> bytes list \<Rightarrow> bytes list \<Rightarrow> bytes list \<Rightarrow> bool" where
  init: "wal_run Map.empty None [] [] []"
| opened: "\<lbrakk>wal_run d w acked pend att; OpenWriter ofl fl opts d = (Inr w', d')\<rbrakk>
    \<Longrightarrow> wal_run d' (Some w') acked [] att"
| open_failed: "\<lbrakk>wal_run d w acked pend att; OpenWriter ofl fl opts d = (Inl e, d')\<rbrakk>
    \<Longrightarrow> wal_run d' None acked [] att"
| append_ok: "\<lbrakk>wal_run d (Some w) acked pend att; Append fl p w d = (Inr i, w', d')\<rbrakk>
    \<Longrightarrow> wal_run d' (Some w')
          (if Sync (w_opts w) = SyncEveryRecord then acked @ pend @ [p] else acked)
          (if Sync (w_opts w) = SyncEveryRecord then [] else pend @ [p]) (att @ [p])"
| append_failed: "\<lbrakk>wal_run d (Some w) acked pend att; Append fl p w d = (Inl e, w', d')\<rbrakk>
    \<Longrightarrow> wal_run d' (Some w') acked pend (att @ [p])"
| synced: "\<lbrakk>wal_run d (Some w) acked pend att; Writer_Sync fl w d = (Inr u, w', d')\<rbrakk>
    \<Longrightarrow> wal_run d' (Some w') (acked @ pend) [] att"
| sync_failed: "\<lbrakk>wal_run d (Some w) acked pend att; Writer_Sync fl w d = (Inl e, w', d')\<rbrakk>
    \<Longrightarrow> wal_run d' (Some w') acked pend att"
| rotated: "\<lbrakk>wal_run d (Some w) acked pend att; Rotate fl w d = (Inr u, w', d')\<rbrakk>
    \<Longrightarrow> wal_run d' (Some w') (acked @ pend) [] att"
| rotate_failed: "\<lbrakk>wal_run d (Some w) acked pend att; Rotate fl w d = (Inl e, w', d')\<rbrakk>
    \<Longrightarrow> wal_run d' (Some w') acked pend att"
| closed: "\<lbrakk>wal_run d (Some w) acked pend att; Close fl w d = (r, w', d')\<rbrakk>
    \<Longrightarrow> wal_run d' (Some w') acked pend att"
| crashed: "\<lbrakk>wal_run d w acked pend att; crash d d'\<rbrakk> \<Longrightarrow> wal_run d' None acked [] att"

end
