(* ===== verification/WalDurability.thy ===== *)
theory WalDurability
  imports WalLog
begin

text \<open>
  Durability of the write-ahead log: the shape every reachable directory has, that every
  operation and every crash keeps it, and what replay returns on it.
\<close>

section \<open>The shape of a log directory\<close>

definition torn :: "bytes \<Rightarrow> bool" where
  "torn t \<longleftrightarrow> (\<exists>p. fits p \<and> strict_prefix t (frame p))"

definition all_fit :: "bytes list \<Rightarrow> bool" where
  "all_fit ps \<longleftrightarrow> (\<forall>p\<in>set ps. fits p)"

definition sealed :: "bytes list \<Rightarrow> segfile \<Rightarrow> bool" where
  "sealed ps f \<longleftrightarrow> sf_data f = frames ps \<and> sf_synced f = length (sf_data f)
     \<and> (sf_named f \<or> sf_data f = []) \<and> all_fit ps"

definition newest :: "bytes list \<Rightarrow> bytes \<Rightarrow> segfile \<Rightarrow> bool" where
  "newest ps t f \<longleftrightarrow> sf_data f = frames ps @ t \<and> sf_synced f \<le> length (sf_data f)
     \<and> (sf_named f \<or> sf_data f = []) \<and> all_fit ps \<and> torn t"

text \<open>Sealed segments \<open>lo, lo + 1, \<dots>\<close> holding \<open>pss\<close>, then the newest holding \<open>ps\<close> and a torn tail.\<close>

definition log_shape :: "waldir \<Rightarrow> nat \<Rightarrow> bytes list list \<Rightarrow> bytes list \<Rightarrow> bytes \<Rightarrow> segfile \<Rightarrow> bool" where
  "log_shape d lo pss ps t f \<longleftrightarrow>
     dom d = {lo..lo + length pss}
     \<and> (\<forall>i<length pss. \<exists>g. d (lo + i) = Some g \<and> sealed (pss ! i) g)
     \<and> d (lo + length pss) = Some f \<and> newest ps t f"

lemma Nil_eq_frame [simp]: "[] \<noteq> frame p"
  using frame_ne [of p] by metis

lemma torn_Nil [simp]: "torn []"
  by (auto simp: torn_def fits_def strict_prefix_def intro!: exI [of _ "[]"])

lemma torn_NextRecord: "torn t \<Longrightarrow> NextRecord t = None"
  by (auto simp: torn_def intro: NextRecord_torn)

lemma torn_take: "torn t \<Longrightarrow> torn (take n t)"
  by (auto simp: torn_def) (metis prefix_order.le_less_trans take_is_prefix)

lemma torn_take_frame: "fits p \<Longrightarrow> n < length (frame p) \<Longrightarrow> torn (take n (frame p))"
  unfolding torn_def strict_prefix_def
  by (intro exI [of _ p]) (metis length_take min.absorb4 nless_le take_is_prefix)

lemma all_fit_simps [simp]:
  "all_fit []" "all_fit (p # ps) \<longleftrightarrow> fits p \<and> all_fit ps"
  "all_fit (ps @ qs) \<longleftrightarrow> all_fit ps \<and> all_fit qs"
  by (auto simp: all_fit_def)

lemma all_fit_take [simp]: "all_fit ps \<Longrightarrow> all_fit (take k ps)"
  by (auto simp: all_fit_def dest: in_set_takeD)

lemma frames_eq_Nil [simp]: "frames ps = [] \<longleftrightarrow> ps = []" "[] = frames ps \<longleftrightarrow> ps = []"
  by (cases ps; auto)+

lemma length_frames_take_mono: "j \<le> k \<Longrightarrow> length (frames (take j ps)) \<le> length (frames (take k ps))"
  using take_add [of j "k - j" ps] by simp

lemma length_frames_take_less:
  assumes "j < k" "k \<le> length ps"
  shows "length (frames (take j ps)) < length (frames (take k ps))"
proof -
  have "take (Suc j) ps = take j ps @ [ps ! j]"
    using assms by (simp add: take_Suc_conv_app_nth)
  moreover have "length (frames (take (Suc j) ps)) \<le> length (frames (take k ps))"
    using assms by (intro length_frames_take_mono) simp
  ultimately show ?thesis by simp
qed

text \<open>Cutting a newest segment at \<open>n\<close> keeps every record that lies wholly below \<open>n\<close>.\<close>

lemma take_newest:
  assumes "all_fit ps" "torn t" "k \<le> length ps" "length (frames (take k ps)) \<le> n"
  obtains j u where "k \<le> j" "j \<le> length ps" "take n (frames ps @ t) = frames (take j ps) @ u" "torn u"
proof (cases "length (frames ps) \<le> n")
  case True
  show ?thesis
    by (rule that [of "length ps" "take (n - length (frames ps)) t"])
      (use True assms in \<open>auto intro: torn_take\<close>)
next
  case False
  obtain j u where j: "j \<le> length ps" "take n (frames ps) = frames (take j ps) @ u"
    "u = [] \<or> j < length ps \<and> strict_prefix u (frame (ps ! j))"
    using take_frames [of ps n] by blast
  have "torn u"
    using j(3) assms(1) torn_Nil by (auto simp: torn_def all_fit_def)
  have n: "n = length (frames (take j ps)) + length u"
    using arg_cong [OF j(2), of length] False by simp
  have "k \<le> j"
  proof (rule ccontr)
    assume "\<not> k \<le> j"
    then have "length (frames (take (Suc j) ps)) \<le> length (frames (take k ps))" "j < length ps"
      using assms(3) by (auto intro!: length_frames_take_mono)
    moreover have "length u < length (frame (ps ! j))"
      using j(3) by (auto dest: prefix_length_less)
    moreover have "take (Suc j) ps = take j ps @ [ps ! j]"
      using \<open>j < length ps\<close> by (simp add: take_Suc_conv_app_nth)
    ultimately show False using n assms(4) by simp
  qed
  then show ?thesis
    using j \<open>torn u\<close> False by (intro that [of j u]) auto
qed

lemma log_shape_listSegments:
  "log_shape d lo pss ps t f \<Longrightarrow> listSegments d = [lo..<lo + length pss] @ [lo + length pss]"
  by (simp add: log_shape_def listSegments_def atLeastLessThanSuc_atLeastAtMost [symmetric]
      del: upt_Suc) simp

lemma log_shape_update:
  assumes "log_shape d lo pss ps t f" "i = lo + length pss" "newest ps' t' (g f)"
  shows "log_shape (upd_file i g d) lo pss ps' t' (g f)"
  using assms by (auto simp: log_shape_def upd_file_def)

lemma newest_append:
  "newest ps [] f \<Longrightarrow> sf_named f \<Longrightarrow> fits p \<Longrightarrow> newest (ps @ [p]) [] (f_append (frame p) f)"
  by (auto simp: newest_def f_append_def)

lemma newest_append_part:
  "newest ps [] f \<Longrightarrow> sf_named f \<Longrightarrow> fits p \<Longrightarrow> n < length (frame p)
     \<Longrightarrow> newest ps (take n (frame p)) (f_append (take n (frame p)) f)"
  by (auto simp: newest_def f_append_def intro: torn_take_frame)

lemma newest_sync: "newest ps t f \<Longrightarrow> newest ps t (f_sync f)"
  by (auto simp: newest_def f_sync_def)

lemma sealed_sync: "newest ps [] f \<Longrightarrow> sealed ps (f_sync f)"
  by (auto simp: newest_def sealed_def f_sync_def)

lemma f_ops_simps [simp]:
  "sf_data (f_append b f) = sf_data f @ b" "sf_synced (f_append b f) = sf_synced f"
  "sf_named (f_append b f) = sf_named f" "sf_data (f_sync f) = sf_data f"
  "sf_synced (f_sync f) = length (sf_data f)" "sf_named (f_sync f) = sf_named f"
  by (auto simp: f_append_def f_sync_def)

section \<open>Replay on a log directory\<close>

lemma replay_loop_clean:
  assumes "d i = Some f" "sealed ps f" "prev = None \<or> prev = Some (i - 1) \<and> 0 < i"
  shows "replay_loop d fn prev (i # ids) s =
    (case fold_fn fn ps s of
       Inl e \<Rightarrow> Inl (CallbackError e) | Inr s' \<Rightarrow> replay_loop d fn (Some i) ids s')"
proof -
  have scan: "snd (ScanRecords (sf_data f) fn s) = fold_fn fn ps s"
    "\<And>s'. fold_fn fn ps s = Inr s' \<Longrightarrow> fst (ScanRecords (sf_data f) fn s) = length (sf_data f)"
    using ScanRecords_frames [of ps "[]" fn s] assms(2) by (auto simp: sealed_def all_fit_def)
  show ?thesis
    using scan assms(1,3) by (cases "ScanRecords (sf_data f) fn s") (auto split: sum.splits)
qed

lemma replay_loop_sealed:
  assumes "\<forall>i<length pss. \<exists>g. d (lo + i) = Some g \<and> sealed (pss ! i) g"
    "prev = None \<or> prev = Some (lo - 1) \<and> 0 < lo"
  shows "replay_loop d fn prev ([lo..<lo + length pss] @ ids) s =
    (case fold_fn fn (concat pss) s of
       Inl e \<Rightarrow> Inl (CallbackError e)
     | Inr s' \<Rightarrow> replay_loop d fn (if pss = [] then prev else Some (lo + length pss - 1)) ids s')"
  using assms
proof (induction pss arbitrary: lo prev s)
  case (Cons qs pss)
  obtain g where g: "d lo = Some g" "sealed qs g"
    using Cons.prems(1) by force
  have rest: "\<forall>i<length pss. \<exists>g. d (Suc lo + i) = Some g \<and> sealed (pss ! i) g"
    using Cons.prems(1) by (auto dest: spec [of _ "Suc _"])
  have ups: "[lo..<lo + length (qs # pss)] = lo # [Suc lo..<Suc lo + length pss]"
    using upt_conv_Cons [of lo "lo + length (qs # pss)"] by simp
  have ih: "replay_loop d fn (Some lo) ([Suc lo..<Suc lo + length pss] @ ids) s' =
    (case fold_fn fn (concat pss) s' of
       Inl e \<Rightarrow> Inl (CallbackError e)
     | Inr s' \<Rightarrow>
         replay_loop d fn (if pss = [] then Some lo else Some (Suc lo + length pss - 1)) ids s')" for s'
    by (rule Cons.IH [OF rest]) simp
  show ?case
    unfolding ups append_Cons replay_loop_clean [where d = d and i = lo, OF g Cons.prems(2)] ih
    by (auto simp: fold_fn_append simp del: replay_loop.simps split: sum.splits)
qed auto

lemma replay_loop_newest:
  assumes "d i = Some f" "newest ps t f" "prev = None \<or> prev = Some (i - 1) \<and> 0 < i"
  shows "replay_loop d fn prev [i] s = map_sum CallbackError id (fold_fn fn ps s)"
proof -
  have "snd (ScanRecords (sf_data f) fn s) = fold_fn fn ps s"
    using ScanRecords_frames(1) [of ps t fn s] torn_NextRecord assms(2)
    by (simp add: newest_def all_fit_def)
  then show ?thesis
    using assms(1,3) by (cases "ScanRecords (sf_data f) fn s") (auto split: sum.splits)
qed

lemma Replay_log_shape:
  assumes "log_shape d lo pss ps t f" "0 < lo"
  shows "Replay d fn s = map_sum CallbackError id (fold_fn fn (concat pss @ ps) s)"
proof -
  let ?i = "lo + length pss"
  let ?prev = "if pss = [] then None else Some (?i - 1)"
  have "replay_loop d fn ?prev [?i] s' = map_sum CallbackError id (fold_fn fn ps s')" for s'
    using assms by (intro replay_loop_newest [of _ _ f]) (auto simp: log_shape_def)
  then show ?thesis
    using replay_loop_sealed [of pss d lo None fn "[?i]" s] assms(1)
    unfolding Replay_def log_shape_listSegments [OF assms(1)] fold_fn_append log_shape_def
    by (cases "fold_fn fn (concat pss) s") (simp_all del: replay_loop.simps)
qed

section \<open>The invariant of a run\<close>

text \<open>
  \<open>disk_inv\<close>: the first \<open>k\<close> records of the newest segment are synced, the acknowledged records
  are among the durable ones in order, and everything on disk was appended in that order.
\<close>

definition disk_inv ::
  "waldir \<Rightarrow> bytes list \<Rightarrow> bytes list \<Rightarrow> nat \<Rightarrow> bytes list list \<Rightarrow> bytes list \<Rightarrow> bytes \<Rightarrow> segfile \<Rightarrow> nat \<Rightarrow> bool" where
  "disk_inv d acked att lo pss ps t f k \<longleftrightarrow>
     0 < lo \<and> log_shape d lo pss ps t f \<and> k \<le> length ps
     \<and> length (frames (take k ps)) \<le> sf_synced f
     \<and> subseq acked (concat pss @ take k ps) \<and> subseq (concat pss @ ps) att"

definition writer_inv ::
  "Writer \<Rightarrow> bytes list \<Rightarrow> nat \<Rightarrow> bytes list list \<Rightarrow> bytes list \<Rightarrow> bytes \<Rightarrow> segfile \<Rightarrow> bool" where
  "writer_inv w acked_pend lo pss ps t f \<longleftrightarrow>
     t = [] \<and> sf_named f \<and> w_id w = lo + length pss
     \<and> MaxRecordSize (w_opts w) \<le> int MaxUint32 \<and> subseq acked_pend (concat pss @ ps)"

definition wal_inv :: "waldir \<Rightarrow> Writer option \<Rightarrow> bytes list \<Rightarrow> bytes list \<Rightarrow> bytes list \<Rightarrow> bool" where
  "wal_inv d w acked pend att \<longleftrightarrow>
     d = Map.empty \<and> acked = [] \<and> w = None
     \<or> (\<exists>lo pss ps t f k. disk_inv d acked att lo pss ps t f k
          \<and> (case w of None \<Rightarrow> True
             | Some wr \<Rightarrow> w_err wr \<or> writer_inv wr (acked @ pend) lo pss ps t f))"

lemma wal_invI:
  assumes "disk_inv d acked att lo pss ps t f k"
    "\<And>wr. w = Some wr \<Longrightarrow> \<not> w_err wr \<Longrightarrow> writer_inv wr (acked @ pend) lo pss ps t f"
  shows "wal_inv d w acked pend att"
  using assms unfolding wal_inv_def by (cases w) (auto, blast+)

lemma wal_inv_live:
  assumes "wal_inv d (Some w) acked pend att" "\<not> w_err w"
  obtains lo pss ps f k where "disk_inv d acked att lo pss ps [] f k"
    "writer_inv w (acked @ pend) lo pss ps [] f"
  using assms by (auto simp: wal_inv_def writer_inv_def)

lemma wal_inv_failed:
  assumes "wal_inv d (Some w) acked pend att" "w_err w'"
  shows "wal_inv d (Some w') acked pend' att"
  using assms unfolding wal_inv_def by (simp, blast)

lemma wal_inv_att:
  assumes "wal_inv d w acked pend att"
  shows "wal_inv d w acked pend (att @ ps)"
proof -
  have "subseq xs att \<Longrightarrow> subseq xs (att @ ps)" for xs
    using list_emb_append2 subseq_order.trans by (metis list_emb_append_mono subseq_order.refl append_Nil2 list_emb_Nil)
  then show ?thesis
    using assms unfolding wal_inv_def disk_inv_def by fast
qed

lemma disk_inv_sync:
  assumes "disk_inv d acked att lo pss ps t f k" "i = lo + length pss" "subseq acked' (concat pss @ ps)"
  shows "disk_inv (upd_file i f_sync d) acked' att lo pss ps t (f_sync f) (length ps)"
proof -
  have "log_shape d lo pss ps t f" "newest ps t f"
    using assms(1) by (auto simp: disk_inv_def log_shape_def)
  then show ?thesis
    using assms log_shape_update [of d lo pss ps t f i ps t f_sync] newest_sync [of ps t f]
    by (simp add: disk_inv_def) (simp add: newest_def)
qed

lemma log_shape_fresh: "log_shape d lo pss ps t f \<Longrightarrow> lo + length pss < j \<Longrightarrow> d j = None"
  unfolding log_shape_def by (metis atLeastAtMost_iff domIff not_le)

lemma openSegment_shape:
  assumes "log_shape d lo pss ps [] f" "sf_synced f = length (sf_data f)"
    "w_id w = Suc (lo + length pss)" "openSegment fl w d = (ok, w', d')"
  shows "w_id w' = w_id w \<and> w_opts w' = w_opts w \<and> w_err w' = w_err w \<and> w_closed w' = w_closed w
    \<and> (if d' = d then \<not> ok
       else \<exists>f'. log_shape d' lo (pss @ [ps]) [] [] f' \<and> (ok \<longrightarrow> sf_named f'))"
proof -
  let ?e = "\<lparr>sf_data = [], sf_synced = 0, sf_named = False\<rparr>"
  have fresh: "d (w_id w) = None"
    using assms(3) by (intro log_shape_fresh [OF assms(1)]) simp
  have shape: "log_shape (d(w_id w \<mapsto> ?e)) lo (pss @ [ps]) [] [] ?e"
    using assms(1,2,3) fresh
    by (auto simp: log_shape_def sealed_def newest_def nth_append less_Suc_eq)
  have named: "log_shape d0 lo qss [] [] g \<Longrightarrow> log_shape (sync_dir d0) lo qss [] [] (g\<lparr>sf_named := True\<rparr>)"
    for d0 qss g
    by (fastforce simp: log_shape_def sync_dir_def sealed_def newest_def dom_def)
  have "d(w_id w \<mapsto> ?e) \<noteq> d" "sync_dir (d(w_id w \<mapsto> ?e)) \<noteq> d"
    using fresh by (auto simp: sync_dir_def fun_eq_iff)
  then show ?thesis
    using assms(4) shape named [OF shape] fresh
    by (auto simp: openSegment_def Let_def split: if_splits)
qed

lemma rotate_inv:
  assumes "disk_inv d acked att lo pss ps [] f k" "writer_inv w acked_pend lo pss ps [] f"
    "rotate fl w d = (ok, w', d')"
  shows "\<exists>lo pss ps f k. disk_inv d' acked att lo pss ps [] f k
    \<and> (ok \<longrightarrow> disk_inv d' acked_pend att lo pss ps [] f k \<and> writer_inv w' acked_pend lo pss ps [] f
         \<and> w_err w' = w_err w)"
proof (cases "fl_rotateSync fl")
  case True
  then show ?thesis using assms by (simp add: rotate_def) blast
next
  case False
  let ?d = "upd_file (w_id w) f_sync d"
  have sub: "subseq acked (concat pss @ ps)" "subseq acked_pend (concat pss @ ps)" "w_id w = lo + length pss"
    using assms(1,2) list_emb_append_mono [of "(=)" "concat pss" "concat pss" "take k ps" ps]
    by (auto simp: disk_inv_def writer_inv_def prefix_imp_subseq take_is_prefix intro: subseq_order.trans)
  have sync: "disk_inv ?d qs att lo pss ps [] (f_sync f) (length ps)"
    if "subseq qs (concat pss @ ps)" for qs
    using disk_inv_sync [OF assms(1) sub(3) that] .
  show ?thesis
  proof (cases "fl_close fl")
    case True
    then show ?thesis using sync [OF sub(1)] assms(3) False by (simp add: rotate_def) blast
  next
    case no_close: False
    have op: "openSegment fl (w\<lparr>w_id := w_id w + 1\<rparr>) ?d = (ok, w', d')"
      using assms(3) False no_close by (simp add: rotate_def)
    have shape: "log_shape ?d lo pss ps [] (f_sync f)" "subseq (concat pss @ ps) att" "0 < lo"
      using sync [OF sub(1)] by (auto simp: disk_inv_def)
    note o = openSegment_shape [OF shape(1) _ _ op]
    show ?thesis
    proof (cases "d' = ?d")
      case True
      then show ?thesis using o sub sync [OF sub(1)] by (simp, blast)
    next
      case False
      then obtain f' where f': "log_shape d' lo (pss @ [ps]) [] [] f'" "ok \<longrightarrow> sf_named f'"
        using o sub(3) by auto
      have "disk_inv d' qs att lo (pss @ [ps]) [] [] f' 0" if "subseq qs (concat pss @ ps)" for qs
        using f' shape that by (simp add: disk_inv_def)
      moreover have "writer_inv w' acked_pend lo (pss @ [ps]) [] [] f'" if ok
        using o sub f' that assms(2) by (auto simp: writer_inv_def)
      moreover have "w_err w' = w_err w"
        using o sub by simp
      ultimately show ?thesis using sub by blast
    qed
  qed
qed

lemma disk_inv_acked_mono:
  "disk_inv d acked att lo pss ps t f k \<Longrightarrow> subseq acked' acked \<Longrightarrow> disk_inv d acked' att lo pss ps t f k"
  unfolding disk_inv_def by (blast intro: subseq_order.trans)

lemma subseq_snoc: "subseq xs ys \<Longrightarrow> subseq (xs @ zs) (ys @ zs)" "subseq xs ys \<Longrightarrow> subseq xs (ys @ zs)"
  by (auto intro: list_emb_append_mono)

lemma append_write_inv:
  assumes "disk_inv d acked att lo pss ps [] f k" "writer_inv w ap lo pss ps [] f" "fits p"
  shows "disk_inv (upd_file (w_id w) (f_append (frame p)) d) acked (att @ [p]) lo pss (ps @ [p]) []
      (f_append (frame p) f) k"
    and "writer_inv w (ap @ [p]) lo pss (ps @ [p]) [] (f_append (frame p) f)"
    and "n < length (frame p) \<Longrightarrow>
      disk_inv (upd_file (w_id w) (f_append (take n (frame p))) d) acked (att @ [p]) lo pss ps
        (take n (frame p)) (f_append (take n (frame p)) f) k"
proof -
  have sh: "log_shape d lo pss ps [] f" "newest ps [] f" "sf_named f" "w_id w = lo + length pss"
    using assms by (auto simp: disk_inv_def writer_inv_def log_shape_def)
  note n = newest_append [OF sh(2,3) assms(3)] newest_append_part [OF sh(2,3) assms(3)]
  show "disk_inv (upd_file (w_id w) (f_append (frame p)) d) acked (att @ [p]) lo pss (ps @ [p]) []
      (f_append (frame p) f) k"
    using assms(1) log_shape_update [where g = "f_append (frame p)", OF sh(1,4) n(1)]
      subseq_snoc(1) [of "concat pss @ ps" att "[p]"]
    by (simp add: disk_inv_def)
  show "writer_inv w (ap @ [p]) lo pss (ps @ [p]) [] (f_append (frame p) f)"
    using assms(2) subseq_snoc(1) [of ap "concat pss @ ps" "[p]"] by (simp add: writer_inv_def)
  show "disk_inv (upd_file (w_id w) (f_append (take n (frame p))) d) acked (att @ [p]) lo pss ps
        (take n (frame p)) (f_append (take n (frame p)) f) k" if "n < length (frame p)"
    using assms(1) log_shape_update [where g = "f_append (take n (frame p))", OF sh(1,4) n(2) [OF that]]
      subseq_snoc(2) [of "concat pss @ ps" att "[p]"]
    by (simp add: disk_inv_def)
qed

text \<open>After the write and the policy's sync, before a possible rotation.\<close>

lemma append_sync_inv:
  assumes "disk_inv d acked att lo pss ps [] f k" "writer_inv w ap lo pss ps [] f" "subseq acked ap"
    "d' = (if every then upd_file (w_id w) f_sync d else d)" "acked' = (if every then ap else acked)"
  shows "\<exists>f k. disk_inv d' acked' att lo pss ps [] f k \<and> writer_inv w ap lo pss ps [] f"
proof (cases every)
  case True
  have "w_id w = lo + length pss" "subseq ap (concat pss @ ps)"
    using assms(2) by (auto simp: writer_inv_def)
  then show ?thesis
    using disk_inv_sync [OF assms(1), of "w_id w" ap] assms(2,4,5) True
    by (intro exI [of _ "f_sync f"] exI [of _ "length ps"]) (simp add: writer_inv_def)
next
  case False
  then show ?thesis using assms by auto
qed

lemma Append_live:
  assumes "\<not> w_err w" "\<not> w_closed w" "int (length p) \<le> MaxRecordSize (w_opts w)" "fits p"
    "w1 = w\<lparr>w_size := w_size w + int (length (frame p))\<rparr>"
    "d1 = upd_file (w_id w) (f_append (frame p)) d" "every = (Sync (w_opts w) = SyncEveryRecord)"
    "d2 = (if every then upd_file (w_id w1) f_sync d1 else d1)"
  shows "Append fl p w d =
    (case fl_write fl of
       Some n \<Rightarrow> (Inl IOError, fail w, upd_file (w_id w) (f_append (take n (frame p))) d)
     | None \<Rightarrow>
         if every \<and> fl_sync fl then (Inl IOError, fail w1, d1)
         else if w_size w1 \<ge> SegmentSize (w_opts w) then
           (case rotate fl w1 d2 of
              (ok, w, d) \<Rightarrow> if ok then (Inr (w_id w1), w, d) else (Inl IOError, fail w, d))
         else (Inr (w_id w1), w1, d2))"
  unfolding assms(8,6,5,7) using assms(1-4)
  by (simp add: Append_def AppendRecord_frame Let_def split: option.split prod.split)

lemma wal_inv_fail:
  assumes "disk_inv d acked' att lo pss ps t f k" "subseq acked acked'"
  shows "wal_inv d (Some (fail w)) acked pend att"
  by (rule wal_invI [OF disk_inv_acked_mono [OF assms]]) (simp add: fail_def)

lemma append_tail_inv:
  assumes "disk_inv d acked' att lo pss ps [] f k" "writer_inv w (acked' @ pend') lo pss ps [] f"
    "\<not> w_err w" "subseq acked acked'"
    "(if b then (case rotate fl w d of
        (ok, w, d) \<Rightarrow> if ok then (Inr i, w, d) else (Inl IOError, fail w, d))
      else (Inr i, w, d)) = (r, w', d')"
  shows "case r of Inl (_ :: wal_werr) \<Rightarrow> wal_inv d' (Some w') acked pend att
    | Inr (_ :: 'i) \<Rightarrow> wal_inv d' (Some w') acked' pend' att"
proof (cases b)
  case False
  then show ?thesis using assms wal_invI [OF assms(1), of "Some w"] by auto
next
  case True
  obtain ok w0 d0 where ro: "rotate fl w d = (ok, w0, d0)" by (cases "rotate fl w d")
  obtain lo pss ps f k where R: "disk_inv d0 acked' att lo pss ps [] f k"
    "ok \<longrightarrow> writer_inv w0 (acked' @ pend') lo pss ps [] f"
    using rotate_inv [OF assms(1,2) ro] by metis
  show ?thesis
    using True assms(3,4,5) ro wal_inv_fail [OF R(1) assms(4)] wal_invI [OF R(1), of "Some w0" pend'] R(2)
    by (auto split: if_splits)
qed

lemma wal_inv_Append:
  assumes "wal_inv d (Some w) acked pend att" "Append fl p w d = (r, w', d')"
    "every = (Sync (w_opts w) = SyncEveryRecord)"
  shows "case r of
      Inl _ \<Rightarrow> wal_inv d' (Some w') acked pend (att @ [p])
    | Inr _ \<Rightarrow> wal_inv d' (Some w') (if every then acked @ pend @ [p] else acked)
                 (if every then [] else pend @ [p]) (att @ [p])"
proof (cases "w_err w \<or> w_closed w \<or> int (length p) > MaxRecordSize (w_opts w)")
  case True
  then show ?thesis
    using assms wal_inv_att [OF assms(1)] by (auto simp: Append_def split: if_splits)
next
  case False
  obtain lo pss ps f k where I: "disk_inv d acked att lo pss ps [] f k"
    "writer_inv w (acked @ pend) lo pss ps [] f"
    using wal_inv_live [OF assms(1)] False by metis
  have p: "fits p" using False I(2) by (simp add: fits_def writer_inv_def)
  note A = append_write_inv [OF I p]
  let ?w1 = "w\<lparr>w_size := w_size w + int (length (frame p))\<rparr>"
  let ?d1 = "upd_file (w_id w) (f_append (frame p)) d"
  let ?d2 = "if every then upd_file (w_id ?w1) f_sync ?d1 else ?d1"
  let ?acked = "if every then acked @ pend @ [p] else acked" and ?pend = "if every then [] else pend @ [p]"
  note Ap = Append_live [OF _ _ _ p refl refl assms(3) refl, of fl d]
  have W1: "writer_inv ?w1 (acked @ pend @ [p]) lo pss (ps @ [p]) [] (f_append (frame p) f)"
    using A(2) by (simp add: writer_inv_def)
  obtain f2 k2 where D2: "disk_inv ?d2 ?acked (att @ [p]) lo pss (ps @ [p]) [] f2 k2"
    "writer_inv ?w1 (acked @ pend @ [p]) lo pss (ps @ [p]) [] f2"
    using append_sync_inv [OF A(1) W1 _ refl refl, of every] by auto
  have tail: "case r of Inl _ \<Rightarrow> wal_inv d' (Some w') acked pend (att @ [p])
      | Inr _ \<Rightarrow> wal_inv d' (Some w') ?acked ?pend (att @ [p])"
    if "(if w_size ?w1 \<ge> SegmentSize (w_opts w) then
           (case rotate fl ?w1 ?d2 of
              (ok, w, d) \<Rightarrow> if ok then (Inr (w_id ?w1), w, d) else (Inl IOError, fail w, d))
         else (Inr (w_id ?w1), ?w1, ?d2)) = (r, w', d')"
    using append_tail_inv [OF D2(1) _ _ _ that, of ?pend acked pend] D2(2) False by (auto simp: subseq_snoc)
  have part: "wal_inv (upd_file (w_id w) (f_append (take n (frame p))) d) (Some (fail w0)) acked pend (att @ [p])"
    for n w0
    using wal_inv_fail [OF A(1), of acked w0 pend] wal_inv_fail [OF A(3), of n acked w0 pend]
    by (cases "n < length (frame p)") auto
  show ?thesis
    using Ap False assms(2) part [of "length (frame p)" ?w1] part [of _ w] tail
    by (auto split: option.splits if_splits)
qed

lemma wal_inv_Rotate:
  assumes "wal_inv d (Some w) acked pend att" "Rotate fl w d = (r, w', d')"
  shows "case r of Inl _ \<Rightarrow> wal_inv d' (Some w') acked pend att
    | Inr _ \<Rightarrow> wal_inv d' (Some w') (acked @ pend) [] att"
proof (cases "w_err w \<or> w_closed w")
  case True
  then show ?thesis using assms by (auto simp: Rotate_def split: if_splits)
next
  case False
  obtain lo pss ps f k where I: "disk_inv d acked att lo pss ps [] f k"
    "writer_inv w (acked @ pend) lo pss ps [] f"
    using wal_inv_live [OF assms(1)] False by metis
  obtain ok w0 d0 where ro: "rotate fl w d = (ok, w0, d0)" by (cases "rotate fl w d")
  obtain lo pss ps f k where R: "disk_inv d0 acked att lo pss ps [] f k"
    "ok \<longrightarrow> disk_inv d0 (acked @ pend) att lo pss ps [] f k \<and> writer_inv w0 (acked @ pend) lo pss ps [] f"
    using rotate_inv [OF I ro] by metis
  show ?thesis
  proof (cases ok)
    case True
    then show ?thesis
      using False assms(2) ro R(2) wal_invI [of d0 "acked @ pend" att lo pss ps "[]" f k "Some w0" "[]"]
      by (auto simp: Rotate_def)
  next
    case no: False
    then show ?thesis
      using False assms(2) ro wal_inv_fail [OF R(1), of acked w0 pend] by (auto simp: Rotate_def)
  qed
qed

lemma wal_inv_sync_live:
  assumes "wal_inv d (Some w) acked pend att" "\<not> w_err w"
  shows "\<not> w_err w' \<Longrightarrow> w_id w' = w_id w \<Longrightarrow> w_opts w' = w_opts w \<Longrightarrow>
      wal_inv (upd_file (w_id w) f_sync d) (Some w') (acked @ pend) [] att"
    and "wal_inv d (Some (fail w')) acked pend att"
proof -
  obtain lo pss ps f k where I: "disk_inv d acked att lo pss ps [] f k"
    "writer_inv w (acked @ pend) lo pss ps [] f"
    using wal_inv_live [OF assms] .
  show "wal_inv d (Some (fail w')) acked pend att"
    by (rule wal_inv_fail [OF I(1)]) simp
  have "disk_inv (upd_file (w_id w) f_sync d) (acked @ pend) att lo pss ps [] (f_sync f) (length ps)"
    using I by (intro disk_inv_sync) (auto simp: writer_inv_def)
  then show "wal_inv (upd_file (w_id w) f_sync d) (Some w') (acked @ pend) [] att"
    if "\<not> w_err w'" "w_id w' = w_id w" "w_opts w' = w_opts w"
    using I(2) that by (elim wal_invI) (auto simp: writer_inv_def)
qed

lemma wal_inv_Sync:
  assumes "wal_inv d (Some w) acked pend att" "Writer_Sync fl w d = (r, w', d')"
  shows "case r of Inl _ \<Rightarrow> wal_inv d' (Some w') acked pend att
    | Inr _ \<Rightarrow> wal_inv d' (Some w') (acked @ pend) [] att"
  using assms wal_inv_sync_live [OF assms(1), of w]
  by (auto simp: Writer_Sync_def split: if_splits)

lemma wal_inv_unack:
  "wal_inv d (Some w) (acked @ pend) [] att \<Longrightarrow> wal_inv d (Some w) acked pend att"
  unfolding wal_inv_def by (auto intro: disk_inv_acked_mono [of d "acked @ pend" att]) (metis disk_inv_acked_mono prefixI prefix_imp_subseq)+

lemma wal_inv_Close:
  assumes "wal_inv d (Some w) acked pend att" "Close fl w d = (r, w', d')"
  shows "wal_inv d' (Some w') acked pend att"
proof (cases "w_closed w \<or> w_err w")
  case True
  then show ?thesis
    using assms wal_inv_failed [OF assms(1)] by (auto simp: Close_def Let_def split: if_splits)
next
  case False
  then show ?thesis
    using assms wal_inv_sync_live [OF assms(1), of "w\<lparr>w_closed := True\<rparr>"] wal_inv_unack
    by (auto simp: Close_def Let_def split: if_splits)
qed

lemma clean_len_newest: "newest ps t f \<Longrightarrow> clean_len (sf_data f) = length (frames ps)"
  unfolding clean_len_def newest_def all_fit_def
proof (elim conjE)
  assume a: "\<forall>p\<in>set ps. fits p" "torn t" "sf_data f = frames ps @ t"
  have "fold_fn (\<lambda>_ _. Inr () :: unit + unit) qs () = Inr ()" for qs
    by (induction qs) auto
  then show "fst (ScanRecords (sf_data f) (\<lambda>_ _. Inr () :: unit + unit) ()) = length (frames ps)"
    using ScanRecords_frames(2) [OF a(1) torn_NextRecord [OF a(2)]] a(3) by metis
qed

lemma disk_inv_truncate:
  assumes "disk_inv d acked att lo pss ps t f k" "i = lo + length pss"
  shows "disk_inv (upd_file i (truncate_file (length (frames ps))) d) acked att lo pss ps []
    (truncate_file (length (frames ps)) f) k"
proof -
  have sh: "log_shape d lo pss ps t f" "newest ps t f"
    using assms(1) by (auto simp: disk_inv_def log_shape_def)
  have "newest ps [] (truncate_file (length (frames ps)) f)"
    using sh(2) by (auto simp: newest_def truncate_file_def)
  moreover have "length (frames (take k ps)) \<le> length (frames ps)"
    using assms(1) length_frames_take_mono [of k "length ps" ps] by (simp add: disk_inv_def)
  ultimately show ?thesis
    using assms log_shape_update [where g = "truncate_file (length (frames ps))", OF sh(1) assms(2)]
    by (simp add: disk_inv_def) (simp add: truncate_file_def)
qed

lemma repairTornTail_inv:
  assumes "disk_inv d acked att lo pss ps t f k" "repairTornTail fl (lo + length pss) d = (ok, d')"
  shows "\<exists>t f k. disk_inv d' acked att lo pss ps t f k \<and> (ok \<longrightarrow> t = [] \<and> sf_synced f = length (sf_data f))"
proof -
  let ?i = "lo + length pss" and ?tr = "truncate_file (length (frames ps))"
  have f: "d ?i = Some f" "newest ps t f"
    using assms(1) by (auto simp: disk_inv_def log_shape_def)
  have sub: "subseq acked (concat pss @ ps)"
    using assms(1) by (auto simp: disk_inv_def take_is_prefix prefix_imp_subseq
        intro: subseq_order.trans list_emb_append_mono)
  let ?torn = "length (frames ps) \<noteq> length (sf_data f)"
  let ?d1 = "if ?torn then upd_file ?i ?tr d else d" and ?f1 = "if ?torn then ?tr f else f"
  have D1: "disk_inv ?d1 acked att lo pss ps [] ?f1 k"
    using disk_inv_truncate [OF assms(1) refl] assms(1) f(2) by (auto simp: newest_def)
  have D2: "disk_inv (upd_file ?i f_sync ?d1) acked att lo pss ps [] (f_sync ?f1) (length ps)"
    by (rule disk_inv_sync [OF D1 refl sub])
  have "d' = d \<and> \<not> ok \<or> d' = ?d1 \<and> \<not> ok \<or> d' = upd_file ?i f_sync ?d1"
    using assms(2) f clean_len_newest [OF f(2)]
    by (auto simp: repairTornTail_def Let_def split: if_splits)
  then show ?thesis
  proof (elim disjE conjE)
    assume "d' = upd_file ?i f_sync ?d1"
    then show ?thesis using D2 by (intro exI [of _ "[]"] exI [of _ "f_sync ?f1"] exI [of _ "length ps"]) simp
  qed (use assms(1) D1 in blast)+
qed

lemma default_opts_bound: "MaxRecordSize (default_opts opts) \<le> int MaxUint32"
  by (auto simp: default_opts_def Let_def MaxUint32_def)

lemma openSegment_empty:
  assumes "openSegment fl w Map.empty = (ok, w', d')" "w_id w = 1"
  shows "w_id w' = 1 \<and> w_opts w' = w_opts w \<and> w_err w' = w_err w
    \<and> (if d' = Map.empty then \<not> ok else \<exists>f. log_shape d' 1 [] [] [] f \<and> (ok \<longrightarrow> sf_named f))"
proof -
  let ?e = "\<lambda>n. \<lparr>sf_data = [], sf_synced = 0, sf_named = n\<rparr>"
  have dir: "sync_dir [Suc 0 \<mapsto> ?e False] = [Suc 0 \<mapsto> ?e True]"
    by (auto simp: sync_dir_def)
  have "\<exists>f. log_shape [Suc 0 \<mapsto> ?e n] (Suc 0) [] [] [] f \<and> (n \<longrightarrow> sf_named f)" for n
    by (rule exI [of _ "?e n"]) (auto simp: log_shape_def newest_def)
  from this [of True] this [of False] show ?thesis
    using assms by (auto simp: openSegment_def Let_def dir split: if_splits)
qed

abbreviation opened_writer :: "Options \<Rightarrow> nat \<Rightarrow> Writer" where
  "opened_writer opts i \<equiv>
     \<lparr>w_opts = default_opts opts, w_id = i, w_size = 0, w_err = False, w_closed = False\<rparr>"

abbreviation open_result :: "wal_werr + Writer \<Rightarrow> Writer option" where
  "open_result r \<equiv> (case r of Inl _ \<Rightarrow> None | Inr w \<Rightarrow> Some w)"

lemma OpenWriter_finish:
  assumes "r = Inl IOError \<or> ok \<and> r = Inr w'" "disk_inv d acked att lo pss ps [] f k"
    "ok \<Longrightarrow> writer_inv w' acked lo pss ps [] f"
  shows "wal_inv d (open_result r) acked [] att"
  using assms by (elim wal_invI) (auto split: sum.splits)

lemma OpenWriter_empty:
  assumes "OpenWriter ofl fl opts Map.empty = (r, d')"
  shows "wal_inv d' (open_result r) [] [] att"
proof -
  obtain ok w' d0 where o: "openSegment fl (opened_writer opts 1) Map.empty = (ok, w', d0)"
    by (cases "openSegment fl (opened_writer opts 1) Map.empty")
  note O = openSegment_empty [OF o]
  show ?thesis
  proof (cases "d' = Map.empty")
    case True
    then show ?thesis using assms o O
      by (auto simp: OpenWriter_def Let_def listSegments_def wal_inv_def split: if_splits)
  next
    case False
    then have r: "d0 = d'" "r = Inl IOError \<or> ok \<and> r = Inr w'"
      using assms o by (auto simp: OpenWriter_def Let_def listSegments_def split: if_splits)
    then obtain f where "log_shape d' 1 [] [] [] f" "ok \<longrightarrow> sf_named f"
      using O False by auto
    then show ?thesis
      using O default_opts_bound
      by (intro OpenWriter_finish [OF r(2), of d' "[]" att 1 "[]" "[]" f 0])
        (auto simp: disk_inv_def writer_inv_def)
  qed
qed

lemma OpenWriter_log:
  assumes "disk_inv d acked att lo pss ps t f k" "OpenWriter ofl fl opts d = (r, d')"
  shows "wal_inv d' (open_result r) acked [] att"
proof -
  let ?i = "lo + length pss"
  have ids: "listSegments d \<noteq> []" "last (listSegments d) = ?i"
    using log_shape_listSegments [of d lo pss ps t f] assms(1) by (auto simp: disk_inv_def)
  obtain ok1 d1 where re: "repairTornTail ofl ?i d = (ok1, d1)"
    by (cases "repairTornTail ofl ?i d")
  obtain t1 f1 k1 where R: "disk_inv d1 acked att lo pss ps t1 f1 k1"
    "ok1 \<longrightarrow> t1 = [] \<and> sf_synced f1 = length (sf_data f1)"
    using repairTornTail_inv [OF assms(1) re] by blast
  obtain ok w' d0 where o: "openSegment fl (opened_writer opts (Suc ?i)) d1 = (ok, w', d0)"
    by (cases "openSegment fl (opened_writer opts (Suc ?i)) d1")
  have OW: "(r, d') = (if of_mk ofl then (Inl IOError, d) else if \<not> ok1 then (Inl IOError, d1)
      else if ok then (Inr w', d0) else (Inl IOError, d0))"
    using assms(2) ids re o by (simp add: OpenWriter_def Let_def split: if_splits)
  have none: "wal_inv d0 None acked [] att" if "disk_inv d0 acked att lo pss ps t f k" for d0 t f k
    by (rule wal_invI [OF that]) simp
  show ?thesis
  proof (cases "of_mk ofl \<or> \<not> ok1 \<or> d0 = d1")
    case True
    have "ok1 \<Longrightarrow> d0 = d1 \<Longrightarrow> \<not> ok"
      using openSegment_shape [OF _ _ _ o] R by (auto simp: disk_inv_def)
    then show ?thesis using True OW none [OF assms(1)] none [OF R(1)] by (auto split: if_splits)
  next
    case False
    then obtain f' where f': "log_shape d0 lo (pss @ [ps]) [] [] f'" "ok \<longrightarrow> sf_named f'"
      "w_id w' = Suc ?i" "w_opts w' = default_opts opts"
      using openSegment_shape [OF _ _ _ o] R by (fastforce simp: disk_inv_def)
    have sub: "subseq acked (concat pss @ ps)"
      using R(1) by (auto simp: disk_inv_def take_is_prefix prefix_imp_subseq
          intro: subseq_order.trans list_emb_append_mono)
    have "d' = d0" "r = Inl IOError \<or> ok \<and> r = Inr w'"
      using OW False by (auto split: if_splits)
    moreover have "disk_inv d0 acked att lo (pss @ [ps]) [] [] f' 0"
      using f' sub R(1) by (simp add: disk_inv_def)
    moreover have "writer_inv w' acked lo (pss @ [ps]) [] [] f'" if ok
      using f' sub that default_opts_bound by (simp add: writer_inv_def)
    ultimately show ?thesis
      by (metis OpenWriter_finish)
  qed
qed

lemma wal_inv_OpenWriter:
  assumes "wal_inv d w acked pend att" "OpenWriter ofl fl opts d = (r, d')"
  shows "wal_inv d' (open_result r) acked [] att"
  using assms OpenWriter_empty OpenWriter_log unfolding wal_inv_def [of d] by blast

section \<open>Crashes\<close>

lemma crash_sealed:
  assumes "crash d d'" "d i = Some g" "sealed ps g" "d' i \<noteq> None"
  shows "\<exists>g'. d' i = Some g' \<and> sealed ps g' \<and> sf_named g'"
proof -
  obtain g' where g': "d' i = Some g'" using assms(4) by auto
  then obtain n where "sf_synced g \<le> n" "n \<le> length (sf_data g)"
    "g' = \<lparr>sf_data = take n (sf_data g), sf_synced = n, sf_named = True\<rparr>"
    using assms(1,2) unfolding crash_def by blast
  then show ?thesis using assms(3) g' by (auto simp: sealed_def)
qed

text \<open>No segment is lost: the newest one is cut.\<close>

lemma crash_keeps:
  assumes "disk_inv d acked att lo pss ps t f k" "crash d d'" "\<forall>i. d' i = None \<longleftrightarrow> d i = None"
  shows "wal_inv d' None acked [] att"
proof -
  let ?i = "lo + length pss"
  have D: "0 < lo" "dom d = {lo..?i}" "d ?i = Some f" "newest ps t f" "k \<le> length ps"
    "length (frames (take k ps)) \<le> sf_synced f"
    "subseq acked (concat pss @ take k ps)" "subseq (concat pss @ ps) att"
    "\<forall>i<length pss. \<exists>g. d (lo + i) = Some g \<and> sealed (pss ! i) g"
    using assms(1) by (auto simp: disk_inv_def log_shape_def)
  obtain f' where f': "d' ?i = Some f'" using assms(3) D(3) by (metis option.exhaust option.distinct(1))
  then obtain n where n: "sf_synced f \<le> n" "n \<le> length (sf_data f)"
    "f' = \<lparr>sf_data = take n (sf_data f), sf_synced = n, sf_named = True\<rparr>"
    using assms(2) D(3) unfolding crash_def by blast
  have fit: "all_fit ps" "torn t" "sf_data f = frames ps @ t"
    using D(4) by (auto simp: newest_def)
  obtain j u where ju: "k \<le> j" "j \<le> length ps" "take n (frames ps @ t) = frames (take j ps) @ u" "torn u"
    using take_newest [OF fit(1,2) D(5) order.trans [OF D(6) n(1)]] .
  have "n \<le> length (take n (frames ps @ t))"
    using n(2) fit(3) by simp
  then have "n \<le> length (frames (take j ps) @ u)"
    unfolding ju(3) .
  then have new: "newest (take j ps) u f'"
    using n ju fit by (simp add: newest_def)
  have "length (frames (take k (take j ps))) \<le> sf_synced f'"
    using D(6) n ju(1) by (simp add: min_absorb1)
  moreover have "log_shape d' lo pss (take j ps) u f'"
    unfolding log_shape_def
  proof (intro conjI allI impI)
    show "dom d' = {lo..?i}" using D(2) assms(3) by (auto simp: dom_def)
    show "\<exists>g. d' (lo + i) = Some g \<and> sealed (pss ! i) g" if "i < length pss" for i
      using D(9) that crash_sealed [OF assms(2), of "lo + i"] assms(3) by (metis option.distinct(1))
  qed (use f' new in auto)
  moreover have "subseq (concat pss @ take j ps) att"
    using D(8) by (rule subseq_order.trans [rotated])
      (auto intro!: list_emb_append_mono simp: take_is_prefix prefix_imp_subseq)
  ultimately have "disk_inv d' acked att lo pss (take j ps) u f' k"
    using D(1,5,7) ju(1,2) by (simp add: disk_inv_def min_absorb1)
  then show ?thesis by (rule wal_invI) simp
qed

text \<open>Unsynced empty segments at the end are lost: a sealed segment becomes the newest, or none is left.\<close>

lemma crash_loses:
  assumes "disk_inv d acked att lo pss ps t f k" "crash d d'"
    "\<forall>i. d' i = None \<longleftrightarrow> d i = None \<or> c \<le> i" "c \<le> lo + length pss"
    "\<forall>i f. d i = Some f \<and> c \<le> i \<longrightarrow> \<not> sf_named f"
  shows "wal_inv d' None acked [] att"
proof -
  let ?i = "lo + length pss"
  have D: "0 < lo" "dom d = {lo..?i}" "d ?i = Some f" "newest ps t f"
    "subseq acked (concat pss @ take k ps)" "subseq (concat pss @ ps) att"
    using assms(1) by (auto simp: disk_inv_def log_shape_def)
  have S: "\<exists>g. d (lo + i) = Some g \<and> sealed (pss ! i) g" if "i < length pss" for i
    using assms(1) that by (auto simp: disk_inv_def log_shape_def)
  have ps: "ps = []"
    using assms(4,5) D(3,4) by (auto simp: newest_def)
  have lost: "pss ! i = []" if "i < length pss" "c \<le> lo + i" for i
    using S [OF that(1)] assms(5) that(2) by (auto simp: sealed_def)
  have drop: "concat (drop m pss) = []" if "c \<le> lo + m" for m
    using lost that by (auto simp: in_set_conv_nth)
  show ?thesis
  proof (cases "c \<le> lo")
    case True
    have "concat pss = []" using drop [of 0] True by simp
    then have "acked = []" using D(5) ps by (simp only: append_Nil take_Nil list_emb_Nil2)
    moreover have "d' = Map.empty"
    proof
      fix i
      have "d i \<noteq> None \<Longrightarrow> lo \<le> i"
        using D(2) by (metis atLeastAtMost_iff domIff)
      then show "d' i = None" using assms(3) True by (cases "d i") auto
    qed
    ultimately show ?thesis by (simp add: wal_inv_def)
  next
    case False
    define m where "m = c - lo - 1"
    have m: "m < length pss" "lo + m < c" "c = lo + Suc m"
      using False assms(4) by (auto simp: m_def)
    have keep: "\<exists>g. d' (lo + i) = Some g \<and> sealed (pss ! i) g \<and> sf_named g" if i: "i \<le> m" for i
    proof -
      obtain g where "d (lo + i) = Some g" "sealed (pss ! i) g" using S [of i] m i by auto
      then show ?thesis using crash_sealed [OF assms(2)] assms(3) i m by auto
    qed
    obtain g where g: "d' (lo + m) = Some g" "sealed (pss ! m) g" "sf_named g" using keep [of m] by auto
    have cat: "concat pss = concat (take m pss) @ pss ! m"
      using drop [of "Suc m"] m(3) id_take_nth_drop [OF m(1)]
      by (metis append_Nil2 concat.simps(2) concat_append order.refl)
    have "log_shape d' lo (take m pss) (pss ! m) [] g"
      unfolding log_shape_def
    proof (intro conjI allI impI)
      have "i \<in> dom d' \<longleftrightarrow> i \<in> dom d \<and> i < c" for i
        using assms(3) by (auto simp: dom_def not_le)
      then show "dom d' = {lo..lo + length (take m pss)}"
        using D(2) m by (simp add: set_eq_iff del: domIff) auto
    qed (use g m keep in \<open>auto simp: sealed_def newest_def min_absorb2 intro: less_imp_le\<close>)
    then have "disk_inv d' acked att lo (take m pss) (pss ! m) [] g (length (pss ! m))"
      using D g cat ps by (auto simp: disk_inv_def sealed_def)
    then show ?thesis by (rule wal_invI) simp
  qed
qed

lemma wal_inv_crash:
  assumes "wal_inv d w acked pend att" "crash d d'"
  shows "wal_inv d' None acked [] att"
proof -
  obtain c where c: "\<forall>i f. d i = Some f \<and> c \<le> i \<longrightarrow> \<not> sf_named f"
    "\<forall>i. d' i = None \<longleftrightarrow> d i = None \<or> c \<le> i"
    using assms(2) unfolding crash_def by blast
  consider (empty) "d = Map.empty" "acked = []"
    | (log) lo pss ps t f k where "disk_inv d acked att lo pss ps t f k"
    using assms(1) unfolding wal_inv_def by blast
  then show ?thesis
  proof cases
    case empty
    then show ?thesis using c(2) by (auto simp: wal_inv_def)
  next
    case log
    show ?thesis
    proof (cases "c \<le> lo + length pss")
      case True
      then show ?thesis by (rule crash_loses [OF log assms(2) c(2) _ c(1)])
    next
      case False
      then have "\<forall>i. d' i = None \<longleftrightarrow> d i = None"
        using c(2) log_shape_fresh [of d lo pss ps t f] log by (auto simp: disk_inv_def)
      then show ?thesis by (rule crash_keeps [OF log assms(2)])
    qed
  qed
qed

theorem wal_run_inv: "wal_run d w acked pend att \<Longrightarrow> wal_inv d w acked pend att"
proof (induction rule: wal_run.induct)
  case init
  show ?case by (simp add: wal_inv_def)
next
  case (opened d w acked pend att ofl fl opts w' d')
  then show ?case using wal_inv_OpenWriter [of d w acked pend att ofl fl opts "Inr w'"] by simp
next
  case (open_failed d w acked pend att ofl fl opts e d')
  then show ?case using wal_inv_OpenWriter [of d w acked pend att ofl fl opts "Inl e"] by simp
next
  case (append_ok d w acked pend att fl p i w' d')
  then show ?case using wal_inv_Append [of d w acked pend att fl p "Inr i"] by simp
next
  case (append_failed d w acked pend att fl p e w' d')
  then show ?case using wal_inv_Append [of d w acked pend att fl p "Inl e"] by simp
next
  case (synced d w acked pend att fl u w' d')
  then show ?case using wal_inv_Sync [of d w acked pend att fl "Inr u"] by simp
next
  case (sync_failed d w acked pend att fl e w' d')
  then show ?case using wal_inv_Sync [of d w acked pend att fl "Inl e"] by simp
next
  case (rotated d w acked pend att fl u w' d')
  then show ?case using wal_inv_Rotate [of d w acked pend att fl "Inr u"] by simp
next
  case (rotate_failed d w acked pend att fl e w' d')
  then show ?case using wal_inv_Rotate [of d w acked pend att fl "Inl e"] by simp
next
  case closed
  then show ?case using wal_inv_Close by blast
next
  case crashed
  then show ?case using wal_inv_crash by blast
qed

section \<open>What replay promises\<close>

lemma Replay_empty: "Replay Map.empty fn s = Inr s"
  by (simp add: Replay_def listSegments_def)

lemma fold_fn_collect: "fold_fn (\<lambda>p qs. Inr (qs @ [p]) :: 'e + bytes list) ps qs = Inr (qs @ ps)"
  by (induction ps arbitrary: qs) auto

lemma wal_inv_Replay:
  assumes "wal_inv d w acked pend att"
  obtains qs where "subseq acked qs" "subseq qs att"
    "\<And>fn s. Replay d fn s = map_sum CallbackError id (fold_fn fn qs s)"
proof -
  consider (empty) "d = Map.empty" "acked = []"
    | (log) lo pss ps t f k where "disk_inv d acked att lo pss ps t f k"
    using assms unfolding wal_inv_def by blast
  then show ?thesis
  proof cases
    case empty
    then show ?thesis by (intro that [of "[]"]) (simp_all add: Replay_empty)
  next
    case log
    then show ?thesis
      using Replay_log_shape [of d lo pss ps t f]
      by (intro that [of "concat pss @ ps"])
        (auto simp: disk_inv_def take_is_prefix prefix_imp_subseq
          intro: subseq_order.trans list_emb_append_mono)
  qed
qed


text \<open>A run with one open and one append, where the hypothesis of the theorem above holds.\<close>

definition witness_opts :: Options where
  "witness_opts = \<lparr>SegmentSize = 0, MaxRecordSize = 0, Sync = SyncEveryRecord\<rparr>"

definition witness_ofl :: open_faults where
  "witness_ofl = \<lparr>of_mk = False, of_read = False, of_trunc = False, of_sync = False, of_close = False\<rparr>"

definition witness_state :: "Writer \<times> waldir" where
  "witness_state =
     (let (r, d) = OpenWriter witness_ofl no_faults witness_opts Map.empty;
          (_, w, d) = Append no_faults [1, 2, 3] (projr r) d;
          (_, w, d) = Rotate no_faults w d;
          (_, w, d) = Append no_faults [4] w d
      in (w, d))"

lemma witness_run:
  "wal_run (snd witness_state) (Some (fst witness_state)) [[1, 2, 3], [4]] [] [[1, 2, 3], [4]]
     \<and> \<not> w_err (fst witness_state)"
proof -
  note fits [simp] = fits_def MaxUint32_def
  obtain w d where o: "OpenWriter witness_ofl no_faults witness_opts Map.empty = (Inr w, d)"
    and w: "w = \<lparr>w_opts = \<lparr>SegmentSize = 4 * 2 ^ 20, MaxRecordSize = 64 * 2 ^ 20, Sync = SyncEveryRecord\<rparr>,
      w_id = 1, w_size = 0, w_err = False, w_closed = False\<rparr>"
      and d: "\<forall>i>1. d i = None"
    by (simp add: OpenWriter_def witness_ofl_def no_faults_def witness_opts_def default_opts_def
        openSegment_def listSegments_def sync_dir_def Let_def)
  obtain i1 w1 d1 where a1: "Append no_faults [1, 2, 3] w d = (Inr i1, w1, d1)"
    and w1: "w1 = w\<lparr>w_size := 11\<rparr>" and d1: "\<forall>i>1. d1 i = None"
    using w d by (simp add: Append_def no_faults_def AppendRecord_frame Let_def upd_file_def)
  obtain w2 d2 where a2: "Rotate no_faults w1 d1 = (Inr (), w2, d2)" and w2: "w2 = w\<lparr>w_id := 2\<rparr>"
    using w w1 d1 by (simp add: Rotate_def rotate_def openSegment_def no_faults_def Let_def upd_file_def)
  obtain i3 w3 d3 where a3: "Append no_faults [4] w2 d2 = (Inr i3, w3, d3)" and w3: "\<not> w_err w3"
    using w w2 by (simp add: Append_def no_faults_def AppendRecord_frame Let_def)
  have st: "witness_state = (w3, d3)"
    by (simp add: witness_state_def o a1 a2 a3)
  note run = wal_run.append_ok [OF wal_run.rotated [OF wal_run.append_ok [OF wal_run.opened [OF wal_run.init o] a1] a2] a3]
  show ?thesis
    unfolding st using run w w2 w3 by simp
qed


section \<open>Pruning\<close>

lemma delete_loop_take:
  assumes "delete_loop budget ids bound d = (ok, d')" "sorted ids"
  shows "\<exists>n\<le>length ids. d' = d |` (- set (take n ids)) \<and> (\<forall>i\<in>set (take n ids). i < bound)
    \<and> (ok \<longrightarrow> (\<forall>i\<in>set (drop n ids). bound \<le> i))"
  using assms
proof (induction ids arbitrary: budget d)
  case (Cons i ids)
  show ?case
  proof (cases "i < bound \<and> budget > 0")
    case True
    then obtain b where "delete_loop b ids bound (d(i := None)) = (ok, d')"
      using Cons.prems(1) by (cases budget) auto
    then obtain n where n: "n \<le> length ids" "d' = d(i := None) |` (- set (take n ids))"
      "\<forall>i\<in>set (take n ids). i < bound" "ok \<longrightarrow> (\<forall>i\<in>set (drop n ids). bound \<le> i)"
      using Cons by force
    have "d(i := None) |` (- set (take n ids)) = d |` (- set (take (Suc n) (i # ids)))"
      by (auto simp: restrict_map_def fun_eq_iff)
    then show ?thesis using n True by (intro exI [of _ "Suc n"]) auto
  next
    case no: False
    show ?thesis
    proof (cases "i < bound")
      case True
      then show ?thesis using no Cons.prems(1) by (intro exI [of _ 0]) (auto split: nat.splits)
    next
      case False
      then obtain n where n: "n \<le> length ids" "d' = d |` (- set (take n ids))" "\<forall>i\<in>set (take n ids). i < bound"
        using Cons by force
      have "j \<notin> set (take n ids)" for j
        using n(3) False Cons.prems(2) in_set_takeD [of j n ids] by fastforce
      then have "set (take n ids) = {}" by (intro equals0I) metis
      then show ?thesis
        using n False Cons.prems by (intro exI [of _ 0]) (auto simp: restrict_map_def)
    qed
  qed
qed auto

lemma log_shape_drop:
  assumes "log_shape d lo pss ps t f" "n \<le> length pss"
  shows "log_shape (d |` (- {lo..<lo + n})) (lo + n) (drop n pss) ps t f"
proof -
  have "dom (d |` (- {lo..<lo + n})) = {lo + n..lo + length pss}"
    using assms by (auto simp: log_shape_def)
  then show ?thesis
    using assms by (auto simp: log_shape_def restrict_map_def add.assoc)
qed

lemma DeleteSegmentsBelow_shape:
  assumes "log_shape d lo pss ps t f" "bound \<le> lo + length pss"
    "DeleteSegmentsBelow budget bound d = (ok, d')"
  shows "\<exists>n\<le>length pss. log_shape d' (lo + n) (drop n pss) ps t f \<and> (\<forall>i\<ge>bound. d' i = d i)
    \<and> (ok \<longrightarrow> bound \<le> lo + n)"
proof -
  let ?ids = "[lo..<lo + length pss] @ [lo + length pss]"
  have ids: "?ids = [lo..<Suc (lo + length pss)]" by simp
  obtain n where n: "n \<le> length ?ids" "d' = d |` (- set (take n ?ids))" "\<forall>i\<in>set (take n ?ids). i < bound"
    "ok \<longrightarrow> (\<forall>i\<in>set (drop n ?ids). bound \<le> i)"
    using delete_loop_take [of budget ?ids bound d ok d'] assms(3)
    unfolding DeleteSegmentsBelow_def log_shape_listSegments [OF assms(1)] by (auto simp: sorted_append)
  have "n \<le> length pss"
    using n(1,3) assms(2) by (cases "n = Suc (length pss)") auto
  moreover from this have "set (take n ?ids) = {lo..<lo + n}"
    unfolding ids by (subst take_upt) auto
  moreover have "ok \<longrightarrow> bound \<le> lo + n"
    using n(4) \<open>n \<le> length pss\<close> unfolding ids drop_upt by auto
  ultimately show ?thesis
    using n(2,3) log_shape_drop [OF assms(1), of n]
    by (intro exI [of _ n]) (auto simp: restrict_map_def dest: bspec)
qed



end
