(* ===== verification/RaftLog.thy ===== *)
theory RaftLog
  imports Prelude
begin

text \<open>
  The in-memory raft log, \<^verbatim>\<open>src/internal/raft/log.go\<close>.  A panic of the source is \<open>None\<close>;
  indices and terms are natural numbers, and subtraction occurs only where the code's own
  comparisons keep it from wrapping.

  The lemmas show that every operation keeps the log contiguous and the order
  \<^verbatim>\<open>snapIndex <= applied <= committed <= lastIndex\<close> the type promises, and give the exact effect
  and the exact panic condition of \<^verbatim>\<open>maybeAppend\<close>.
\<close>

section \<open>Entries and the log\<close>

datatype EntryType = EntryNormal | EntryConfChange | EntryOther byte

record Entry =
  e_Type :: EntryType
  e_Index :: nat
  e_Term :: nat
  e_Data :: bytes

record raftLog =
  entries :: "Entry list"
  offset :: nat
  snapIndex :: nat
  snapTerm :: nat
  committed :: nat
  applied :: nat

definition newLog :: raftLog where
  "newLog = \<lparr>entries = [], offset = 1, snapIndex = 0, snapTerm = 0, committed = 0, applied = 0\<rparr>"

definition firstIndex :: "raftLog \<Rightarrow> nat" where
  "firstIndex l = offset l"

definition lastIndex :: "raftLog \<Rightarrow> nat" where
  "lastIndex l = offset l + length (entries l) - 1"

text \<open>\<^verbatim>\<open>term\<close>: \<open>None\<close> is the result \<^verbatim>\<open>ok = false\<close>.\<close>

definition log_term :: "raftLog \<Rightarrow> nat \<Rightarrow> nat option" where
  "log_term l i =
     (if i = snapIndex l then Some (snapTerm l)
      else if i < offset l \<or> i > lastIndex l then None
      else Some (e_Term (entries l ! (i - offset l))))"

definition lastTerm :: "raftLog \<Rightarrow> nat option" where
  "lastTerm l = log_term l (lastIndex l)"

definition compactTo :: "nat \<Rightarrow> raftLog \<Rightarrow> raftLog option" where
  "compactTo index l =
     (if index \<le> snapIndex l then Some l
      else if index > applied l then None
      else case log_term l index of
        None \<Rightarrow> None
      | Some t \<Rightarrow>
          Some (l\<lparr>entries := drop (index - offset l + 1) (entries l), offset := index + 1,
                  snapIndex := index, snapTerm := t\<rparr>))"

definition log_append :: "Entry list \<Rightarrow> raftLog \<Rightarrow> raftLog option" where
  "log_append ents l =
     (if ents = [] then Some l
      else if e_Index (hd ents) \<noteq> lastIndex l + 1 then None
      else Some (l\<lparr>entries := entries l @ ents\<rparr>))"

definition truncateFrom :: "nat \<Rightarrow> raftLog \<Rightarrow> raftLog option" where
  "truncateFrom i l =
     (if i \<le> committed l then None
      else if i < offset l then None
      else Some (l\<lparr>entries := take (i - offset l) (entries l)\<rparr>))"

definition commitTo :: "nat \<Rightarrow> raftLog \<Rightarrow> raftLog option" where
  "commitTo i l =
     (if i \<le> committed l then Some l
      else if i > lastIndex l then None
      else Some (l\<lparr>committed := i\<rparr>))"

definition appliedTo :: "nat \<Rightarrow> raftLog \<Rightarrow> raftLog option" where
  "appliedTo i l = (if i < applied l \<or> i > committed l then None else Some (l\<lparr>applied := i\<rparr>))"

text \<open>The loop of \<^verbatim>\<open>maybeAppend\<close> over the offered entries.\<close>

fun append_loop :: "Entry list \<Rightarrow> raftLog \<Rightarrow> raftLog option" where
  "append_loop [] l = Some l"
| "append_loop (e # es) l =
     (case log_term l (e_Index e) of
        None \<Rightarrow> log_append (e # es) l
      | Some et \<Rightarrow>
          if et \<noteq> e_Term e then do { l \<leftarrow> truncateFrom (e_Index e) l; log_append (e # es) l }
          else append_loop es l)"

text \<open>The result index is \<open>None\<close> for a rejection.\<close>

definition maybeAppend ::
  "nat \<Rightarrow> nat \<Rightarrow> nat \<Rightarrow> Entry list \<Rightarrow> raftLog \<Rightarrow> (nat option \<times> raftLog) option" where
  "maybeAppend prevIndex prevTerm commit ents l =
     (if log_term l prevIndex \<noteq> Some prevTerm then Some (None, l)
      else do {
        let lastNew = prevIndex + length ents;
        l \<leftarrow> append_loop ents l;
        l \<leftarrow> commitTo (min commit lastNew) l;
        Some (Some lastNew, l)
      })"

definition slice :: "nat \<Rightarrow> nat \<Rightarrow> raftLog \<Rightarrow> Entry list option" where
  "slice lo hi l =
     (if lo < offset l \<or> hi > lastIndex l + 1 \<or> lo > hi then None
      else Some (take (hi - lo) (drop (lo - offset l) (entries l))))"

definition isUpToDate :: "nat \<Rightarrow> nat \<Rightarrow> raftLog \<Rightarrow> bool option" where
  "isUpToDate li lt l =
     (case lastTerm l of
        None \<Rightarrow> None
      | Some t \<Rightarrow> Some (if lt \<noteq> t then lt > t else li \<ge> lastIndex l))"

section \<open>Well-formed logs\<close>

definition contiguous :: "nat \<Rightarrow> Entry list \<Rightarrow> bool" where
  "contiguous i es \<longleftrightarrow> (\<forall>j<length es. e_Index (es ! j) = i + j)"

definition wf_log :: "raftLog \<Rightarrow> bool" where
  "wf_log l \<longleftrightarrow> offset l = snapIndex l + 1 \<and> contiguous (offset l) (entries l)
     \<and> snapIndex l \<le> applied l \<and> applied l \<le> committed l \<and> committed l \<le> lastIndex l"

definition entry_at :: "raftLog \<Rightarrow> nat \<Rightarrow> Entry option" where
  "entry_at l i = (if offset l \<le> i \<and> i \<le> lastIndex l then Some (entries l ! (i - offset l)) else None)"

lemma contiguous_Cons [simp]:
  "contiguous i []" "contiguous i (e # es) \<longleftrightarrow> e_Index e = i \<and> contiguous (Suc i) es"
  by (auto simp: contiguous_def nth_Cons less_Suc_eq_0_disj)

lemma contiguous_append [simp]:
  "contiguous i (es @ fs) \<longleftrightarrow> contiguous i es \<and> contiguous (i + length es) fs"
  by (induction es arbitrary: i) auto

lemma contiguous_take [simp]: "contiguous i es \<Longrightarrow> contiguous i (take n es)"
  by (auto simp: contiguous_def)

lemma contiguous_drop: "contiguous i es \<Longrightarrow> contiguous (i + n) (drop n es)"
  by (auto simp: contiguous_def)

lemma lastIndex_offset: "offset l = snapIndex l + 1 \<Longrightarrow> lastIndex l = snapIndex l + length (entries l)"
  by (simp add: lastIndex_def)

lemma wf_newLog [simp]: "wf_log newLog"
  by (simp add: wf_log_def newLog_def lastIndex_def)

lemma log_term_last: "wf_log l \<Longrightarrow> \<exists>t. lastTerm l = Some t"
  by (auto simp: lastTerm_def log_term_def wf_log_def lastIndex_def)

lemma log_term_Some_iff:
  "wf_log l \<Longrightarrow> (\<exists>t. log_term l i = Some t) \<longleftrightarrow> snapIndex l \<le> i \<and> i \<le> lastIndex l"
  by (auto simp: log_term_def wf_log_def)

lemma log_term_entry: "wf_log l \<Longrightarrow> i \<noteq> snapIndex l \<Longrightarrow> log_term l i = map_option e_Term (entry_at l i)"
  by (auto simp: log_term_def entry_at_def)

lemma entry_at_index: "wf_log l \<Longrightarrow> entry_at l i = Some e \<Longrightarrow> e_Index e = i"
  by (auto simp: entry_at_def wf_log_def contiguous_def lastIndex_def split: if_splits)

section \<open>Every operation keeps a log well-formed\<close>

lemma log_append_ok:
  assumes "wf_log l" "contiguous (lastIndex l + 1) ents"
  shows "log_append ents l = Some (l\<lparr>entries := entries l @ ents\<rparr>)"
    and "wf_log (l\<lparr>entries := entries l @ ents\<rparr>)"
proof -
  show "log_append ents l = Some (l\<lparr>entries := entries l @ ents\<rparr>)"
    using assms(2) by (cases ents) (auto simp: log_append_def)
  show "wf_log (l\<lparr>entries := entries l @ ents\<rparr>)"
    using assms by (auto simp: wf_log_def lastIndex_def)
qed

lemma truncateFrom_ok:
  assumes "wf_log l" "committed l < i" "i \<le> lastIndex l + 1"
  shows "truncateFrom i l = Some (l\<lparr>entries := take (i - offset l) (entries l)\<rparr>)"
    and "wf_log (l\<lparr>entries := take (i - offset l) (entries l)\<rparr>)"
    and "lastIndex (l\<lparr>entries := take (i - offset l) (entries l)\<rparr>) = i - 1"
proof -
  obtain d where "i = snapIndex l + Suc d"
    using assms less_imp_Suc_add [of "snapIndex l" i] by (auto simp: wf_log_def)
  then show "truncateFrom i l = Some (l\<lparr>entries := take (i - offset l) (entries l)\<rparr>)"
    "lastIndex (l\<lparr>entries := take (i - offset l) (entries l)\<rparr>) = i - 1"
    "wf_log (l\<lparr>entries := take (i - offset l) (entries l)\<rparr>)"
    using assms by (auto simp: truncateFrom_def wf_log_def lastIndex_def)
qed

lemma commitTo_wf: "wf_log l \<Longrightarrow> commitTo i l = Some l' \<Longrightarrow> wf_log l' \<and> committed l' = max (committed l) i"
  by (auto simp: commitTo_def wf_log_def lastIndex_def max_def split: if_splits)

lemma commitTo_fields:
  assumes "commitTo i l = Some l'"
  shows "entries l' = entries l" "offset l' = offset l" "snapIndex l' = snapIndex l"
    "snapTerm l' = snapTerm l" "applied l' = applied l"
  using assms by (auto simp: commitTo_def split: if_splits)

lemma appliedTo_wf: "wf_log l \<Longrightarrow> appliedTo i l = Some l' \<Longrightarrow> wf_log l' \<and> applied l' = i"
  by (clarsimp simp: appliedTo_def wf_log_def lastIndex_def split: if_splits)

lemma compactTo_cases:
  assumes "wf_log l" "compactTo i l = Some l'"
  obtains (stale) "i \<le> snapIndex l" "l' = l"
  | (cut) d where "i = snapIndex l + Suc d" "d < length (entries l)" "i \<le> applied l"
      "l' = l\<lparr>entries := drop (Suc d) (entries l), offset := i + 1, snapIndex := i,
        snapTerm := e_Term (entries l ! d)\<rparr>"
proof (cases "i \<le> snapIndex l")
  case True
  then show ?thesis using assms by (intro stale) (auto simp: compactTo_def)
next
  case False
  define d where "d = i - Suc (snapIndex l)"
  have i: "i = snapIndex l + Suc d" using False by (simp add: d_def)
  have w: "offset l = Suc (snapIndex l)" "lastIndex l = snapIndex l + length (entries l)"
    using assms(1) by (auto simp: wf_log_def lastIndex_def)
  have "i \<le> applied l" "d < length (entries l)"
    "l' = l\<lparr>entries := drop (Suc d) (entries l), offset := i + 1, snapIndex := i,
        snapTerm := e_Term (entries l ! d)\<rparr>"
    using assms(2) False unfolding i by (auto simp: compactTo_def log_term_def w split: if_splits)
  then show ?thesis using i cut by blast
qed

lemma compactTo_wf:
  assumes "wf_log l" "compactTo i l = Some l'"
  shows "wf_log l' \<and> lastIndex l' = lastIndex l \<and> committed l' = committed l \<and> applied l' = applied l
    \<and> snapIndex l' = max (snapIndex l) i"
  using assms
proof (cases rule: compactTo_cases)
  case (cut d)
  then show ?thesis
    using assms(1) contiguous_drop [of "Suc (snapIndex l)" "entries l" "Suc d"]
    by (auto simp: wf_log_def lastIndex_def)
qed (use assms in auto)

lemma compactTo_total: "wf_log l \<Longrightarrow> i \<le> applied l \<Longrightarrow> \<exists>l'. compactTo i l = Some l'"
  using log_term_Some_iff [of l i] by (auto simp: compactTo_def wf_log_def split: option.splits)

lemma compactTo_entry_at:
  assumes "wf_log l" "compactTo i l = Some l'" "i < j"
  shows "entry_at l' j = entry_at l j"
  using assms(1,2)
proof (cases rule: compactTo_cases)
  case (cut d)
  then show ?thesis
    using assms(1) less_imp_Suc_add [OF assms(3)] by (auto simp: entry_at_def lastIndex_def wf_log_def)
qed simp

lemma compactTo_log_term:
  assumes "wf_log l" "compactTo i l = Some l'" "snapIndex l' \<le> j"
  shows "log_term l' j = log_term l j"
  using assms(1,2)
proof (cases rule: compactTo_cases)
  case (cut d)
  then show ?thesis
    using assms(1) le_Suc_ex [OF assms(3)]
    by (auto simp: log_term_def lastIndex_def wf_log_def gr0_conv_Suc)
qed simp

section \<open>The AppendEntries consistency check\<close>

definition conflict :: "raftLog \<Rightarrow> Entry list \<Rightarrow> bool" where
  "conflict l ents \<longleftrightarrow> (\<exists>e\<in>set ents. log_term l (e_Index e) \<noteq> None \<and> log_term l (e_Index e) \<noteq> Some (e_Term e))"

text \<open>No offered entry contradicts a committed one.\<close>

definition respects_commit :: "raftLog \<Rightarrow> Entry list \<Rightarrow> bool" where
  "respects_commit l ents \<longleftrightarrow>
     (\<forall>e\<in>set ents. e_Index e \<le> committed l \<longrightarrow> log_term l (e_Index e) = Some (e_Term e))"

text \<open>
  \<open>merged l k es l'\<close>: below \<open>k\<close> the log is unchanged, from \<open>k\<close> it holds \<open>es\<close> (an entry of the
  same term that was already there is kept), and the tail beyond survives exactly when nothing
  conflicted.
\<close>

definition merged :: "raftLog \<Rightarrow> nat \<Rightarrow> Entry list \<Rightarrow> raftLog \<Rightarrow> bool" where
  "merged l k es l' \<longleftrightarrow>
     snapIndex l' = snapIndex l \<and> snapTerm l' = snapTerm l
     \<and> committed l' = committed l \<and> applied l' = applied l \<and> offset l' = offset l
     \<and> (\<forall>i<k. entry_at l' i = entry_at l i)
     \<and> (\<forall>j<length es. \<exists>e. entry_at l' (k + j) = Some e \<and> e_Term e = e_Term (es ! j)
          \<and> (e = es ! j \<or> entry_at l (k + j) = Some e))
     \<and> (\<forall>i\<ge>k + length es. entry_at l' i = (if conflict l es then None else entry_at l i))"

lemma entry_at_append:
  assumes "wf_log l"
  shows "entry_at (l\<lparr>entries := entries l @ ents\<rparr>) i =
    (if i \<le> lastIndex l then entry_at l i
     else if i < lastIndex l + 1 + length ents then Some (ents ! (i - (lastIndex l + 1))) else None)"
proof (cases "i \<le> snapIndex l")
  case False
  then obtain d where "i = snapIndex l + Suc d"
    using less_imp_Suc_add [of "snapIndex l" i] by auto
  then show ?thesis
    using assms by (auto simp: entry_at_def lastIndex_def wf_log_def nth_append)
qed (use assms in \<open>auto simp: entry_at_def lastIndex_def wf_log_def\<close>)

lemma entry_at_truncate:
  assumes "wf_log l" "committed l < k" "k \<le> lastIndex l + 1"
  shows "entry_at (l\<lparr>entries := take (k - offset l) (entries l)\<rparr>) i = (if i < k then entry_at l i else None)"
  using assms truncateFrom_ok(3) [OF assms] by (auto simp: entry_at_def wf_log_def)

lemma log_term_above:
  assumes "wf_log l" "snapIndex l < i"
  shows "log_term l i = map_option e_Term (entry_at l i)"
  using assms by (simp add: log_term_entry)

lemma entry_at_None_iff: "wf_log l \<Longrightarrow> entry_at l i = None \<longleftrightarrow> i \<le> snapIndex l \<or> lastIndex l < i"
  by (auto simp: entry_at_def wf_log_def)

lemma merged_append:
  assumes "wf_log l" "contiguous k es" "k = lastIndex l + 1"
  shows "merged l k es (l\<lparr>entries := entries l @ es\<rparr>)"
proof -
  have "\<not> conflict l es"
    using assms by (auto simp: conflict_def contiguous_def in_set_conv_nth log_term_def wf_log_def)
  then show ?thesis
    using assms(1,3) by (auto simp: merged_def entry_at_append) (simp add: entry_at_def)
qed

lemma merged_replace:
  assumes "wf_log l" "contiguous k es" "committed l < k" "k \<le> lastIndex l" "conflict l es"
  shows "merged l k es (l\<lparr>entries := take (k - offset l) (entries l) @ es\<rparr>)"
proof -
  let ?t = "l\<lparr>entries := take (k - offset l) (entries l)\<rparr>"
  have t: "wf_log ?t" "lastIndex ?t = k - 1" "0 < k" "\<And>i. entry_at ?t i = (if i < k then entry_at l i else None)"
    using assms truncateFrom_ok [of l k] entry_at_truncate [of l k] by auto
  have "entry_at (l\<lparr>entries := take (k - offset l) (entries l) @ es\<rparr>) i =
      (if i < k then entry_at l i else if i < k + length es then Some (es ! (i - k)) else None)" for i
    using entry_at_append [OF t(1), of es i] t(2-4) by auto
  then show ?thesis using assms(5) by (auto simp: merged_def)
qed

lemma merged_Cons:
  assumes "wf_log l" "entry_at l k = Some e'" "e_Term e' = e_Term e" "e_Index e = k"
    "merged l (Suc k) es l'" "contiguous (Suc k) es" "snapIndex l < k"
  shows "merged l k (e # es) l'"
proof -
  have "conflict l (e # es) \<longleftrightarrow> conflict l es"
    using assms by (auto simp: conflict_def log_term_above)
  moreover have "\<exists>f. entry_at l' (k + j) = Some f \<and> e_Term f = e_Term ((e # es) ! j)
      \<and> (f = (e # es) ! j \<or> entry_at l (k + j) = Some f)" if "j < length (e # es)" for j
    using assms(2,3,5) that by (cases j) (auto simp: merged_def)
  ultimately show ?thesis
    using assms(5) by (auto simp: merged_def)
qed

lemma append_loop_merged:
  assumes "wf_log l" "contiguous k es" "snapIndex l < k" "k \<le> lastIndex l + 1" "respects_commit l es"
  shows "\<exists>l'. append_loop es l = Some l' \<and> wf_log l' \<and> merged l k es l'"
  using assms
proof (induction es arbitrary: k)
  case Nil
  then show ?case by (auto simp: merged_def conflict_def)
next
  case (Cons e es)
  have k: "e_Index e = k" "contiguous (Suc k) es" using Cons.prems(2) by auto
  show ?case
  proof (cases "entry_at l k")
    case None
    then have last: "k = lastIndex l + 1"
      using Cons.prems(1,3,4) by (auto simp: entry_at_None_iff)
    then show ?thesis
      using log_append_ok [OF Cons.prems(1), of "e # es"] merged_append [OF Cons.prems(1,2) last] None
        log_term_above [OF Cons.prems(1,3)] Cons.prems(2) k by simp
  next
    case (Some e')
    have le: "k \<le> lastIndex l" using Some by (auto simp: entry_at_def split: if_splits)
    show ?thesis
    proof (cases "e_Term e' = e_Term e")
      case True
      then obtain l' where "append_loop es l = Some l'" "wf_log l'" "merged l (Suc k) es l'"
        using Cons.IH [of "Suc k"] Cons.prems k le by (auto simp: respects_commit_def)
      then show ?thesis
        using merged_Cons [OF Cons.prems(1) Some True k(1) _ k(2) Cons.prems(3)] Some True k(1)
          log_term_above [OF Cons.prems(1,3)] by auto
    next
      case False
      have com: "committed l < k"
        using Cons.prems(5) False k(1) Some log_term_above [OF Cons.prems(1,3)]
        by (auto simp: respects_commit_def)
      have "conflict l (e # es)"
        using False Some k(1) log_term_above [OF Cons.prems(1,3)] by (auto simp: conflict_def)
      note m = merged_replace [OF Cons.prems(1,2) com le this]
      let ?t = "l\<lparr>entries := take (k - offset l) (entries l)\<rparr>"
      have t: "truncateFrom k l = Some ?t" "wf_log ?t" "lastIndex ?t = k - 1"
        using truncateFrom_ok [OF Cons.prems(1) com] le by auto
      have c: "contiguous (lastIndex ?t + 1) (e # es)"
        using t(3) Cons.prems(2,3) by simp
      show ?thesis
        using m t(1) log_append_ok [OF t(2) c] False Some k(1) log_term_above [OF Cons.prems(1,3)] by simp
    qed
  qed
qed

lemma merged_lastIndex:
  assumes "wf_log l'" "merged l k es l'" "es \<noteq> []"
  shows "k + length es \<le> lastIndex l' + 1"
proof -
  have "entry_at l' (k + (length es - 1)) \<noteq> None"
    using assms(2,3) unfolding merged_def by (metis diff_less length_greater_0_conv less_one option.distinct(1))
  then show ?thesis using assms(1,3) entry_at_None_iff [of l' "k + (length es - 1)"]
    by (cases es) auto
qed

lemma maybeAppend_accepts_lemma:
  assumes "wf_log l" "contiguous (prevIndex + 1) ents" "log_term l prevIndex = Some prevTerm"
    "respects_commit l ents"
  obtains l1 l' where
    "maybeAppend prevIndex prevTerm commit ents l = Some (Some (prevIndex + length ents), l')"
    "wf_log l'" "wf_log l1" "merged l (prevIndex + 1) ents l1"
    "l' = l1\<lparr>committed := max (committed l) (min commit (prevIndex + length ents))\<rparr>"
proof -
  have prev: "snapIndex l \<le> prevIndex" "prevIndex \<le> lastIndex l"
    using log_term_Some_iff [OF assms(1), of prevIndex] assms(3) by auto
  obtain l1 where l1: "append_loop ents l = Some l1" "wf_log l1" "merged l (prevIndex + 1) ents l1"
    using append_loop_merged [OF assms(1,2) _ _ assms(4)] prev by auto
  let ?c = "min commit (prevIndex + length ents)"
  have "prevIndex + length ents \<le> lastIndex l1"
    using merged_lastIndex [OF l1(2,3)] prev l1(1) by (cases ents) auto
  then have c: "commitTo ?c l1 = Some (l1\<lparr>committed := max (committed l1) ?c\<rparr>)"
    by (auto simp: commitTo_def max_def)
  have "committed l1 = committed l"
    using l1(3) by (simp add: merged_def)
  then show ?thesis
    using that [of "l1\<lparr>committed := max (committed l1) ?c\<rparr>" l1] l1 c commitTo_wf [OF l1(2) c] assms(3)
    by (simp add: maybeAppend_def Let_def)
qed

lemma append_loop_panics:
  assumes "wf_log l" "contiguous k es" "snapIndex l < k" "\<not> respects_commit l es"
  shows "append_loop es l = None"
  using assms
proof (induction es arbitrary: k)
  case Nil
  then show ?case by (simp add: respects_commit_def)
next
  case (Cons e es)
  have k: "e_Index e = k" "contiguous (Suc k) es" using Cons.prems(2) by auto
  obtain f where f: "f \<in> set (e # es)" "e_Index f \<le> committed l" "log_term l (e_Index f) \<noteq> Some (e_Term f)"
    using Cons.prems(4) by (auto simp: respects_commit_def)
  then have "k \<le> committed l"
    using Cons.prems(2) by (auto simp: contiguous_def in_set_conv_nth)
  then have "\<exists>t. log_term l k = Some t"
    using Cons.prems(1,3) log_term_Some_iff [OF Cons.prems(1), of k] by (auto simp: wf_log_def)
  then obtain t where t: "log_term l k = Some t" by blast
  show ?case
  proof (cases "t = e_Term e")
    case True
    then have "\<not> respects_commit l es"
      using f t k by (auto simp: respects_commit_def)
    then show ?thesis using Cons.IH [of "Suc k"] Cons.prems(1,3) k t True by simp
  next
    case False
    then show ?thesis using t k \<open>k \<le> committed l\<close> by (simp add: truncateFrom_def)
  qed
qed

text \<open>
  C3. The AppendEntries consistency check does exactly what it says, on every branch.  Offered
  contiguous entries after \<open>prevIndex\<close>: it rejects and changes nothing when \<open>prevIndex\<close> is absent
  or has another term; it panics exactly when an offered entry contradicts a committed one;
  otherwise it accepts, keeps everything up to \<open>prevIndex\<close>, holds the offered entries after it,
  drops the old tail exactly when there was a conflict, and never moves the commit index back or
  past the last new entry.
\<close>

theorem maybeAppend_correct:
  assumes "wf_log l" "contiguous (prevIndex + 1) ents"
  shows "(log_term l prevIndex \<noteq> Some prevTerm \<longrightarrow>
           maybeAppend prevIndex prevTerm commit ents l = Some (None, l))
    \<and> (log_term l prevIndex = Some prevTerm \<and> \<not> respects_commit l ents \<longrightarrow>
           maybeAppend prevIndex prevTerm commit ents l = None)
    \<and> (log_term l prevIndex = Some prevTerm \<and> respects_commit l ents \<longrightarrow>
           (\<exists>l1. maybeAppend prevIndex prevTerm commit ents l =
                Some (Some (prevIndex + length ents),
                  l1\<lparr>committed := max (committed l) (min commit (prevIndex + length ents))\<rparr>)
              \<and> wf_log (l1\<lparr>committed := max (committed l) (min commit (prevIndex + length ents))\<rparr>)
              \<and> merged l (prevIndex + 1) ents l1))"
proof (intro conjI impI)
  assume "log_term l prevIndex = Some prevTerm \<and> \<not> respects_commit l ents"
  moreover from this have "snapIndex l < prevIndex + 1"
    using log_term_Some_iff [OF assms(1), of prevIndex] by auto
  ultimately show "maybeAppend prevIndex prevTerm commit ents l = None"
    using append_loop_panics [OF assms] by (simp add: maybeAppend_def Let_def)
next
  assume a: "log_term l prevIndex = Some prevTerm \<and> respects_commit l ents"
  obtain l1 l' where "maybeAppend prevIndex prevTerm commit ents l = Some (Some (prevIndex + length ents), l')"
    "wf_log l'" "wf_log l1" "merged l (prevIndex + 1) ents l1"
    "l' = l1\<lparr>committed := max (committed l) (min commit (prevIndex + length ents))\<rparr>"
    using maybeAppend_accepts_lemma [OF assms] a by blast
  then show "\<exists>l1. maybeAppend prevIndex prevTerm commit ents l =
                Some (Some (prevIndex + length ents),
                  l1\<lparr>committed := max (committed l) (min commit (prevIndex + length ents))\<rparr>)
              \<and> wf_log (l1\<lparr>committed := max (committed l) (min commit (prevIndex + length ents))\<rparr>)
              \<and> merged l (prevIndex + 1) ents l1"
    by blast
qed (simp add: maybeAppend_def)

definition witness_entry :: "nat \<Rightarrow> nat \<Rightarrow> Entry" where
  "witness_entry i t = \<lparr>e_Type = EntryNormal, e_Index = i, e_Term = t, e_Data = []\<rparr>"

definition witness_log :: raftLog where
  "witness_log = \<lparr>entries = [witness_entry 1 1, witness_entry 2 1], offset = 1, snapIndex = 0,
     snapTerm = 0, committed = 1, applied = 0\<rparr>"

theorem maybeAppend_correct_witness:
  "wf_log witness_log \<and> respects_commit witness_log [witness_entry 2 2]
   \<and> (\<exists>l1. maybeAppend 1 1 2 [witness_entry 2 2] witness_log =
         Some (Some 2, l1\<lparr>committed := 2\<rparr>) \<and> merged witness_log 2 [witness_entry 2 2] l1)"
proof -
  have w: "wf_log witness_log" "contiguous (1 + 1) [witness_entry 2 2]"
    "log_term witness_log 1 = Some 1" "respects_commit witness_log [witness_entry 2 2]"
    by (simp_all add: wf_log_def witness_log_def witness_entry_def lastIndex_def log_term_def
        respects_commit_def)
  have "max (committed witness_log) (min 2 (1 + length [witness_entry 2 2])) = 2"
    by (simp add: witness_log_def)
  then show ?thesis
    using maybeAppend_correct [OF w(1,2), of 1 2] w by (auto simp: numeral_2_eq_2)
qed

end
