(* ===== verification/RaftNode.thy ===== *)
theory RaftNode
  imports RaftLog
begin

text \<open>
  The consensus state machine of one member: \<^verbatim>\<open>src/internal/raft/raft.go\<close> and \<^verbatim>\<open>conf.go\<close>.

  Every method is a function on the \<open>Node\<close> record; a panic is \<open>None\<close>.  A Go map used as a set
  (\<^verbatim>\<open>votes\<close>, \<^verbatim>\<open>voters\<close>, \<^verbatim>\<open>readAcks\<close>) is a set, a map read with a zero default is a partial map
  read through \<open>mget\<close>.  Iteration over such a map, whose order Go leaves open, follows the
  ascending order of the ids: it determines only the order of messages to different members.
  \<^verbatim>\<open>nextIndex - 1\<close> is the one subtraction the code does not guard; \<open>dec64\<close> writes out its
  wrap-around.  The injected random source is a function of the number of calls made so far.
\<close>

section \<open>Types\<close>

datatype Role = Follower | Candidate | Leader

datatype MessageType = MsgProp | MsgVote | MsgVoteResp | MsgApp | MsgAppResp
  | MsgPreVote | MsgPreVoteResp | MsgSnap | MsgTimeoutNow

record HardState =
  hs_Term :: nat
  hs_Vote :: nat
  hs_Commit :: nat

record Message =
  m_Type :: MessageType
  m_From :: nat
  m_To :: nat
  m_Term :: nat
  m_LogIndex :: nat
  m_LogTerm :: nat
  m_Entries :: "Entry list"
  m_Commit :: nat
  m_Reject :: bool

record ReadState =
  r_ID :: nat
  r_Index :: nat

record pendingRead =
  pr_id :: nat
  pr_index :: nat

record Ready =
  rd_HardState :: "HardState option"
  rd_Entries :: "Entry list"
  rd_CommittedEntries :: "Entry list"
  rd_Messages :: "Message list"
  rd_ReadStates :: "ReadState list"

record Config =
  c_ID :: nat
  c_Peers :: "nat list"
  c_ElectionTick :: int
  c_HeartbeatTick :: int
  c_Rand :: "(nat \<Rightarrow> int \<Rightarrow> int) option"
  c_LeaseRead :: bool

record Recovered =
  rec_HardState :: HardState
  rec_SnapIndex :: nat
  rec_SnapTerm :: nat
  rec_Entries :: "Entry list"

record Node =
  n_id :: nat
  n_peers :: "nat list"
  n_role :: Role
  n_term :: nat
  n_vote :: nat
  n_lead :: nat
  n_voters :: "nat set"
  n_learners :: "nat set"
  n_pendingConfIndex :: nat
  n_transferee :: nat
  n_log :: raftLog
  n_votes :: "nat set"
  n_preVotes :: "nat set"
  n_next :: "nat \<rightharpoonup> nat"
  n_match :: "nat \<rightharpoonup> nat"
  n_msgs :: "Message list"
  n_stabled :: nat
  n_prevHard :: HardState
  n_electionTick :: int
  n_heartbeatTick :: int
  n_rand :: "(nat \<Rightarrow> int \<Rightarrow> int) option"
  n_randCalls :: nat
  n_randSeq :: "64 word"
  n_electionElapsed :: int
  n_heartbeatElapse :: int
  n_randomTimeout :: int
  n_readReady :: "ReadState list"
  n_roundReads :: "pendingRead list"
  n_pendingReads :: "pendingRead list"
  n_readAcks :: "nat set"
  n_leaseAcks :: "nat set option"
  n_leaseElapsed :: int
  n_useLease :: bool

datatype raft_error = ErrNotLeader | ErrConfInFlight

definition mget :: "(nat \<rightharpoonup> nat) \<Rightarrow> nat \<Rightarrow> nat" where
  "mget m k = (case m k of None \<Rightarrow> 0 | Some v \<Rightarrow> v)"

definition dec64 :: "nat \<Rightarrow> nat" where
  "dec64 x = (if x = 0 then 2 ^ 64 - 1 else x - 1)"

text \<open>A message literal with every other field zero.\<close>

definition msg0 :: "MessageType \<Rightarrow> nat \<Rightarrow> Message" where
  "msg0 t to = \<lparr>m_Type = t, m_From = 0, m_To = to, m_Term = 0, m_LogIndex = 0, m_LogTerm = 0,
     m_Entries = [], m_Commit = 0, m_Reject = False\<rparr>"

section \<open>Membership\<close>

datatype ConfChangeType = ConfAddNode | ConfRemoveNode | ConfAddLearner | ConfOther byte

record ConfChange =
  cc_Type :: ConfChangeType
  cc_Node :: nat

definition conf_byte :: "ConfChangeType \<Rightarrow> byte" where
  "conf_byte t = (case t of ConfAddNode \<Rightarrow> 0 | ConfRemoveNode \<Rightarrow> 1 | ConfAddLearner \<Rightarrow> 2 | ConfOther b \<Rightarrow> b)"

definition byte_conf :: "byte \<Rightarrow> ConfChangeType" where
  "byte_conf b = (if b = 0 then ConfAddNode else if b = 1 then ConfRemoveNode
     else if b = 2 then ConfAddLearner else ConfOther b)"

definition ConfChange_Encode :: "ConfChange \<Rightarrow> bytes" where
  "ConfChange_Encode cc = conf_byte (cc_Type cc) # put_u64 (cc_Node cc)"

definition decodeConfChange :: "bytes \<Rightarrow> ConfChange option" where
  "decodeConfChange data =
     (if length data \<noteq> 9 then None
      else Some \<lparr>cc_Type = byte_conf (data ! 0), cc_Node = get_u64 (drop 1 data)\<rparr>)"

definition rebuildPeers :: "Node \<Rightarrow> Node" where
  "rebuildPeers n =
     n\<lparr>n_peers := sorted_list_of_set (n_voters n) @ sorted_list_of_set (n_learners n)\<rparr>"

definition initProgress :: "nat \<Rightarrow> Node \<Rightarrow> Node" where
  "initProgress i n =
     (if n_role n \<noteq> Leader \<or> i = n_id n then n
      else if n_next n i = None then
        n\<lparr>n_next := (n_next n)(i \<mapsto> lastIndex (n_log n) + 1), n_match := (n_match n)(i \<mapsto> 0)\<rparr>
      else n)"

definition applyConfChange :: "ConfChange \<Rightarrow> Node \<Rightarrow> Node" where
  "applyConfChange cc n =
     rebuildPeers
       (case cc_Type cc of
          ConfAddNode \<Rightarrow>
            initProgress (cc_Node cc)
              (n\<lparr>n_learners := n_learners n - {cc_Node cc},
                 n_voters := insert (cc_Node cc) (n_voters n)\<rparr>)
        | ConfAddLearner \<Rightarrow>
            if cc_Node cc \<notin> n_voters n then
              initProgress (cc_Node cc) (n\<lparr>n_learners := insert (cc_Node cc) (n_learners n)\<rparr>)
            else n
        | ConfRemoveNode \<Rightarrow>
            n\<lparr>n_voters := n_voters n - {cc_Node cc}, n_learners := n_learners n - {cc_Node cc},
              n_next := (n_next n)(cc_Node cc := None), n_match := (n_match n)(cc_Node cc := None),
              n_transferee := (if n_transferee n = cc_Node cc then 0 else n_transferee n)\<rparr>
        | ConfOther _ \<Rightarrow> n)"

definition IsVoter :: "nat \<Rightarrow> Node \<Rightarrow> bool" where
  "IsVoter i n \<longleftrightarrow> i \<in> n_voters n"

definition IsLearner :: "nat \<Rightarrow> Node \<Rightarrow> bool" where
  "IsLearner i n \<longleftrightarrow> i \<in> n_learners n"

definition NumVoters :: "Node \<Rightarrow> nat" where
  "NumVoters n = card (n_voters n)"

section \<open>Timers and roles\<close>

text \<open>\<^verbatim>\<open>intn\<close>: the injected source, or the fixed splitmix sequence.\<close>

definition intn :: "int \<Rightarrow> Node \<Rightarrow> int \<times> Node" where
  "intn hi n =
     (if hi \<le> 0 then (0, n)
      else case n_rand n of
        Some r \<Rightarrow> (r (n_randCalls n) hi, n\<lparr>n_randCalls := n_randCalls n + 1\<rparr>)
      | None \<Rightarrow>
          let s = n_randSeq n + 0x9e3779b97f4a7c15;
              z = (s XOR drop_bit 30 s) * 0xbf58476d1ce4e5b9;
              z = (z XOR drop_bit 27 z) * 0x94d049bb133111eb;
              z = z XOR drop_bit 31 z
          in (int (unat z mod nat hi), n\<lparr>n_randSeq := s\<rparr>))"

definition resetElectionTimer :: "Node \<Rightarrow> Node" where
  "resetElectionTimer n =
     (let (k, n) = intn (n_electionTick n) (n\<lparr>n_electionElapsed := 0\<rparr>)
      in n\<lparr>n_randomTimeout := n_electionTick n + k\<rparr>)"

definition quorum :: "Node \<Rightarrow> nat" where
  "quorum n = card (n_voters n) div 2 + 1"

definition reset :: "nat \<Rightarrow> Node \<Rightarrow> Node option" where
  "reset t n =
     (if t < n_term n then None
      else
        let n = (if t > n_term n then n\<lparr>n_term := t, n_vote := 0\<rparr> else n)
        in Some (resetElectionTimer (n\<lparr>n_lead := 0, n_votes := {}, n_preVotes := {}\<rparr>)))"

definition becomeFollower :: "nat \<Rightarrow> nat \<Rightarrow> Node \<Rightarrow> Node option" where
  "becomeFollower t lead n = do {
     n \<leftarrow> reset t n;
     Some (n\<lparr>n_role := Follower, n_lead := lead\<rparr>)
   }"

definition becomeCandidate :: "Node \<Rightarrow> Node option" where
  "becomeCandidate n =
     (if n_role n = Leader then None
      else do {
        n \<leftarrow> reset (n_term n + 1) n;
        Some (n\<lparr>n_role := Candidate, n_vote := n_id n, n_votes := insert (n_id n) (n_votes n)\<rparr>)
      })"

definition becomePreCandidate :: "Node \<Rightarrow> Node option" where
  "becomePreCandidate n =
     (if n_role n = Leader then None
      else Some (resetElectionTimer (n\<lparr>n_role := Candidate, n_lead := 0, n_preVotes := {n_id n}\<rparr>)))"

section \<open>Sending\<close>

definition send :: "Message \<Rightarrow> Node \<Rightarrow> Node" where
  "send m n =
     (let m = m\<lparr>m_From := n_id n\<rparr>;
          m = (if m_Term m = 0 then m\<lparr>m_Term := n_term n\<rparr> else m)
      in n\<lparr>n_msgs := n_msgs n @ [m]\<rparr>)"

definition sendAppend :: "nat \<Rightarrow> Node \<Rightarrow> Node option" where
  "sendAppend to n =
     (let nxt = mget (n_next n) to;
          prevIndex = dec64 nxt
      in case log_term (n_log n) prevIndex of
        None \<Rightarrow>
          let n = send ((msg0 MsgSnap to)\<lparr>m_LogIndex := snapIndex (n_log n), m_LogTerm := snapTerm (n_log n)\<rparr>) n
          in Some (n\<lparr>n_next := (n_next n)(to \<mapsto> snapIndex (n_log n) + 1)\<rparr>)
      | Some prevTerm \<Rightarrow> do {
          ents \<leftarrow> slice nxt (lastIndex (n_log n) + 1) (n_log n);
          Some (send ((msg0 MsgApp to)\<lparr>m_LogIndex := prevIndex, m_LogTerm := prevTerm, m_Entries := ents,
            m_Commit := min (committed (n_log n)) (prevIndex + length ents)\<rparr>) n)
        })"

fun for_peers :: "(nat \<Rightarrow> Node \<Rightarrow> Node option) \<Rightarrow> nat list \<Rightarrow> Node \<Rightarrow> Node option" where
  "for_peers f [] n = Some n"
| "for_peers f (p # ps) n =
     (if p = n_id n then for_peers f ps n else do { n \<leftarrow> f p n; for_peers f ps n })"

definition bcastAppend :: "Node \<Rightarrow> Node option" where
  "bcastAppend n = for_peers sendAppend (n_peers n) n"

definition roundActive :: "Node \<Rightarrow> bool" where
  "roundActive n \<longleftrightarrow> n_roundReads n \<noteq> []"

definition bcastHeartbeat :: "Node \<Rightarrow> Node option" where
  "bcastHeartbeat n =
     bcastAppend (if roundActive n then n\<lparr>n_readAcks := {n_id n}\<rparr> else n)"

definition bcastVote :: "MessageType \<Rightarrow> nat \<Rightarrow> Node \<Rightarrow> Node option" where
  "bcastVote t tm n =
     for_peers (\<lambda>p n. do {
        lt \<leftarrow> lastTerm (n_log n);
        Some (send ((msg0 t p)\<lparr>m_Term := tm, m_LogIndex := lastIndex (n_log n), m_LogTerm := lt\<rparr>) n)
      }) (n_peers n) n"

section \<open>Commitment and elections\<close>

text \<open>
  \<^verbatim>\<open>maybeCommit\<close>: the flag says whether the commit index moved.  Indexing the empty list of
  matches, when no voter is left, is a panic.
\<close>

definition matches :: "Node \<Rightarrow> nat list" where
  "matches n = rev (sort (map (mget (n_match n)) (sorted_list_of_set (n_voters n))))"

definition maybeCommit :: "Node \<Rightarrow> (bool \<times> Node) option" where
  "maybeCommit n =
     (if n_role n \<noteq> Leader then Some (False, n)
      else
        let n = n\<lparr>n_match := (n_match n)(n_id n \<mapsto> min (n_stabled n) (lastIndex (n_log n)))\<rparr>;
            ms = matches n
        in if quorum n - 1 \<ge> length ms then None
           else
             let candidate = ms ! (quorum n - 1) in
             if candidate \<le> committed (n_log n) then Some (False, n)
             else if log_term (n_log n) candidate \<noteq> Some (n_term n) then Some (False, n)
             else do { l \<leftarrow> commitTo candidate (n_log n); Some (True, n\<lparr>n_log := l\<rparr>) })"

definition becomeLeader :: "Node \<Rightarrow> Node option" where
  "becomeLeader n =
     (if n_role n \<noteq> Candidate then None
      else do {
        let li = lastIndex (n_log n);
        let n = n\<lparr>n_role := Leader, n_lead := n_id n, n_transferee := 0, n_heartbeatElapse := 0,
                  n_leaseElapsed := 0, n_leaseAcks := None, n_roundReads := [], n_pendingReads := [],
                  n_readAcks := {},
                  n_next := (\<lambda>p. if p \<in> set (n_peers n) then Some (li + 1) else None),
                  n_match := (\<lambda>p. if p \<in> set (n_peers n) then Some 0 else None)\<rparr>;
        l \<leftarrow> log_append [\<lparr>e_Type = EntryNormal, e_Index = li + 1, e_Term = n_term n, e_Data = []\<rparr>] (n_log n);
        (_, n) \<leftarrow> maybeCommit (n\<lparr>n_log := l\<rparr>);
        bcastHeartbeat n
      })"

definition startElection :: "Node \<Rightarrow> Node option" where
  "startElection n = do {
     n \<leftarrow> becomeCandidate n;
     if card (n_votes n) \<ge> quorum n then becomeLeader n
     else bcastVote MsgVote (n_term n) n
   }"

definition Campaign :: "Node \<Rightarrow> Node option" where
  "Campaign n =
     (if n_id n \<notin> n_voters n then Some n
      else do {
        n \<leftarrow> becomePreCandidate n;
        if card (n_preVotes n) \<ge> quorum n then startElection n
        else bcastVote MsgPreVote (n_term n + 1) n
      })"

definition TransferLeader :: "nat \<Rightarrow> Node \<Rightarrow> (bool \<times> Node) option" where
  "TransferLeader target n =
     (if n_role n \<noteq> Leader \<or> target = n_id n \<or> target \<notin> n_voters n then Some (False, n)
      else
        let n = n\<lparr>n_transferee := target\<rparr> in
        if mget (n_match n) target \<ge> lastIndex (n_log n)
        then Some (True, send (msg0 MsgTimeoutNow target) n)
        else do { n \<leftarrow> sendAppend target n; Some (True, n) })"

definition Tick :: "Node \<Rightarrow> Node option" where
  "Tick n =
     (if n_role n = Leader then
        let n = n\<lparr>n_leaseElapsed := n_leaseElapsed n + 1, n_heartbeatElapse := n_heartbeatElapse n + 1\<rparr>
        in if n_heartbeatElapse n \<ge> n_heartbeatTick n then bcastHeartbeat (n\<lparr>n_heartbeatElapse := 0\<rparr>)
           else Some n
      else
        let n = n\<lparr>n_electionElapsed := n_electionElapsed n + 1\<rparr>
        in if n_electionElapsed n \<ge> n_randomTimeout n then Campaign n else Some n)"

section \<open>Linearizable reads\<close>

definition toReadStates :: "pendingRead list \<Rightarrow> ReadState list" where
  "toReadStates = map (\<lambda>r. \<lparr>r_ID = pr_id r, r_Index = pr_index r\<rparr>)"

function maybeStartReadRound :: "Node \<Rightarrow> Node option" and confirmReadRound :: "Node \<Rightarrow> Node option" where
  "maybeStartReadRound n =
     (if roundActive n \<or> n_pendingReads n = [] \<or> n_role n \<noteq> Leader then Some n
      else
        let n = n\<lparr>n_roundReads := n_pendingReads n, n_pendingReads := [], n_readAcks := {n_id n}\<rparr> in
        if n_useLease n \<and> n_leaseElapsed n < n_electionTick n then confirmReadRound n
        else if card (n_readAcks n) \<ge> quorum n then confirmReadRound n
        else bcastHeartbeat n)"
| "confirmReadRound n =
     maybeStartReadRound
       (n\<lparr>n_readReady := n_readReady n @ toReadStates (n_roundReads n), n_roundReads := [], n_readAcks := {}\<rparr>)"
  by pat_completeness auto
termination
  by (relation "measure (\<lambda>x. case x of Inl n \<Rightarrow> 2 * length (n_pendingReads n)
        | Inr n \<Rightarrow> 2 * length (n_pendingReads n) + 1)") (auto simp: neq_Nil_conv)

declare maybeStartReadRound.simps [simp del] confirmReadRound.simps [simp del]

definition ReadIndex :: "nat \<Rightarrow> Node \<Rightarrow> (bool \<times> Node) option" where
  "ReadIndex i n =
     (if n_role n \<noteq> Leader then Some (False, n)
      else if log_term (n_log n) (committed (n_log n)) \<noteq> Some (n_term n) then Some (False, n)
      else do {
        n \<leftarrow> maybeStartReadRound
          (n\<lparr>n_pendingReads := n_pendingReads n @ [\<lparr>pr_id = i, pr_index = committed (n_log n)\<rparr>]\<rparr>);
        Some (True, n)
      })"

definition renewLeaseAck :: "nat \<Rightarrow> Node \<Rightarrow> Node" where
  "renewLeaseAck from n =
     (let acks = (case n_leaseAcks n of None \<Rightarrow> {n_id n} | Some a \<Rightarrow> a);
          acks = insert from acks
      in if card acks \<ge> quorum n then n\<lparr>n_leaseElapsed := 0, n_leaseAcks := None\<rparr>
         else n\<lparr>n_leaseAcks := Some acks\<rparr>)"

section \<open>Message handlers\<close>

definition handleApp :: "Message \<Rightarrow> Node \<Rightarrow> Node option" where
  "handleApp m n = do {
     let n = resetElectionTimer (n\<lparr>n_role := Follower, n_lead := m_From m\<rparr>);
     (r, l) \<leftarrow> maybeAppend (m_LogIndex m) (m_LogTerm m) (m_Commit m) (m_Entries m) (n_log n);
     let n = n\<lparr>n_log := l\<rparr>;
     case r of
       None \<Rightarrow>
         Some (send ((msg0 MsgAppResp (m_From m))\<lparr>m_Reject := True,
           m_LogIndex := (if m_LogIndex m < lastIndex l + 1 then m_LogIndex m else lastIndex l + 1)\<rparr>) n)
     | Some lastNew \<Rightarrow> Some (send ((msg0 MsgAppResp (m_From m))\<lparr>m_LogIndex := lastNew\<rparr>) n)
   }"

text \<open>The parts of \<^verbatim>\<open>handleAppResp\<close> on success: the new match, and the read round's tally.\<close>

definition recordMatch :: "nat \<Rightarrow> nat \<Rightarrow> Node \<Rightarrow> Node option" where
  "recordMatch from li n =
     (if li > mget (n_match n) from then do {
        (moved, n) \<leftarrow> maybeCommit
          (n\<lparr>n_match := (n_match n)(from \<mapsto> li), n_next := (n_next n)(from \<mapsto> li + 1)\<rparr>);
        if moved then bcastAppend n else Some n
      } else Some n)"

definition ackReads :: "nat \<Rightarrow> Node \<Rightarrow> Node option" where
  "ackReads from n =
     (if roundActive n then
        let n = n\<lparr>n_readAcks := insert from (n_readAcks n)\<rparr>
        in if card (n_readAcks n) \<ge> quorum n then confirmReadRound n else Some n
      else Some n)"

definition handleAppResp :: "Message \<Rightarrow> Node \<Rightarrow> Node option" where
  "handleAppResp m n =
     (if n_role n \<noteq> Leader then Some n
      else if m_Reject m then
        sendAppend (m_From m)
          (if m_LogIndex m < mget (n_next n) (m_From m)
           then n\<lparr>n_next := (n_next n)(m_From m \<mapsto> max (m_LogIndex m) 1)\<rparr> else n)
      else if m_LogIndex m \<ge> mget (n_match n) (m_From m) then do {
        n \<leftarrow> recordMatch (m_From m) (m_LogIndex m) n;
        n \<leftarrow> ackReads (m_From m) (renewLeaseAck (m_From m) n);
        Some (if n_transferee n = m_From m \<and> mget (n_match n) (m_From m) \<ge> lastIndex (n_log n)
              then send (msg0 MsgTimeoutNow (m_From m)) n else n)
      } else Some n)"

definition handlePreVote :: "Message \<Rightarrow> Node \<Rightarrow> Node option" where
  "handlePreVote m n = do {
     grant \<leftarrow> (if m_Term m > n_term n then isUpToDate (m_LogIndex m) (m_LogTerm m) (n_log n) else Some False);
     Some (send ((msg0 MsgPreVoteResp (m_From m))\<lparr>m_Term := m_Term m, m_Reject := \<not> grant\<rparr>) n)
   }"

definition handlePreVoteResp :: "Message \<Rightarrow> Node \<Rightarrow> Node option" where
  "handlePreVoteResp m n =
     (if n_role n \<noteq> Candidate \<or> card (n_votes n) > 0 then Some n
      else
        let n = (if \<not> m_Reject m \<and> m_From m \<in> n_voters n
                 then n\<lparr>n_preVotes := insert (m_From m) (n_preVotes n)\<rparr> else n)
        in if card (n_preVotes n) \<ge> quorum n then startElection n else Some n)"

definition handleVote :: "Message \<Rightarrow> Node \<Rightarrow> Node option" where
  "handleVote m n = do {
     grant \<leftarrow> (if n_vote n = 0 \<or> n_vote n = m_From m
              then isUpToDate (m_LogIndex m) (m_LogTerm m) (n_log n) else Some False);
     let n = (if grant then resetElectionTimer (n\<lparr>n_vote := m_From m\<rparr>) else n);
     Some (send ((msg0 MsgVoteResp (m_From m))\<lparr>m_Reject := \<not> grant\<rparr>) n)
   }"

definition handleVoteResp :: "Message \<Rightarrow> Node \<Rightarrow> Node option" where
  "handleVoteResp m n =
     (if n_role n \<noteq> Candidate then Some n
      else
        let n = (if \<not> m_Reject m \<and> m_From m \<in> n_voters n
                 then n\<lparr>n_votes := insert (m_From m) (n_votes n)\<rparr> else n)
        in if card (n_votes n) \<ge> quorum n then becomeLeader n else Some n)"

text \<open>The entries a proposal appends: indices from \<open>i\<close>, the current term, the offered data.\<close>

fun propose_entries :: "nat \<Rightarrow> nat \<Rightarrow> Entry list \<Rightarrow> Entry list" where
  "propose_entries i t [] = []"
| "propose_entries i t (e # es) =
     \<lparr>e_Type = EntryNormal, e_Index = i, e_Term = t, e_Data = e_Data e\<rparr> # propose_entries (i + 1) t es"

definition handlePropose :: "Message \<Rightarrow> Node \<Rightarrow> (raft_error option \<times> Node) option" where
  "handlePropose m n =
     (if n_role n \<noteq> Leader then Some (Some ErrNotLeader, n)
      else if n_transferee n \<noteq> 0 then Some (Some ErrNotLeader, n)
      else do {
        l \<leftarrow> log_append (propose_entries (lastIndex (n_log n) + 1) (n_term n) (m_Entries m)) (n_log n);
        (_, n) \<leftarrow> maybeCommit (n\<lparr>n_log := l\<rparr>);
        n \<leftarrow> bcastAppend n;
        Some (None, n)
      })"

definition ProposeConfChange :: "ConfChange \<Rightarrow> Node \<Rightarrow> (raft_error option \<times> Node) option" where
  "ProposeConfChange cc n =
     (if n_role n \<noteq> Leader then Some (Some ErrNotLeader, n)
      else if n_pendingConfIndex n > applied (n_log n) then Some (Some ErrConfInFlight, n)
      else do {
        let li = lastIndex (n_log n);
        l \<leftarrow> log_append [\<lparr>e_Type = EntryConfChange, e_Index = li + 1, e_Term = n_term n,
                e_Data = ConfChange_Encode cc\<rparr>] (n_log n);
        (_, n) \<leftarrow> maybeCommit (n\<lparr>n_log := l, n_pendingConfIndex := li + 1\<rparr>);
        n \<leftarrow> bcastAppend n;
        Some (None, n)
      })"

text \<open>The dispatch of \<^verbatim>\<open>Step\<close> after the term comparison.\<close>

definition dispatch :: "Message \<Rightarrow> Node \<Rightarrow> Node option" where
  "dispatch m n =
     (case m_Type m of
        MsgVote \<Rightarrow> handleVote m n
      | MsgVoteResp \<Rightarrow> handleVoteResp m n
      | MsgApp \<Rightarrow> handleApp m n
      | MsgAppResp \<Rightarrow> handleAppResp m n
      | MsgTimeoutNow \<Rightarrow> if n_id n \<in> n_voters n then startElection n else Some n
      | _ \<Rightarrow> Some n)"

definition Step :: "Message \<Rightarrow> Node \<Rightarrow> (raft_error option \<times> Node) option" where
  "Step m n =
     (if m_Type m = MsgProp then handlePropose m n
      else if m_Type m = MsgPreVote then do { n \<leftarrow> handlePreVote m n; Some (None, n) }
      else if m_Type m = MsgPreVoteResp then do { n \<leftarrow> handlePreVoteResp m n; Some (None, n) }
      else if m_Term m < n_term n then
        Some (None, if m_Type m = MsgVote
                    then send ((msg0 MsgVoteResp (m_From m))\<lparr>m_Reject := True\<rparr>) n else n)
      else do {
        n \<leftarrow> (if m_Term m > n_term n
              then becomeFollower (m_Term m) (if m_Type m = MsgApp then m_From m else 0) n
              else Some n);
        n \<leftarrow> dispatch m n;
        Some (None, n)
      })"

definition Propose :: "bytes \<Rightarrow> Node \<Rightarrow> (raft_error option \<times> Node) option" where
  "Propose data n =
     Step ((msg0 MsgProp 0)\<lparr>m_Entries := [\<lparr>e_Type = EntryNormal, e_Index = 0, e_Term = 0, e_Data = data\<rparr>]\<rparr>) n"

section \<open>Ready, Advance and the lifecycle\<close>

definition hardState :: "Node \<Rightarrow> HardState" where
  "hardState n = \<lparr>hs_Term = n_term n, hs_Vote = n_vote n, hs_Commit = committed (n_log n)\<rparr>"

definition readyReadStates :: "Node \<Rightarrow> ReadState list" where
  "readyReadStates n = filter (\<lambda>r. r_Index r \<le> applied (n_log n)) (n_readReady n)"

definition HasReady :: "Node \<Rightarrow> bool" where
  "HasReady n \<longleftrightarrow>
     n_msgs n \<noteq> [] \<or> hardState n \<noteq> n_prevHard n
     \<or> lastIndex (n_log n) > n_stabled n
     \<or> min (committed (n_log n)) (n_stabled n) > applied (n_log n)
     \<or> readyReadStates n \<noteq> []"

definition Node_Ready :: "Node \<Rightarrow> (Ready \<times> Node) option" where
  "Node_Ready n = do {
     let hs = (if hardState n \<noteq> n_prevHard n then Some (hardState n) else None);
     ents \<leftarrow> (if lastIndex (n_log n) > n_stabled n
             then slice (n_stabled n + 1) (lastIndex (n_log n) + 1) (n_log n) else Some []);
     let applyTo = min (committed (n_log n)) (n_stabled n);
     com \<leftarrow> (if applyTo > applied (n_log n)
            then slice (applied (n_log n) + 1) (applyTo + 1) (n_log n) else Some []);
     Some (\<lparr>rd_HardState = hs, rd_Entries = ents, rd_CommittedEntries = com, rd_Messages = n_msgs n,
            rd_ReadStates = readyReadStates n\<rparr>, n\<lparr>n_msgs := []\<rparr>)
   }"

fun apply_conf_entries :: "Entry list \<Rightarrow> Node \<Rightarrow> Node" where
  "apply_conf_entries [] n = n"
| "apply_conf_entries (e # es) n =
     apply_conf_entries es
       (if e_Type e = EntryConfChange then
          (case decodeConfChange (e_Data e) of None \<Rightarrow> n | Some cc \<Rightarrow> applyConfChange cc n)
        else n)"

definition Advance :: "Ready \<Rightarrow> Node \<Rightarrow> Node option" where
  "Advance rd n = do {
     let n = (case rd_HardState rd of None \<Rightarrow> n | Some hs \<Rightarrow> n\<lparr>n_prevHard := hs\<rparr>);
     n \<leftarrow> (if rd_Entries rd \<noteq> [] then do {
             (_, n) \<leftarrow> maybeCommit (n\<lparr>n_stabled := e_Index (last (rd_Entries rd))\<rparr>);
             Some n
           } else Some n);
     n \<leftarrow> (if rd_CommittedEntries rd \<noteq> [] then do {
             let n = apply_conf_entries (rd_CommittedEntries rd) n;
             l \<leftarrow> appliedTo (e_Index (last (rd_CommittedEntries rd))) (n_log n);
             Some (n\<lparr>n_log := l\<rparr>)
           } else Some n);
     Some (n\<lparr>n_readReady := filter (\<lambda>r. r_ID r \<notin> r_ID ` set (rd_ReadStates rd)) (n_readReady n)\<rparr>)
   }"

definition RestoreSnapshot :: "nat \<Rightarrow> nat \<Rightarrow> Node \<Rightarrow> bool \<times> Node" where
  "RestoreSnapshot index t n =
     (if index \<le> committed (n_log n) \<and> index \<le> snapIndex (n_log n) then (False, n)
      else if index \<le> applied (n_log n) then (False, n)
      else
        let n = n\<lparr>n_log := \<lparr>entries = [], offset = index + 1, snapIndex = index, snapTerm = t,
                    committed = index, applied = index\<rparr>,
                  n_stabled := index, n_role := Follower\<rparr>
        in (True, if n_lead n \<noteq> 0
                  then send ((msg0 MsgAppResp (n_lead n))\<lparr>m_LogIndex := index\<rparr>) n else n))"

definition CompactTo :: "nat \<Rightarrow> Node \<Rightarrow> Node option" where
  "CompactTo index n = do { l \<leftarrow> compactTo index (n_log n); Some (n\<lparr>n_log := l\<rparr>) }"

definition Entries :: "Node \<Rightarrow> Entry list option" where
  "Entries n = slice (firstIndex (n_log n)) (lastIndex (n_log n) + 1) (n_log n)"

definition HardStateNow :: "Node \<Rightarrow> HardState" where
  "HardStateNow n = hardState n"

text \<open>The membership rebuild of \<^verbatim>\<open>newNode\<close> over the recovered entries.\<close>

fun rebuild_conf :: "nat \<Rightarrow> Entry list \<Rightarrow> Node \<Rightarrow> Node" where
  "rebuild_conf i [] n = n"
| "rebuild_conf i (e # es) n =
     rebuild_conf (i + 1) es
       (if e_Type e = EntryConfChange then
          (case decodeConfChange (e_Data e) of
             None \<Rightarrow> n
           | Some cc \<Rightarrow>
               let n = applyConfChange cc n
               in if i > applied (n_log n) then n\<lparr>n_pendingConfIndex := i\<rparr> else n)
        else n)"

text \<open>The node literal of \<^verbatim>\<open>newNode\<close>, with its log and hard state filled in.\<close>

definition initNode :: "Config \<Rightarrow> HardState \<Rightarrow> raftLog \<Rightarrow> Node" where
  "initNode cfg hs l =
     \<lparr>n_id = c_ID cfg, n_peers = [], n_role = Follower, n_term = hs_Term hs,
      n_vote = hs_Vote hs, n_lead = 0, n_voters = set (c_Peers cfg), n_learners = {},
      n_pendingConfIndex = 0, n_transferee = 0, n_log = l,
      n_votes = {}, n_preVotes = {}, n_next = Map.empty, n_match = Map.empty,
      n_msgs = [], n_stabled = lastIndex l,
      n_prevHard = \<lparr>hs_Term = 0, hs_Vote = 0, hs_Commit = 0\<rparr>,
      n_electionTick = (if c_ElectionTick cfg \<le> 0 then 10 else c_ElectionTick cfg),
      n_heartbeatTick = (if c_HeartbeatTick cfg \<le> 0 then 1 else c_HeartbeatTick cfg),
      n_rand = c_Rand cfg, n_randCalls = 0, n_randSeq = 0, n_electionElapsed = 0,
      n_heartbeatElapse = 0, n_randomTimeout = 0, n_readReady = [], n_roundReads = [],
      n_pendingReads = [], n_readAcks = {}, n_leaseAcks = None, n_leaseElapsed = 0,
      n_useLease = c_LeaseRead cfg\<rparr>"

definition recoverLog :: "Recovered \<Rightarrow> nat \<Rightarrow> raftLog option" where
  "recoverLog rcv appliedIndex = do {
     let hs = rec_HardState rcv;
     let l0 = (if rec_SnapIndex rcv > 0
               then newLog\<lparr>offset := rec_SnapIndex rcv + 1, snapIndex := rec_SnapIndex rcv,
                      snapTerm := rec_SnapTerm rcv, committed := rec_SnapIndex rcv,
                      applied := rec_SnapIndex rcv\<rparr>
               else newLog);
     l \<leftarrow> log_append (rec_Entries rcv) l0;
     l \<leftarrow> (if hs_Commit hs > 0 then commitTo (hs_Commit hs) l else Some l);
     if appliedIndex > committed l then None
     else if appliedIndex < rec_SnapIndex rcv then None
     else Some (l\<lparr>applied := appliedIndex\<rparr>)
   }"

definition newNode :: "Config \<Rightarrow> Recovered \<Rightarrow> nat \<Rightarrow> Node option" where
  "newNode cfg rcv appliedIndex =
     (if c_ID cfg \<notin> set (c_Peers cfg) then None
      else do {
        l \<leftarrow> recoverLog rcv appliedIndex;
        let n = rebuildPeers (initNode cfg (rec_HardState rcv) l);
        let n = rebuild_conf (firstIndex l) (entries l) n;
        Some (resetElectionTimer (n\<lparr>n_prevHard := hardState n\<rparr>))
      })"

definition RestoreNode :: "Config \<Rightarrow> Recovered \<Rightarrow> nat \<Rightarrow> Node option" where
  "RestoreNode cfg rcv appliedIndex = newNode cfg rcv appliedIndex"

definition empty_recovered :: Recovered where
  "empty_recovered = \<lparr>rec_HardState = \<lparr>hs_Term = 0, hs_Vote = 0, hs_Commit = 0\<rparr>, rec_SnapIndex = 0,
     rec_SnapTerm = 0, rec_Entries = []\<rparr>"

definition NewNodeConfig :: "Config \<Rightarrow> Node option" where
  "NewNodeConfig cfg = newNode cfg empty_recovered 0"

definition NewNode :: "nat \<Rightarrow> nat list \<Rightarrow> Node option" where
  "NewNode i peers = NewNodeConfig \<lparr>c_ID = i, c_Peers = peers, c_ElectionTick = 0, c_HeartbeatTick = 0,
     c_Rand = None, c_LeaseRead = False\<rparr>"

end
