(* ===== verification/RaftElection.thy ===== *)
theory RaftElection
  imports RaftNode
begin

text \<open>
  Election safety of the raft core: at most one member wins an election in a term, in a network
  that loses, duplicates and reorders messages, with members that crash at any point and restart
  from what they persisted.  Membership is fixed: no configuration change is applied.

  The first part shows what each method of \<^verbatim>\<open>raft.go\<close> can do to the voting state of its node
  (\<open>quiet\<close>, \<open>evolves\<close>); the second part runs the methods in a network and carries the invariant.
\<close>

named_theorems quiet_intros

section \<open>Effects on the voting state\<close>

text \<open>A ballot is a message that carries a vote: a candidacy, or a granted response.\<close>

definition ballot :: "Message \<Rightarrow> bool" where
  "ballot b \<longleftrightarrow> m_Type b = MsgVote \<or> m_Type b = MsgVoteResp \<and> \<not> m_Reject b"

definition choice :: "Message \<Rightarrow> nat" where
  "choice b = (if m_Type b = MsgVote then m_From b else m_To b)"

definition same_member :: "Node \<Rightarrow> Node \<Rightarrow> bool" where
  "same_member n n' \<longleftrightarrow> n_id n' = n_id n \<and> n_voters n' = n_voters n \<and> n_learners n' = n_learners n
     \<and> n_peers n' = n_peers n \<and> n_prevHard n' = n_prevHard n"

text \<open>Nothing about voting changes, except that the node may step down.\<close>

definition quiet :: "Node \<Rightarrow> Node \<Rightarrow> bool" where
  "quiet n n' \<longleftrightarrow> same_member n n' \<and> n_term n' = n_term n \<and> n_vote n' = n_vote n
     \<and> n_votes n' = n_votes n \<and> (n_role n' = n_role n \<or> n_role n' = Follower)
     \<and> (\<exists>new. n_msgs n' = n_msgs n @ new \<and> (\<forall>b\<in>set new. m_From b = n_id n \<and> \<not> ballot b))"

lemma quiet_refl [simp, intro]: "quiet n n"
  by (auto simp: quiet_def same_member_def)

lemma quiet_trans: "quiet a b \<Longrightarrow> quiet b c \<Longrightarrow> quiet a c"
  by (auto simp: quiet_def same_member_def)

lemma quiet_send:
  "quiet a n \<Longrightarrow> \<not> ballot m \<Longrightarrow> quiet a (send m n)"
  by (auto simp: quiet_def same_member_def send_def Let_def ballot_def)

lemma quiet_bind:
  assumes "f n = Some n'" "\<And>n'. f n = Some n' \<Longrightarrow> quiet n n'" "quiet a n"
  shows "quiet a n'"
  using assms quiet_trans by blast

lemma ballot_msg0 [simp]:
  "ballot (msg0 t to) \<longleftrightarrow> t = MsgVote \<or> t = MsgVoteResp" "m_Type (msg0 t to) = t"
  "m_From (msg0 t to) = 0" "m_To (msg0 t to) = to" "m_Term (msg0 t to) = 0"
  by (auto simp: ballot_def msg0_def)

lemma quiet_sendAppend: "sendAppend to n = Some n' \<Longrightarrow> quiet n n'"
  by (auto simp: sendAppend_def Let_def quiet_def same_member_def send_def ballot_def
      bind_eq_Some_conv split: option.splits if_splits)

lemma quiet_for_peers:
  assumes "\<And>p n n'. f p n = Some n' \<Longrightarrow> quiet n n'" "for_peers f ps n = Some n'"
  shows "quiet n n'"
  using assms(2)
proof (induction ps arbitrary: n)
  case (Cons p ps)
  then show ?case
    using assms(1) quiet_trans by (auto simp: bind_eq_Some_conv split: if_splits) blast
qed simp

lemma quiet_bcastAppend: "bcastAppend n = Some n' \<Longrightarrow> quiet n n'"
  unfolding bcastAppend_def using quiet_for_peers quiet_sendAppend by blast

lemma quiet_fields:
  assumes "n_id n' = n_id n" "n_voters n' = n_voters n" "n_learners n' = n_learners n"
    "n_peers n' = n_peers n" "n_prevHard n' = n_prevHard n" "n_term n' = n_term n"
    "n_vote n' = n_vote n" "n_votes n' = n_votes n" "n_role n' = n_role n \<or> n_role n' = Follower"
    "n_msgs n' = n_msgs n"
  shows "quiet n n'"
  using assms by (auto simp: quiet_def same_member_def)

lemma quiet_bcastHeartbeat:
  assumes "bcastHeartbeat n = Some n'"
  shows "quiet n n'"
proof -
  have "quiet n (if roundActive n then n\<lparr>n_readAcks := {n_id n}\<rparr> else n)"
    by (auto intro: quiet_fields)
  then show ?thesis
    using assms quiet_bcastAppend quiet_trans unfolding bcastHeartbeat_def by blast
qed

lemma maybeCommit_cases:
  assumes "maybeCommit n = Some (b, n')"
  obtains (unchanged) "n' = n" "\<not> b" "n_role n \<noteq> Leader"
  | (blocked) m where "n' = n\<lparr>n_match := m\<rparr>" "\<not> b" "n_role n = Leader"
  | (moved) m l where "n' = n\<lparr>n_match := m, n_log := l\<rparr>" "b" "n_role n = Leader"
      "commitTo (matches (n\<lparr>n_match := m\<rparr>) ! (quorum n - 1)) (n_log n) = Some l"
      "m = (n_match n)(n_id n \<mapsto> min (n_stabled n) (lastIndex (n_log n)))"
      "log_term (n_log n) (matches (n\<lparr>n_match := m\<rparr>) ! (quorum n - 1)) = Some (n_term n)"
      "quorum n - 1 < length (matches (n\<lparr>n_match := m\<rparr>))"
      "committed (n_log n) < matches (n\<lparr>n_match := m\<rparr>) ! (quorum n - 1)"
proof -
  let ?m = "(n_match n)(n_id n \<mapsto> min (n_stabled n) (lastIndex (n_log n)))"
  have q: "quorum (n\<lparr>n_match := ?m\<rparr>) = quorum n" by (simp add: quorum_def)
  show ?thesis
    using assms unfolding maybeCommit_def Let_def q
    by (simp add: bind_eq_Some_conv not_le del: One_nat_def split: if_splits) (use that in blast)+
qed

lemma quiet_maybeCommit:
  assumes "maybeCommit n = Some (b, n')"
  shows "quiet n n'"
  using assms by (cases rule: maybeCommit_cases) (simp_all add: quiet_def same_member_def)

lemma quiet_readRound:
  "maybeStartReadRound n = Some n' \<Longrightarrow> quiet n n'" "confirmReadRound m = Some m' \<Longrightarrow> quiet m m'"
proof (induction n and m arbitrary: n' and m' rule: maybeStartReadRound_confirmReadRound.induct)
  case (1 n)
  let ?n = "n\<lparr>n_roundReads := n_pendingReads n, n_pendingReads := [], n_readAcks := {n_id n}\<rparr>"
  have q: "quiet n ?n" by (rule quiet_fields) auto
  note unfold = maybeStartReadRound.simps [of n, unfolded Let_def]
  show ?case
  proof (cases "roundActive n \<or> n_pendingReads n = [] \<or> n_role n \<noteq> Leader")
    case True
    then show ?thesis using "1.prems" unfolding unfold by simp
  next
    case False
    note IH = "1.IH" [OF False refl] and step = unfold [unfolded if_not_P [OF False]]
    consider (lease) "n_useLease ?n \<and> n_leaseElapsed ?n < n_electionTick ?n"
      | (alone) "\<not> (n_useLease ?n \<and> n_leaseElapsed ?n < n_electionTick ?n)" "quorum ?n \<le> card (n_readAcks ?n)"
      | (round) "\<not> (n_useLease ?n \<and> n_leaseElapsed ?n < n_electionTick ?n)" "\<not> quorum ?n \<le> card (n_readAcks ?n)"
      by blast
    then show ?thesis
    proof cases
      case lease
      then have "confirmReadRound ?n = Some n'" using "1.prems" unfolding step by (simp only: if_True simp_thms)
      then show ?thesis using IH(1) [OF lease] q quiet_trans by blast
    next
      case alone
      then have "confirmReadRound ?n = Some n'"
        using "1.prems" unfolding step by (simp only: if_True if_False simp_thms)
      then show ?thesis using IH(2) [OF alone] q quiet_trans by blast
    next
      case round
      then have "bcastHeartbeat ?n = Some n'"
        using "1.prems" unfolding step by (simp only: if_True if_False simp_thms)
      then show ?thesis using quiet_bcastHeartbeat q quiet_trans by blast
    qed
  qed
next
  case (2 n)
  let ?n = "n\<lparr>n_readReady := n_readReady n @ toReadStates (n_roundReads n), n_roundReads := [], n_readAcks := {}\<rparr>"
  have "quiet n ?n" by (rule quiet_fields) auto
  then show ?case using 2 quiet_trans unfolding confirmReadRound.simps [of n] by blast
qed

lemma quiet_renewLeaseAck: "quiet n (renewLeaseAck f n)"
  by (rule quiet_fields) (auto simp: renewLeaseAck_def Let_def)

lemma quiet_resetElectionTimer: "quiet n (resetElectionTimer n)"
  by (rule quiet_fields)
    (auto simp: resetElectionTimer_def intn_def Let_def split: prod.splits option.splits if_splits)

lemma quiet_ackReads:
  assumes "ackReads f n = Some n'"
  shows "quiet n n'"
proof -
  have "quiet n (n\<lparr>n_readAcks := insert f (n_readAcks n)\<rparr>)"
    by (rule quiet_fields) auto
  then show ?thesis
    using assms quiet_readRound(2) quiet_trans
    by (auto simp: ackReads_def Let_def split: if_splits)
qed

lemma quiet_upd [quiet_intros]:
  assumes "quiet a n"
  shows "quiet a (n\<lparr>n_log := l\<rparr>)" "quiet a (n\<lparr>n_next := f\<rparr>)" "quiet a (n\<lparr>n_match := f\<rparr>)"
    "quiet a (n\<lparr>n_readAcks := s\<rparr>)" "quiet a (n\<lparr>n_transferee := k\<rparr>)" "quiet a (n\<lparr>n_pendingReads := rs\<rparr>)"
    "quiet a (n\<lparr>n_pendingConfIndex := k\<rparr>)" "quiet a (n\<lparr>n_lead := k\<rparr>)" "quiet a (n\<lparr>n_preVotes := s\<rparr>)"
    "quiet a (n\<lparr>n_electionElapsed := i\<rparr>)" "quiet a (n\<lparr>n_leaseElapsed := i\<rparr>)"
    "quiet a (n\<lparr>n_heartbeatElapse := i\<rparr>)" "quiet a (n\<lparr>n_stabled := k\<rparr>)" "quiet a (n\<lparr>n_role := Follower\<rparr>)"
  using assms by (simp_all add: quiet_def same_member_def)

lemma quiet_upd_calls [quiet_intros]:
  assumes "quiet a n"
  shows "quiet a (resetElectionTimer n)" "quiet a (renewLeaseAck t n)"
    "m_Type m \<noteq> MsgVote \<Longrightarrow> m_Type m \<noteq> MsgVoteResp \<or> m_Reject m \<Longrightarrow> quiet a (send m n)"
  by (rule quiet_trans [OF assms quiet_resetElectionTimer], rule quiet_trans [OF assms quiet_renewLeaseAck],
      rule quiet_send [OF assms]) (auto simp: ballot_def)

text \<open>Calls that may panic, in the form a chain of binds needs.\<close>

lemmas quiet_calls =
  quiet_trans [OF _ quiet_sendAppend, rotated] quiet_trans [OF _ quiet_bcastAppend, rotated]
  quiet_trans [OF _ quiet_bcastHeartbeat, rotated] quiet_trans [OF _ quiet_maybeCommit, rotated]
  quiet_trans [OF _ quiet_readRound(1), rotated] quiet_trans [OF _ quiet_ackReads, rotated]

lemma quiet_handleApp: "handleApp m n = Some n' \<Longrightarrow> quiet n n'"
  by (auto simp: handleApp_def Let_def bind_eq_Some_conv intro!: quiet_intros intro: quiet_calls split: option.splits)

lemma quiet_recordMatch: "recordMatch f li n = Some n' \<Longrightarrow> quiet n n'"
  by (auto simp: recordMatch_def bind_eq_Some_conv intro!: quiet_intros intro: quiet_calls split: if_splits)

lemma quiet_handleAppResp: "handleAppResp m n = Some n' \<Longrightarrow> quiet n n'"
  unfolding handleAppResp_def
  by (auto simp: bind_eq_Some_conv intro!: quiet_intros intro: quiet_calls quiet_recordMatch split: if_splits)

lemma quiet_TransferLeader: "TransferLeader t n = Some (b, n') \<Longrightarrow> quiet n n'"
  by (auto simp: TransferLeader_def Let_def bind_eq_Some_conv intro!: quiet_intros intro: quiet_calls split: if_splits)

lemma quiet_ReadIndex: "ReadIndex i n = Some (b, n') \<Longrightarrow> quiet n n'"
  by (auto simp: ReadIndex_def bind_eq_Some_conv intro!: quiet_intros intro: quiet_calls split: if_splits)

lemma quiet_handlePropose: "handlePropose m n = Some (e, n') \<Longrightarrow> quiet n n'"
  by (auto simp: handlePropose_def bind_eq_Some_conv intro!: quiet_intros intro: quiet_calls split: if_splits)

lemma quiet_ProposeConfChange: "ProposeConfChange cc n = Some (e, n') \<Longrightarrow> quiet n n'"
  by (auto simp: ProposeConfChange_def bind_eq_Some_conv Let_def intro!: quiet_intros intro: quiet_calls split: if_splits)

lemma quiet_handlePreVote: "handlePreVote m n = Some n' \<Longrightarrow> quiet n n'"
  by (auto simp: handlePreVote_def bind_eq_Some_conv intro!: quiet_intros intro: quiet_calls split: if_splits)

lemma quiet_bcastPreVote: "bcastVote MsgPreVote t n = Some n' \<Longrightarrow> quiet n n'"
  unfolding bcastVote_def
  by (erule quiet_for_peers [rotated]) (auto simp: bind_eq_Some_conv intro!: quiet_intros intro: quiet_calls)

lemma quiet_CompactTo: "CompactTo i n = Some n' \<Longrightarrow> quiet n n'"
  by (auto simp: CompactTo_def bind_eq_Some_conv intro!: quiet_intros intro: quiet_calls)

lemma quiet_RestoreSnapshot: "RestoreSnapshot i t n = (b, n') \<Longrightarrow> quiet n n'"
  by (auto simp: RestoreSnapshot_def Let_def intro!: quiet_intros intro: quiet_calls split: if_splits)

section \<open>Evolution of the voting state\<close>

text \<open>
  What one call does to the voting state, given the message \<open>r\<close> it handles if any: the term only
  grows, a cast vote is kept within its term, every ballot sent carries the node's current vote at
  its current term and answers a candidacy, a counted vote is the node's own or comes from a
  granted response of this term, and leadership is only taken with a quorum of counted votes.
\<close>

definition evolves :: "Message option \<Rightarrow> Node \<Rightarrow> Node \<Rightarrow> bool" where
  "evolves r n n' \<longleftrightarrow> same_member n n' \<and> n_term n \<le> n_term n'
     \<and> (n_term n' = n_term n \<longrightarrow> n_vote n \<noteq> 0 \<longrightarrow> n_vote n' = n_vote n)
     \<and> (\<exists>new. n_msgs n' = n_msgs n @ new
          \<and> (\<forall>b\<in>set new. m_From b = n_id n
               \<and> (ballot b \<longrightarrow> m_Term b = n_term n' \<and> choice b = n_vote n')
               \<and> (ballot b \<and> m_Type b = MsgVoteResp \<longrightarrow>
                    (\<exists>m. r = Some m \<and> m_Type m = MsgVote \<and> m_Term m = m_Term b \<and> m_From m = m_To b))))
     \<and> (\<forall>v\<in>n_votes n' - {n_id n}. v \<in> n_votes n \<and> n_term n' = n_term n
          \<or> (\<exists>m. r = Some m \<and> m_Type m = MsgVoteResp \<and> \<not> m_Reject m \<and> m_From m = v \<and> m_Term m = n_term n'))
     \<and> (n_role n' = Leader \<longrightarrow> n_role n = Leader \<and> n_term n' = n_term n \<or> quorum n' \<le> card (n_votes n'))
     \<and> (n_role n' = Candidate \<longrightarrow> n_role n = Candidate \<or> n_id n \<in> n_voters n)
     \<and> (n_votes n' \<subseteq> n_votes n \<union> n_voters n)"

lemma quiet_evolves: "quiet n n' \<Longrightarrow> evolves r n n'"
  by (auto simp: quiet_def evolves_def)

lemma evolves_quiet:
  assumes "evolves r n n1" "quiet n1 n2"
  shows "evolves r n n2"
proof -
  have "quorum n2 = quorum n1"
    using assms(2) by (simp add: quiet_def same_member_def quorum_def)
  then show ?thesis
    using assms by (auto simp: quiet_def evolves_def same_member_def)
qed

text \<open>A call that first only changes term and role, sending nothing.\<close>

definition steps_down :: "Node \<Rightarrow> Node \<Rightarrow> bool" where
  "steps_down n n' \<longleftrightarrow> same_member n n' \<and> n_term n < n_term n' \<and> n_msgs n' = n_msgs n \<and> n_votes n' = {}
     \<and> n_role n' = Follower \<and> n_vote n' = 0"

lemma steps_down_evolves:
  "steps_down n n1 \<Longrightarrow> evolves r n1 n2 \<Longrightarrow> evolves r n n2"
  by (auto simp: steps_down_def evolves_def same_member_def)

lemma resetElectionTimer_shape:
  "\<exists>c s t. resetElectionTimer n = n\<lparr>n_electionElapsed := 0, n_randCalls := c, n_randSeq := s, n_randomTimeout := t\<rparr>"
proof -
  have "\<exists>c s. snd (intn hi m) = m\<lparr>n_randCalls := c, n_randSeq := s\<rparr>" for hi m
    by (cases m, auto simp: intn_def Let_def split: option.splits)
  then obtain c s where "snd (intn (n_electionTick n) (n\<lparr>n_electionElapsed := 0\<rparr>)) =
      n\<lparr>n_electionElapsed := 0, n_randCalls := c, n_randSeq := s\<rparr>" by metis
  moreover obtain k m where "intn (n_electionTick n) (n\<lparr>n_electionElapsed := 0\<rparr>) = (k, m)" by fastforce
  ultimately show ?thesis by (simp add: resetElectionTimer_def) blast
qed

lemma resetElectionTimer_fields [simp]:
  "n_id (resetElectionTimer n) = n_id n" "n_voters (resetElectionTimer n) = n_voters n"
  "n_learners (resetElectionTimer n) = n_learners n" "n_peers (resetElectionTimer n) = n_peers n"
  "n_prevHard (resetElectionTimer n) = n_prevHard n" "n_term (resetElectionTimer n) = n_term n"
  "n_vote (resetElectionTimer n) = n_vote n" "n_votes (resetElectionTimer n) = n_votes n"
  "n_preVotes (resetElectionTimer n) = n_preVotes n" "n_role (resetElectionTimer n) = n_role n"
  "n_msgs (resetElectionTimer n) = n_msgs n" "n_log (resetElectionTimer n) = n_log n"
  "n_stabled (resetElectionTimer n) = n_stabled n" "n_match (resetElectionTimer n) = n_match n"
  "n_next (resetElectionTimer n) = n_next n"
  using resetElectionTimer_shape [of n] by (elim exE; simp)+

lemma becomeFollower_steps_down: "n_term n < t \<Longrightarrow> becomeFollower t l n = Some n' \<Longrightarrow> steps_down n n'"
  by (auto simp: becomeFollower_def reset_def Let_def steps_down_def same_member_def)

lemma becomeCandidate_facts:
  assumes "becomeCandidate n = Some n'"
  shows "same_member n n'" "n_term n' = Suc (n_term n)" "n_vote n' = n_id n" "n_votes n' = {n_id n}"
    "n_role n' = Candidate" "n_msgs n' = n_msgs n" "n_role n \<noteq> Leader" "n_log n' = n_log n"
  using assms by (auto simp: becomeCandidate_def reset_def Let_def same_member_def split: if_splits)

lemma becomeLeader_quiet:
  assumes "becomeLeader n = Some n'"
  shows "\<exists>n1. quiet n1 n' \<and> same_member n n1 \<and> n_term n1 = n_term n \<and> n_vote n1 = n_vote n
    \<and> n_votes n1 = n_votes n \<and> n_role n1 = Leader \<and> n_msgs n1 = n_msgs n" "n_role n = Candidate"
proof -
  show "n_role n = Candidate" using assms by (auto simp: becomeLeader_def split: if_splits)
  let ?n1 = "\<lambda>l. n\<lparr>n_role := Leader, n_lead := n_id n, n_transferee := 0, n_heartbeatElapse := 0,
      n_leaseElapsed := 0, n_leaseAcks := None, n_roundReads := [], n_pendingReads := [],
      n_readAcks := {},
      n_next := (\<lambda>p. if p \<in> set (n_peers n) then Some (lastIndex (n_log n) + 1) else None),
      n_match := (\<lambda>p. if p \<in> set (n_peers n) then Some 0 else None), n_log := l\<rparr>"
  obtain l b n2 where "maybeCommit (?n1 l) = Some (b, n2)" "bcastHeartbeat n2 = Some n'"
    using assms by (auto simp: becomeLeader_def Let_def bind_eq_Some_conv split: if_splits)
  then have "quiet (?n1 l) n'"
    using quiet_maybeCommit quiet_bcastHeartbeat quiet_trans by blast
  then show "\<exists>n1. quiet n1 n' \<and> same_member n n1 \<and> n_term n1 = n_term n \<and> n_vote n1 = n_vote n
    \<and> n_votes n1 = n_votes n \<and> n_role n1 = Leader \<and> n_msgs n1 = n_msgs n"
    by (intro exI [of _ "?n1 l"]) (simp add: same_member_def)
qed

text \<open>Winning: from a candidate with a quorum of counted votes.\<close>

lemma becomeLeader_evolves:
  assumes "becomeLeader n1 = Some n'" "evolves r n n1" "quorum n1 \<le> card (n_votes n1)"
  shows "evolves r n n'"
proof -
  obtain n2 where n2: "quiet n2 n'" "same_member n1 n2" "n_term n2 = n_term n1" "n_vote n2 = n_vote n1"
    "n_votes n2 = n_votes n1" "n_role n2 = Leader" "n_msgs n2 = n_msgs n1"
    using becomeLeader_quiet(1) [OF assms(1)] by blast
  have "quorum n2 = quorum n1" using n2(2) by (simp add: same_member_def quorum_def)
  then have "evolves r n n2"
    using assms(2,3) n2 by (auto simp: evolves_def same_member_def)
  then show ?thesis using n2(1) evolves_quiet by blast
qed

lemma bcastVote_msgs:
  assumes "for_peers (\<lambda>p n. do { lt \<leftarrow> lastTerm (n_log n);
      Some (send ((msg0 t p)\<lparr>m_Term := tm, m_LogIndex := lastIndex (n_log n), m_LogTerm := lt\<rparr>) n) }) ps n = Some n'"
    "0 < tm"
  shows "\<exists>new. n' = n\<lparr>n_msgs := n_msgs n @ new\<rparr>
    \<and> (\<forall>b\<in>set new. m_Type b = t \<and> m_From b = n_id n \<and> m_Term b = tm \<and> \<not> m_Reject b)
    \<and> m_To ` set new = set ps - {n_id n}"
  using assms(1)
proof (induction ps arbitrary: n)
  case Nil
  then show ?case by (auto intro!: exI [of _ "[]"])
next
  case (Cons p ps)
  show ?case
  proof (cases "p = n_id n")
    case True
    then show ?thesis using Cons by auto
  next
    case False
    obtain lt where lt: "lastTerm (n_log n) = Some lt"
      using Cons.prems False by (auto simp: bind_eq_Some_conv)
    define b where "b = (msg0 t p)\<lparr>m_Term := tm, m_LogIndex := lastIndex (n_log n), m_LogTerm := lt, m_From := n_id n\<rparr>"
    have s: "send ((msg0 t p)\<lparr>m_Term := tm, m_LogIndex := lastIndex (n_log n), m_LogTerm := lt\<rparr>) n =
        n\<lparr>n_msgs := n_msgs n @ [b]\<rparr>"
      using assms(2) by (simp add: send_def b_def msg0_def)
    obtain new where new: "n' = n\<lparr>n_msgs := (n_msgs n @ [b]) @ new\<rparr>"
      "\<forall>b\<in>set new. m_Type b = t \<and> m_From b = n_id n \<and> m_Term b = tm \<and> \<not> m_Reject b"
      "m_To ` set new = set ps - {n_id n}"
      using Cons.IH [of "n\<lparr>n_msgs := n_msgs n @ [b]\<rparr>"] Cons.prems False lt s by auto
    then show ?thesis using False
      by (intro exI [of _ "b # new"]) (auto simp: b_def msg0_def)
  qed
qed

lemma startElection_evolves:
  assumes "startElection n = Some n'" "n_id n \<in> n_voters n"
  shows "evolves r n n'"
proof -
  obtain n1 where n1: "becomeCandidate n = Some n1"
    "(if card (n_votes n1) \<ge> quorum n1 then becomeLeader n1 else bcastVote MsgVote (n_term n1) n1) = Some n'"
    using assms(1) by (auto simp: startElection_def bind_eq_Some_conv)
  note c = becomeCandidate_facts [OF n1(1)]
  have e: "evolves r n n1" using c assms(2) by (auto simp: evolves_def)
  show ?thesis
  proof (cases "card (n_votes n1) \<ge> quorum n1")
    case True
    then show ?thesis using n1(2) e becomeLeader_evolves by simp
  next
    case False
    then obtain new where "n' = n1\<lparr>n_msgs := n_msgs n1 @ new\<rparr>"
      "\<forall>b\<in>set new. m_Type b = MsgVote \<and> m_From b = n_id n1 \<and> m_Term b = n_term n1 \<and> \<not> m_Reject b"
      using n1(2) bcastVote_msgs [where t = MsgVote and tm = "n_term n1" and ps = "n_peers n1" and n = n1 and n' = n'] c(2) by (auto simp: bcastVote_def)
    then show ?thesis
      using e c by (auto simp: evolves_def same_member_def choice_def quorum_def)
  qed
qed

lemma evolves_refl_bump:
  assumes "same_member n n1" "n_term n1 = n_term n" "n_vote n1 = n_vote n" "n_votes n1 = n_votes n"
    "n_msgs n1 = n_msgs n" "evolves r n1 n'" "n_role n1 = n_role n \<or> n_role n1 = Candidate \<and> n_id n \<in> n_voters n"
  shows "evolves r n n'"
  using assms by (auto simp: evolves_def same_member_def)

lemma Campaign_evolves:
  assumes "Campaign n = Some n'"
  shows "evolves r n n'"
proof (cases "n_id n \<in> n_voters n")
  case False
  then show ?thesis using assms by (auto simp: Campaign_def intro: quiet_evolves)
next
  case True
  let ?n1 = "resetElectionTimer (n\<lparr>n_role := Candidate, n_lead := 0, n_preVotes := {n_id n}\<rparr>)"
  have "(if card (n_preVotes ?n1) \<ge> quorum ?n1 then startElection ?n1
         else bcastVote MsgPreVote (n_term ?n1 + 1) ?n1) = Some n'"
    using assms True by (auto simp: Campaign_def becomePreCandidate_def split: if_splits)
  then have "evolves r ?n1 n'"
    using startElection_evolves [of ?n1] quiet_bcastPreVote quiet_evolves True by (auto split: if_splits)
  then show ?thesis
    by (rule evolves_refl_bump [rotated 5]) (auto simp: same_member_def True)
qed

lemma Tick_evolves:
  assumes "Tick n = Some n'"
  shows "evolves r n n'"
proof (cases "n_role n = Leader")
  case True
  then have "quiet n n'"
    using assms by (auto simp: Tick_def Let_def intro!: quiet_intros intro: quiet_calls split: if_splits)
  then show ?thesis by (rule quiet_evolves)
next
  case False
  let ?n1 = "n\<lparr>n_electionElapsed := n_electionElapsed n + 1\<rparr>"
  have "evolves r ?n1 n'"
    using assms False Campaign_evolves [of ?n1] quiet_evolves by (auto simp: Tick_def Let_def split: if_splits)
  then show ?thesis by (rule evolves_refl_bump [rotated 5]) (auto simp: same_member_def)
qed

lemma handleVote_evolves:
  assumes "handleVote m n = Some n'" "m_Type m = MsgVote" "m_Term m = n_term n" "n_id n \<noteq> 0"
  shows "evolves (Some m) n n'"
proof -
  obtain grant where g: "(if n_vote n = 0 \<or> n_vote n = m_From m
      then isUpToDate (m_LogIndex m) (m_LogTerm m) (n_log n) else Some False) = Some grant"
    "n' = send ((msg0 MsgVoteResp (m_From m))\<lparr>m_Reject := \<not> grant\<rparr>)
       (if grant then resetElectionTimer (n\<lparr>n_vote := m_From m\<rparr>) else n)"
    using assms(1) by (auto simp: handleVote_def bind_eq_Some_conv Let_def)
  have gv: "grant \<Longrightarrow> n_vote n = 0 \<or> n_vote n = m_From m" using g(1) by (auto split: if_splits)
  show ?thesis
  proof (cases grant)
    case True
    let ?n1 = "resetElectionTimer (n\<lparr>n_vote := m_From m\<rparr>)"
    let ?b = "(msg0 MsgVoteResp (m_From m))\<lparr>m_Reject := False, m_From := n_id n, m_Term := n_term n\<rparr>"
    have "n' = ?n1\<lparr>n_msgs := n_msgs n @ [?b]\<rparr>"
      using g(2) True by (simp add: send_def msg0_def Let_def)
    then show ?thesis
      using gv [OF True] assms(2,3)
      by (auto simp: evolves_def same_member_def ballot_def choice_def)
  next
    case False
    then have "quiet n n'" using g(2) by (auto intro!: quiet_intros)
    then show ?thesis by (rule quiet_evolves)
  qed
qed

lemma handleVoteResp_evolves:
  assumes "handleVoteResp m n = Some n'" "m_Type m = MsgVoteResp" "m_Term m = n_term n"
  shows "evolves (Some m) n n'"
proof (cases "n_role n = Candidate")
  case True
  let ?n1 = "if \<not> m_Reject m \<and> m_From m \<in> n_voters n
      then n\<lparr>n_votes := insert (m_From m) (n_votes n)\<rparr> else n"
  have e: "evolves (Some m) n ?n1"
    using True assms(2,3) by (auto simp: evolves_def same_member_def)
  show ?thesis
    using assms(1) True e becomeLeader_evolves [OF _ e] by (auto simp: handleVoteResp_def Let_def split: if_splits)
next
  case False
  then show ?thesis using assms(1) by (auto simp: handleVoteResp_def intro: quiet_evolves)
qed

lemma handlePreVoteResp_evolves:
  assumes "handlePreVoteResp m n = Some n'" "n_role n = Candidate \<longrightarrow> n_id n \<in> n_voters n"
  shows "evolves r n n'"
proof -
  let ?n1 = "if \<not> m_Reject m \<and> m_From m \<in> n_voters n
      then n\<lparr>n_preVotes := insert (m_From m) (n_preVotes n)\<rparr> else n"
  have "n' = n \<or> n_role n = Candidate \<and> (n' = ?n1 \<or> startElection ?n1 = Some n')"
    using assms(1) by (auto simp: handlePreVoteResp_def Let_def split: if_splits)
  moreover have "evolves r n ?n1" by (auto intro!: quiet_evolves quiet_intros)
  moreover have "evolves r n n'" if "startElection ?n1 = Some n'" "n_role n = Candidate"
  proof -
    have "evolves r ?n1 n'" using that assms(2) by (intro startElection_evolves) auto
    then show ?thesis by (rule evolves_refl_bump [rotated 5]) (auto simp: same_member_def)
  qed
  ultimately show ?thesis using quiet_evolves by blast
qed

lemma dispatch_evolves:
  assumes "dispatch m n = Some n'" "m_Term m = n_term n" "n_id n \<noteq> 0"
  shows "evolves (Some m) n n'"
  using assms handleVote_evolves handleVoteResp_evolves quiet_handleApp quiet_handleAppResp
    startElection_evolves quiet_evolves
  by (cases "m_Type m") (auto simp: dispatch_def split: if_splits)

lemma Step_evolves:
  assumes "Step m n = Some (e, n')" "n_role n = Candidate \<longrightarrow> n_id n \<in> n_voters n" "n_id n \<noteq> 0"
  shows "evolves (Some m) n n'"
proof -
  consider (proposal) "handlePropose m n = Some (e, n')" | (prevote) "handlePreVote m n = Some n'"
    | (preresp) "handlePreVoteResp m n = Some n'"
    | (stale) "n' = n \<or> n' = send ((msg0 MsgVoteResp (m_From m))\<lparr>m_Reject := True\<rparr>) n"
    | (current) "m_Term m = n_term n" "dispatch m n = Some n'"
    | (newer) n1 l where "n_term n < m_Term m" "becomeFollower (m_Term m) l n = Some n1" "dispatch m n1 = Some n'"
    using assms(1) by (auto simp: Step_def bind_eq_Some_conv not_less le_less split: if_splits)
  then show ?thesis
  proof cases
    case newer
    note sd = becomeFollower_steps_down [OF newer(1,2)]
    have "n_term n1 = m_Term m"
      using newer(1,2) by (auto simp: becomeFollower_def reset_def Let_def)
    moreover have "n_id n1 \<noteq> 0" using sd assms(3) by (simp add: steps_down_def same_member_def)
    ultimately have "evolves (Some m) n1 n'" using newer(3) dispatch_evolves by simp
    then show ?thesis using sd steps_down_evolves by blast
  qed (use assms dispatch_evolves handlePreVoteResp_evolves in
      \<open>auto intro!: quiet_evolves quiet_intros intro: quiet_handlePropose quiet_handlePreVote\<close>)
qed

end
