(* ===== verification/RaftNet.thy ===== *)
theory RaftNet
  imports RaftElection
begin

text \<open>
  A cluster of raft members: every member runs the methods of \<^verbatim>\<open>raft.go\<close>; the owner loop persists
  the hard state of a \<^verbatim>\<open>Ready\<close> before its messages leave, as the group loop of the program does;
  the network may lose, duplicate, delay and reorder; a member may crash at any point, also between
  persisting and sending and in the middle of sending, and restarts through \<^verbatim>\<open>RestoreNode\<close>.
\<close>

section \<open>The cluster\<close>

record cluster =
  nodes :: "nat \<Rightarrow> Node"
  disk :: "nat \<Rightarrow> HardState"
  wire :: "Message set"
  won :: "(nat \<times> nat) set"

datatype action = Recv Message | DoTick | DoCampaign | DoPropose bytes | DoTransfer nat | DoRead nat
  | DoCompact nat | DoSnapshot nat nat

fun act :: "action \<Rightarrow> Node \<Rightarrow> Node option" where
  "act (Recv m) n = map_option snd (Step m n)"
| "act DoTick n = Tick n"
| "act DoCampaign n = Campaign n"
| "act (DoPropose d) n = map_option snd (Propose d n)"
| "act (DoTransfer t) n = map_option snd (TransferLeader t n)"
| "act (DoRead i) n = map_option snd (ReadIndex i n)"
| "act (DoCompact i) n = CompactTo i n"
| "act (DoSnapshot i t) n = Some (snd (RestoreSnapshot i t n))"

definition received :: "action \<Rightarrow> Message option" where
  "received a = (case a of Recv m \<Rightarrow> Some m | _ \<Rightarrow> None)"

definition win :: "nat \<Rightarrow> Node \<Rightarrow> (nat \<times> nat) set" where
  "win i n = (if n_role n = Leader then {(n_term n, i)} else {})"

definition no_conf :: "Entry list \<Rightarrow> bool" where
  "no_conf es \<longleftrightarrow> (\<forall>e\<in>set es. e_Type e \<noteq> EntryConfChange)"

definition persist :: "Ready \<Rightarrow> HardState \<Rightarrow> HardState" where
  "persist rd h = (case rd_HardState rd of None \<Rightarrow> h | Some h' \<Rightarrow> h')"

text \<open>\<open>cfg\<close> is every member's configuration; membership is the fixed set \<open>M\<close>.\<close>

inductive raft_run :: "nat set \<Rightarrow> (nat \<Rightarrow> Config) \<Rightarrow> cluster \<Rightarrow> bool" for M cfg where
  boot: "\<lbrakk>\<forall>i\<in>M. NewNodeConfig (cfg i) = Some (ns i)\<rbrakk>
    \<Longrightarrow> raft_run M cfg \<lparr>nodes = ns, disk = (\<lambda>_. \<lparr>hs_Term = 0, hs_Vote = 0, hs_Commit = 0\<rparr>), wire = {}, won = {}\<rparr>"
| act: "\<lbrakk>raft_run M cfg s; i \<in> M; \<forall>m. received a = Some m \<longrightarrow> m \<in> wire s \<and> m_To m = i;
     act a (nodes s i) = Some n'\<rbrakk>
    \<Longrightarrow> raft_run M cfg (s\<lparr>nodes := (nodes s)(i := n'), won := won s \<union> win i n'\<rparr>)"
| drain: "\<lbrakk>raft_run M cfg s; i \<in> M; Node_Ready (nodes s i) = Some (rd, n1); no_conf (rd_CommittedEntries rd);
     Advance rd n1 = Some n'\<rbrakk>
    \<Longrightarrow> raft_run M cfg (s\<lparr>nodes := (nodes s)(i := n'), disk := (disk s)(i := persist rd (disk s i)),
          wire := wire s \<union> set (rd_Messages rd), won := won s \<union> win i n'\<rparr>)"
| drain_crash: "\<lbrakk>raft_run M cfg s; i \<in> M; Node_Ready (nodes s i) = Some (rd, n1); sent \<subseteq> set (rd_Messages rd);
     rec_HardState rcv = persist rd (disk s i); no_conf (rec_Entries rcv); RestoreNode (cfg i) rcv ap = Some n'\<rbrakk>
    \<Longrightarrow> raft_run M cfg (s\<lparr>nodes := (nodes s)(i := n'), disk := (disk s)(i := persist rd (disk s i)),
          wire := wire s \<union> sent\<rparr>)"
| crash: "\<lbrakk>raft_run M cfg s; i \<in> M; rec_HardState rcv = disk s i; no_conf (rec_Entries rcv);
     RestoreNode (cfg i) rcv ap = Some n'\<rbrakk>
    \<Longrightarrow> raft_run M cfg (s\<lparr>nodes := (nodes s)(i := n')\<rparr>)"

definition members_ok :: "nat set \<Rightarrow> (nat \<Rightarrow> Config) \<Rightarrow> bool" where
  "members_ok M cfg \<longleftrightarrow> finite M \<and> 0 \<notin> M \<and> (\<forall>i\<in>M. c_ID (cfg i) = i \<and> set (c_Peers (cfg i)) = M)"

section \<open>The invariant\<close>

definition granted :: "Message set \<Rightarrow> nat \<Rightarrow> nat \<Rightarrow> nat \<Rightarrow> bool" where
  "granted W v c t \<longleftrightarrow> (\<exists>b\<in>W. m_Type b = MsgVoteResp \<and> \<not> m_Reject b \<and> m_From b = v \<and> m_To b = c \<and> m_Term b = t)"

definition stood :: "Message set \<Rightarrow> nat \<Rightarrow> nat \<Rightarrow> bool" where
  "stood W c t \<longleftrightarrow> (\<exists>b\<in>W. m_Type b = MsgVote \<and> m_From b = c \<and> m_Term b = t)"

text \<open>Two members' states agree on a vote: the second has the vote of the first, or a later term.\<close>

definition keeps_vote :: "nat \<Rightarrow> nat \<Rightarrow> nat \<Rightarrow> nat \<Rightarrow> bool" where
  "keeps_vote t v t' v' \<longleftrightarrow> t \<le> t' \<and> (t = t' \<and> v \<noteq> 0 \<longrightarrow> v' = v)"

lemma keeps_vote_trans: "keeps_vote t v t' v' \<Longrightarrow> keeps_vote t' v' t'' v'' \<Longrightarrow> keeps_vote t v t'' v''"
  by (auto simp: keeps_vote_def)

definition local_inv :: "nat set \<Rightarrow> Message set \<Rightarrow> (nat \<times> nat) set \<Rightarrow> HardState \<Rightarrow> nat \<Rightarrow> Node \<Rightarrow> bool" where
  "local_inv M W X h i n \<longleftrightarrow> n_id n = i \<and> n_voters n = M \<and> n_votes n \<subseteq> M
     \<and> keeps_vote (hs_Term h) (hs_Vote h) (n_term n) (n_vote n)
     \<and> hs_Term (n_prevHard n) = hs_Term h \<and> hs_Vote (n_prevHard n) = hs_Vote h
     \<and> (\<forall>b\<in>set (n_msgs n). m_From b = i \<and> (ballot b \<longrightarrow> choice b \<in> M
          \<and> keeps_vote (m_Term b) (choice b) (n_term n) (n_vote n)))
     \<and> (\<forall>v\<in>n_votes n - {i}. granted W v i (n_term n))
     \<and> (n_role n = Leader \<longrightarrow> (n_term n, i) \<in> X)"

definition pending :: "nat set \<Rightarrow> cluster \<Rightarrow> Message set" where
  "pending M s = (\<Union>i\<in>M. set (n_msgs (nodes s i)))"

definition unique_votes :: "Message set \<Rightarrow> bool" where
  "unique_votes B \<longleftrightarrow> (\<forall>a\<in>B. \<forall>b\<in>B. ballot a \<and> ballot b \<and> m_From a = m_From b \<and> m_Term a = m_Term b
     \<longrightarrow> choice a = choice b)"

definition carried :: "nat set \<Rightarrow> Message set \<Rightarrow> nat \<Rightarrow> nat \<Rightarrow> bool" where
  "carried M W t c \<longleftrightarrow> c \<in> M \<and> (\<exists>V\<subseteq>M. card M div 2 + 1 \<le> card V \<and> (\<forall>v\<in>V - {c}. granted W v c t))"

definition won_inv :: "nat set \<Rightarrow> Message set \<Rightarrow> (nat \<times> nat) set \<Rightarrow> bool" where
  "won_inv M W X \<longleftrightarrow> (\<forall>t c. (t, c) \<in> X \<longrightarrow> carried M W t c)"

definition net_inv :: "nat set \<Rightarrow> cluster \<Rightarrow> bool" where
  "net_inv M s \<longleftrightarrow>
     (\<forall>i\<in>M. local_inv M (wire s) (won s) (disk s i) i (nodes s i))
     \<and> (\<forall>b\<in>wire s. m_From b \<in> M \<and> (ballot b \<longrightarrow> choice b \<in> M
          \<and> keeps_vote (m_Term b) (choice b) (hs_Term (disk s (m_From b))) (hs_Vote (disk s (m_From b)))))
     \<and> unique_votes (wire s \<union> pending M s)
     \<and> (\<forall>b\<in>wire s \<union> pending M s. ballot b \<and> m_Type b = MsgVoteResp \<longrightarrow> stood (wire s) (m_To b) (m_Term b))
     \<and> won_inv M (wire s) (won s)"

lemma granted_mono: "granted W v c t \<Longrightarrow> W \<subseteq> W' \<Longrightarrow> granted W' v c t"
  by (auto simp: granted_def)

lemma stood_mono: "stood W c t \<Longrightarrow> W \<subseteq> W' \<Longrightarrow> stood W' c t"
  by (auto simp: stood_def)

lemma local_inv_mono: "local_inv M W X h i n \<Longrightarrow> W \<subseteq> W' \<Longrightarrow> X \<subseteq> X' \<Longrightarrow> local_inv M W' X' h i n"
  by (auto simp: local_inv_def intro: granted_mono)

lemma carried_mono: "carried M W t c \<Longrightarrow> W \<subseteq> W' \<Longrightarrow> carried M W' t c"
  unfolding carried_def by (meson granted_mono)

lemma won_inv_mono: "won_inv M W X \<Longrightarrow> W \<subseteq> W' \<Longrightarrow> won_inv M W' X"
  unfolding won_inv_def using carried_mono by blast

section \<open>Every step keeps it\<close>

lemma evolves_votes:
  assumes "evolves r n n'" "v \<in> n_votes n'" "v \<noteq> n_id n"
  obtains "v \<in> n_votes n" "n_term n' = n_term n"
  | m where "r = Some m" "m_Type m = MsgVoteResp" "\<not> m_Reject m" "m_From m = v" "m_Term m = n_term n'"
proof -
  have "v \<in> n_votes n' - {n_id n}" using assms(2,3) by simp
  then show ?thesis using assms(1) that unfolding evolves_def by meson
qed

lemma evolves_msgs:
  assumes "evolves r n n'" "n_id n = i"
  obtains new where "n_msgs n' = n_msgs n @ new" "\<forall>b\<in>set new. m_From b = i"
    "\<forall>b\<in>set new. ballot b \<longrightarrow> m_Term b = n_term n' \<and> choice b = n_vote n'"
    "\<forall>b\<in>set new. ballot b \<and> m_Type b = MsgVoteResp \<longrightarrow>
        (\<exists>m. r = Some m \<and> m_Type m = MsgVote \<and> m_Term m = m_Term b \<and> m_From m = m_To b)"
proof -
  obtain new where "n_msgs n' = n_msgs n @ new" "\<forall>b\<in>set new. m_From b = n_id n
       \<and> (ballot b \<longrightarrow> m_Term b = n_term n' \<and> choice b = n_vote n')
       \<and> (ballot b \<and> m_Type b = MsgVoteResp \<longrightarrow>
            (\<exists>m. r = Some m \<and> m_Type m = MsgVote \<and> m_Term m = m_Term b \<and> m_From m = m_To b))"
    using assms(1) unfolding evolves_def by (elim conjE exE)
  then show ?thesis using assms(2) by (intro that [of new]) blast+
qed

lemma evolves_local:
  assumes "evolves r n n'" "local_inv M W X h i n" "finite M" "0 \<notin> M" "i \<in> M"
    "\<forall>m. r = Some m \<longrightarrow> m \<in> W \<and> m_To m = i" "\<forall>b\<in>W. m_From b \<in> M"
  shows "local_inv M W (X \<union> win i n') h i n'"
    and "n_role n' = Leader \<Longrightarrow> (n_term n', i) \<in> X \<or> carried M W (n_term n') i"
proof -
  have L: "n_id n = i" "n_voters n = M" "n_votes n \<subseteq> M"
    "keeps_vote (hs_Term h) (hs_Vote h) (n_term n) (n_vote n)"
    "hs_Term (n_prevHard n) = hs_Term h" "hs_Vote (n_prevHard n) = hs_Vote h"
    "\<forall>b\<in>set (n_msgs n). m_From b = i \<and> (ballot b \<longrightarrow> choice b \<in> M
        \<and> keeps_vote (m_Term b) (choice b) (n_term n) (n_vote n))"
    "\<forall>v\<in>n_votes n - {i}. granted W v i (n_term n)" "n_role n = Leader \<longrightarrow> (n_term n, i) \<in> X"
    using assms(2) by (auto simp: local_inv_def)
  have E: "same_member n n'" "keeps_vote (n_term n) (n_vote n) (n_term n') (n_vote n')"
    "n_votes n' \<subseteq> n_votes n \<union> n_voters n"
    "n_role n' = Leader \<longrightarrow> n_role n = Leader \<and> n_term n' = n_term n \<or> quorum n' \<le> card (n_votes n')"
    using assms(1) by (auto simp: evolves_def keeps_vote_def)
  have votes: "granted W v i (n_term n')" if "v \<in> n_votes n' - {i}" for v
  proof -
    have v: "v \<in> n_votes n'" "v \<noteq> n_id n" using that L(1) by auto
    show ?thesis
      by (rule evolves_votes [OF assms(1) v]) (use L(8) assms(6) that in \<open>auto simp: granted_def\<close>)
  qed
  obtain new where new: "n_msgs n' = n_msgs n @ new"
    "\<forall>b\<in>set new. m_From b = i"
    "\<forall>b\<in>set new. ballot b \<longrightarrow> m_Term b = n_term n' \<and> choice b = n_vote n'"
    "\<forall>b\<in>set new. ballot b \<and> m_Type b = MsgVoteResp \<longrightarrow>
        (\<exists>m. r = Some m \<and> m_Type m = MsgVote \<and> m_Term m = m_Term b \<and> m_From m = m_To b)"
    using evolves_msgs [OF assms(1) L(1)] .
  have chosen: "choice b \<in> M" if b: "b \<in> set new" "ballot b" for b
  proof (cases "m_Type b = MsgVote")
    case True
    then show ?thesis using new(2) b assms(5) by (simp add: choice_def)
  next
    case False
    then have "m_Type b = MsgVoteResp" using b(2) by (simp add: ballot_def)
    then obtain m where "r = Some m" "m_From m = m_To b"
      using new(4) b by blast
    then show ?thesis using False assms(6,7) by (metis choice_def)
  qed
  have msgs: "m_From b = i \<and> (ballot b \<longrightarrow> choice b \<in> M
        \<and> keeps_vote (m_Term b) (choice b) (n_term n') (n_vote n'))" if "b \<in> set (n_msgs n')" for b
  proof (cases "b \<in> set (n_msgs n)")
    case True
    then show ?thesis using L(7) keeps_vote_trans [OF _ E(2)] by blast
  next
    case False
    then have "b \<in> set new" using that new(1) by simp
    then show ?thesis using new(2,3) chosen by (auto simp: keeps_vote_def)
  qed
  show "local_inv M W (X \<union> win i n') h i n'"
    using L E votes msgs keeps_vote_trans [OF L(4) E(2)]
    by (auto simp: local_inv_def same_member_def win_def)
  show "(n_term n', i) \<in> X \<or> carried M W (n_term n') i" if "n_role n' = Leader"
  proof (cases "quorum n' \<le> card (n_votes n')")
    case True
    then have "carried M W (n_term n') i"
      unfolding carried_def using assms(5) votes E(1,3) L(2,3)
      by (intro conjI exI [of _ "n_votes n'"]) (auto simp: quorum_def same_member_def)
    then show ?thesis ..
  next
    case False
    then show ?thesis using E(4) L(9) that by auto
  qed
qed

lemma net_inv_act:
  assumes "net_inv M s" "finite M" "0 \<notin> M" "i \<in> M" "evolves r (nodes s i) n'"
    "\<forall>m. r = Some m \<longrightarrow> m \<in> wire s \<and> m_To m = i"
  shows "net_inv M (s\<lparr>nodes := (nodes s)(i := n'), won := won s \<union> win i n'\<rparr>)"
proof -
  let ?n = "nodes s i" and ?s = "s\<lparr>nodes := (nodes s)(i := n'), won := won s \<union> win i n'\<rparr>"
  have I: "\<forall>j\<in>M. local_inv M (wire s) (won s) (disk s j) j (nodes s j)"
    "\<forall>b\<in>wire s. m_From b \<in> M \<and> (ballot b \<longrightarrow> choice b \<in> M
        \<and> keeps_vote (m_Term b) (choice b) (hs_Term (disk s (m_From b))) (hs_Vote (disk s (m_From b))))"
    "unique_votes (wire s \<union> pending M s)"
    "\<forall>b\<in>wire s \<union> pending M s. ballot b \<and> m_Type b = MsgVoteResp \<longrightarrow> stood (wire s) (m_To b) (m_Term b)"
    "won_inv M (wire s) (won s)"
    using assms(1) by (auto simp: net_inv_def)
  note E = evolves_local [OF assms(5) bspec [OF I(1) assms(4)] assms(2-4,6)]
  have li: "local_inv M (wire s) (won s \<union> win i n') (disk s i) i n'" using E(1) I(2) by blast
  have idn: "n_id ?n = i" using I(1) assms(4) by (auto simp: local_inv_def)
  obtain new where N: "n_msgs n' = n_msgs ?n @ new" "\<forall>b\<in>set new. m_From b = i"
    "\<forall>b\<in>set new. ballot b \<longrightarrow> m_Term b = n_term n' \<and> choice b = n_vote n'"
    "\<forall>b\<in>set new. ballot b \<and> m_Type b = MsgVoteResp \<longrightarrow>
        (\<exists>m. r = Some m \<and> m_Type m = MsgVote \<and> m_Term m = m_Term b \<and> m_From m = m_To b)"
    using evolves_msgs [OF assms(5) idn] .
  have new: "b \<in> pending M s \<or> b \<in> set new" if "b \<in> pending M ?s" for b
    using that assms(4) N(1) by (auto simp: pending_def split: if_splits)
  have lis: "local_inv M (wire s) (won s \<union> win i n') (disk s j) j (nodes ?s j)" if "j \<in> M" for j
    using that li I(1) local_inv_mono by (cases "j = i") auto
  have mine: "choice b \<in> M \<and> keeps_vote (m_Term b) (choice b) (n_term n') (n_vote n')"
    if b: "b \<in> wire s \<union> pending M ?s" "ballot b" "m_From b = i" for b
  proof (cases "b \<in> wire s")
    case True
    have "keeps_vote (hs_Term (disk s i)) (hs_Vote (disk s i)) (n_term n') (n_vote n')"
      using li by (simp add: local_inv_def)
    then show ?thesis using True b(2,3) I(2) keeps_vote_trans by blast
  next
    case False
    then obtain j where j: "j \<in> M" "b \<in> set (n_msgs (nodes ?s j))" using b(1) by (auto simp: pending_def)
    then have "j = i" using lis [OF j(1)] b(3) by (simp add: local_inv_def)
    then show ?thesis using lis [OF j(1)] j(2) b(2) by (simp add: local_inv_def)
  qed
  have fresh: "choice a = choice b"
    if a: "a \<in> set new" and b: "b \<in> wire s \<union> pending M ?s"
      "ballot a" "ballot b" "m_From a = m_From b" "m_Term a = m_Term b" for a b
  proof -
    have A: "m_Term a = n_term n'" "choice a = n_vote n'" "m_From a = i"
      using N(2,3) a b(2) by auto
    have B: "choice b \<in> M" "keeps_vote (m_Term b) (choice b) (n_term n') (n_vote n')"
      using mine [OF b(1,3)] b(4) A(3) by auto
    have "choice b \<noteq> 0" using B(1) assms(3) by metis
    then show ?thesis using A B(2) b(5) by (simp add: keeps_vote_def)
  qed
  have U: "unique_votes (wire s \<union> pending M ?s)"
    unfolding unique_votes_def
  proof (intro ballI impI)
    fix a b assume ab: "a \<in> wire s \<union> pending M ?s" "b \<in> wire s \<union> pending M ?s"
      "ballot a \<and> ballot b \<and> m_From a = m_From b \<and> m_Term a = m_Term b"
    show "choice a = choice b"
    proof -
      consider "a \<in> set new" | "b \<in> set new" | "a \<notin> set new" "b \<notin> set new" by blast
      then show ?thesis
      proof cases
        case 1
        then show ?thesis by (rule fresh) (use ab in simp_all)
      next
        case 2
        then have "choice b = choice a" by (rule fresh) (use ab in simp_all)
        then show ?thesis ..
      next
        case 3
        then have "a \<in> wire s \<union> pending M s" "b \<in> wire s \<union> pending M s" using ab(1,2) new by blast+
        then show ?thesis using I(3) ab(3) unfolding unique_votes_def by blast
      qed
    qed
  qed
  have G: "stood (wire s) (m_To b) (m_Term b)"
    if b: "b \<in> wire s \<union> pending M ?s" "ballot b" "m_Type b = MsgVoteResp" for b
  proof (cases "b \<in> wire s \<union> pending M s")
    case True
    then show ?thesis using I(4) b by blast
  next
    case False
    then have "b \<in> set new" using new b(1) by blast
    then obtain m where "r = Some m" "m_Type m = MsgVote" "m_Term m = m_Term b" "m_From m = m_To b"
      using N(4) b(2,3) by blast
    then show ?thesis using assms(6) unfolding stood_def by blast
  qed
  have Wn: "won_inv M (wire s) (won s \<union> win i n')"
    using E(2) I(2,5) by (auto simp: won_inv_def win_def split: if_splits)
  then show ?thesis
    unfolding net_inv_def using lis I(2) U G by simp
qed

text \<open>A drain, a crash and a crash during a drain replace one member's state and put some of its messages on the wire.\<close>

lemma net_inv_replace:
  assumes "net_inv M s" "i \<in> M" "sent \<subseteq> set (n_msgs (nodes s i))" "n_msgs n' = []"
    "local_inv M (wire s \<union> sent) (won s) h' i n'"
    "keeps_vote (hs_Term (disk s i)) (hs_Vote (disk s i)) (hs_Term h') (hs_Vote h')"
    "sent = {} \<or> hs_Term h' = n_term (nodes s i) \<and> hs_Vote h' = n_vote (nodes s i)"
  shows "net_inv M (s\<lparr>nodes := (nodes s)(i := n'), disk := (disk s)(i := h'), wire := wire s \<union> sent\<rparr>)"
    (is "net_inv M ?s")
proof -
  have I: "\<forall>j\<in>M. local_inv M (wire s) (won s) (disk s j) j (nodes s j)"
    "\<forall>b\<in>wire s. m_From b \<in> M \<and> (ballot b \<longrightarrow> choice b \<in> M
        \<and> keeps_vote (m_Term b) (choice b) (hs_Term (disk s (m_From b))) (hs_Vote (disk s (m_From b))))"
    "unique_votes (wire s \<union> pending M s)"
    "\<forall>b\<in>wire s \<union> pending M s. ballot b \<and> m_Type b = MsgVoteResp \<longrightarrow> stood (wire s) (m_To b) (m_Term b)"
    "won_inv M (wire s) (won s)"
    using assms(1) by (auto simp: net_inv_def)
  have sub: "wire ?s \<union> pending M ?s \<subseteq> wire s \<union> pending M s"
    using assms(2,3,4) by (auto simp: pending_def split: if_splits)
  have lis: "local_inv M (wire ?s) (won ?s) (disk ?s j) j (nodes ?s j)" if "j \<in> M" for j
    using that assms(5) I(1) local_inv_mono [of M "wire s" "won s" "disk s j" j "nodes s j" "wire s \<union> sent" "won s"]
    by (cases "j = i") auto
  have W: "m_From b \<in> M \<and> (ballot b \<longrightarrow> choice b \<in> M
      \<and> keeps_vote (m_Term b) (choice b) (hs_Term (disk ?s (m_From b))) (hs_Vote (disk ?s (m_From b))))"
    if b: "b \<in> wire ?s" for b
  proof (cases "b \<in> wire s")
    case True
    then show ?thesis
      using I(2) assms(6) keeps_vote_trans by (cases "m_From b = i") auto
  next
    case False
    then have "b \<in> set (n_msgs (nodes s i))" "sent \<noteq> {}" using b assms(3) by auto
    then show ?thesis
      using I(1) assms(2,7) by (auto simp: local_inv_def)
  qed
  have U: "unique_votes (wire ?s \<union> pending M ?s)"
    using I(3) sub unfolding unique_votes_def by blast
  have G: "\<forall>b\<in>wire ?s \<union> pending M ?s. ballot b \<and> m_Type b = MsgVoteResp \<longrightarrow> stood (wire ?s) (m_To b) (m_Term b)"
    using I(4) sub stood_mono [of "wire s" _ _ "wire ?s"] by auto
  have "won_inv M (wire ?s) (won ?s)"
    using I(5) won_inv_mono by simp
  then show ?thesis
    unfolding net_inv_def using lis W U G by blast
qed

lemma Ready_facts:
  assumes "Node_Ready n = Some (rd, n1)"
  shows "n1 = n\<lparr>n_msgs := []\<rparr>" "rd_Messages rd = n_msgs n"
    "rd_HardState rd = (if hardState n \<noteq> n_prevHard n then Some (hardState n) else None)"
  using assms by (auto simp: Node_Ready_def Let_def bind_eq_Some_conv)

lemma apply_conf_no_conf: "no_conf es \<Longrightarrow> apply_conf_entries es n = n"
  by (induction es arbitrary: n) (auto simp: no_conf_def)

lemma Advance_quiet:
  assumes "Advance rd n = Some n'" "no_conf (rd_CommittedEntries rd)"
  shows "quiet (case rd_HardState rd of None \<Rightarrow> n | Some hs \<Rightarrow> n\<lparr>n_prevHard := hs\<rparr>) n' \<and> n_msgs n' = n_msgs n
    \<and> n_role n' = n_role n"
proof -
  let ?n0 = "case rd_HardState rd of None \<Rightarrow> n | Some hs \<Rightarrow> n\<lparr>n_prevHard := hs\<rparr>"
  have f0: "n_msgs ?n0 = n_msgs n" "n_role ?n0 = n_role n" by (auto split: option.splits)
  obtain n1 where n1: "(if rd_Entries rd \<noteq> [] then
      do { (_, n) \<leftarrow> maybeCommit (?n0\<lparr>n_stabled := e_Index (last (rd_Entries rd))\<rparr>); Some n } else Some ?n0) = Some n1"
    and fin: "\<exists>l rr. n' = n1\<lparr>n_log := l, n_readReady := rr\<rparr> \<or> n' = n1\<lparr>n_readReady := rr\<rparr>"
    using assms by (auto simp: Advance_def Let_def bind_eq_Some_conv apply_conf_no_conf split: if_splits)
  have "quiet ?n0 n1 \<and> n_msgs n1 = n_msgs ?n0 \<and> n_role n1 = n_role ?n0"
  proof (cases "rd_Entries rd = []")
    case False
    then obtain b where mc: "maybeCommit (?n0\<lparr>n_stabled := e_Index (last (rd_Entries rd))\<rparr>) = Some (b, n1)"
      using n1 by (auto simp: bind_eq_Some_conv)
    then have "n_msgs n1 = n_msgs ?n0" "n_role n1 = n_role ?n0"
      by (cases rule: maybeCommit_cases; simp)+
    moreover have "quiet ?n0 n1"
      using quiet_maybeCommit [OF mc] quiet_trans quiet_upd(13) [OF quiet_refl] by blast
    ultimately show ?thesis by blast
  qed (use n1 in auto)
  moreover have "quiet n1 n' \<and> n_msgs n' = n_msgs n1 \<and> n_role n' = n_role n1"
    using fin by (auto intro: quiet_fields)
  ultimately show ?thesis using f0 quiet_trans by metis
qed

lemma rebuild_no_conf: "no_conf es \<Longrightarrow> rebuild_conf i es n = n"
  by (induction es arbitrary: i n) (auto simp: no_conf_def)

lemma newNode_facts:
  assumes "newNode cfg rcv ap = Some n" "no_conf (rec_Entries rcv)"
  shows "n_id n = c_ID cfg" "n_voters n = set (c_Peers cfg)" "n_votes n = {}" "n_role n = Follower"
    "n_term n = hs_Term (rec_HardState rcv)" "n_vote n = hs_Vote (rec_HardState rcv)" "n_msgs n = []"
    "hs_Term (n_prevHard n) = n_term n" "hs_Vote (n_prevHard n) = n_vote n"
proof -
  obtain l where l: "recoverLog rcv ap = Some l"
    "n = resetElectionTimer ((rebuild_conf (firstIndex l) (entries l) (rebuildPeers (initNode cfg (rec_HardState rcv) l)))
       \<lparr>n_prevHard := hardState (rebuild_conf (firstIndex l) (entries l) (rebuildPeers (initNode cfg (rec_HardState rcv) l)))\<rparr>)"
    using assms(1) by (auto simp: newNode_def Let_def bind_eq_Some_conv split: if_splits)
  have "entries l = rec_Entries rcv"
    using l(1) by (auto simp: recoverLog_def Let_def bind_eq_Some_conv log_append_def commitTo_def newLog_def split: if_splits)
  then have "n = resetElectionTimer ((rebuildPeers (initNode cfg (rec_HardState rcv) l))
      \<lparr>n_prevHard := hardState (rebuildPeers (initNode cfg (rec_HardState rcv) l))\<rparr>)"
    using l(2) assms(2) by (simp add: rebuild_no_conf)
  then show "n_id n = c_ID cfg" "n_voters n = set (c_Peers cfg)" "n_votes n = {}" "n_role n = Follower"
    "n_term n = hs_Term (rec_HardState rcv)" "n_vote n = hs_Vote (rec_HardState rcv)" "n_msgs n = []"
    "hs_Term (n_prevHard n) = n_term n" "hs_Vote (n_prevHard n) = n_vote n"
    by (simp_all add: rebuildPeers_def initNode_def hardState_def)
qed

lemma act_evolves:
  assumes "act a n = Some n'" "n_role n = Candidate \<longrightarrow> n_id n \<in> n_voters n" "n_id n \<noteq> 0"
  shows "evolves (received a) n n'"
proof (cases a)
  case (Recv m)
  then show ?thesis using assms Step_evolves by (auto simp: received_def)
next
  case (DoPropose d)
  then have "quiet n n'"
    using assms(1) quiet_handlePropose by (auto simp: Propose_def Step_def msg0_def)
  then show ?thesis by (rule quiet_evolves)
next
  case (DoSnapshot i t)
  then show ?thesis
    using assms(1) quiet_RestoreSnapshot by (auto simp: received_def intro!: quiet_evolves) (metis prod.collapse)
qed (use assms(1) in \<open>auto intro: Tick_evolves Campaign_evolves quiet_evolves quiet_TransferLeader
      quiet_ReadIndex quiet_CompactTo\<close>)

lemma persist_ready:
  assumes "Node_Ready n = Some (rd, n1)" "local_inv M W X h i n"
  shows "hs_Term (persist rd h) = n_term n" "hs_Vote (persist rd h) = n_vote n"
proof -
  have "hs_Term (n_prevHard n) = hs_Term h" "hs_Vote (n_prevHard n) = hs_Vote h"
    using assms(2) by (auto simp: local_inv_def)
  then show "hs_Term (persist rd h) = n_term n" "hs_Vote (persist rd h) = n_vote n"
    using Ready_facts(3) [OF assms(1)]
    by (cases "hardState n = n_prevHard n"; auto simp: persist_def hardState_def dest: sym)+
qed

lemma net_inv_drain:
  assumes "net_inv M s" "i \<in> M" "Node_Ready (nodes s i) = Some (rd, n1)"
    "no_conf (rd_CommittedEntries rd)" "Advance rd n1 = Some n'"
  shows "net_inv M (s\<lparr>nodes := (nodes s)(i := n'), disk := (disk s)(i := persist rd (disk s i)),
          wire := wire s \<union> set (rd_Messages rd), won := won s \<union> win i n'\<rparr>)"
proof -
  let ?n = "nodes s i" and ?h = "persist rd (disk s i)"
  have L: "local_inv M (wire s) (won s) (disk s i) i ?n"
    using assms(1,2) by (simp add: net_inv_def)
  note R = Ready_facts [OF assms(3)] and P = persist_ready [OF assms(3) L]
  have Q: "quiet (case rd_HardState rd of None \<Rightarrow> n1 | Some hs \<Rightarrow> n1\<lparr>n_prevHard := hs\<rparr>) n'"
    "n_msgs n' = []" "n_role n' = n_role ?n"
    using Advance_quiet [OF assms(5,4)] R(1) by auto
  have F: "n_id n' = n_id ?n" "n_voters n' = n_voters ?n" "n_votes n' = n_votes ?n" "n_term n' = n_term ?n"
    "n_vote n' = n_vote ?n" "n_prevHard n' = (case rd_HardState rd of None \<Rightarrow> n_prevHard ?n | Some hs \<Rightarrow> hs)"
    using Q(1) R(1) by (auto simp: quiet_def same_member_def split: option.splits)
  have prev: "hs_Term (n_prevHard n') = hs_Term ?h" "hs_Vote (n_prevHard n') = hs_Vote ?h"
    using F(6) L by (auto simp: persist_def local_inv_def split: option.splits)
  have wn: "won s \<union> win i n' = won s"
    using L F(4) Q(3) by (auto simp: win_def local_inv_def)
  have "local_inv M (wire s \<union> set (rd_Messages rd)) (won s) ?h i n'"
    using L F P prev Q(2,3) granted_mono [of "wire s" _ _ _ "wire s \<union> set (rd_Messages rd)"]
    by (auto simp: local_inv_def keeps_vote_def)
  moreover have "keeps_vote (hs_Term (disk s i)) (hs_Vote (disk s i)) (hs_Term ?h) (hs_Vote ?h)"
    using L P by (simp add: local_inv_def)
  ultimately have "net_inv M (s\<lparr>nodes := (nodes s)(i := n'), disk := (disk s)(i := ?h),
      wire := wire s \<union> set (rd_Messages rd)\<rparr>)"
    using net_inv_replace [OF assms(1,2), of "set (rd_Messages rd)" n' ?h] R(2) Q(2) P by simp
  then show ?thesis unfolding wn by simp
qed

lemma net_inv_restart:
  assumes "net_inv M s" "members_ok M cfg" "i \<in> M" "sent \<subseteq> set (n_msgs (nodes s i))"
    "rec_HardState rcv = h'" "no_conf (rec_Entries rcv)" "RestoreNode (cfg i) rcv ap = Some n'"
    "keeps_vote (hs_Term (disk s i)) (hs_Vote (disk s i)) (hs_Term h') (hs_Vote h')"
    "sent = {} \<or> hs_Term h' = n_term (nodes s i) \<and> hs_Vote h' = n_vote (nodes s i)"
  shows "net_inv M (s\<lparr>nodes := (nodes s)(i := n'), disk := (disk s)(i := h'), wire := wire s \<union> sent\<rparr>)"
proof (rule net_inv_replace [OF assms(1,3,4) _ _ assms(8,9)])
  note N = newNode_facts [OF assms(7) [unfolded RestoreNode_def] assms(6)]
  show "n_msgs n' = []" by (rule N)
  show "local_inv M (wire s \<union> sent) (won s) h' i n'"
    using N assms(2,3,5) by (auto simp: local_inv_def members_ok_def keeps_vote_def)
qed

theorem raft_run_inv:
  assumes "raft_run M cfg s" "members_ok M cfg"
  shows "net_inv M s"
  using assms(1)
proof (induction rule: raft_run.induct)
  case (boot ns)
  have "local_inv M {} {} \<lparr>hs_Term = 0, hs_Vote = 0, hs_Commit = 0\<rparr> i (ns i)" and "n_msgs (ns i) = []"
    if "i \<in> M" for i
  proof -
    have n: "newNode (cfg i) empty_recovered 0 = Some (ns i)" "no_conf (rec_Entries empty_recovered)"
      using boot that by (auto simp: NewNodeConfig_def no_conf_def empty_recovered_def)
    show "n_msgs (ns i) = []" by (rule newNode_facts [OF n])
    show "local_inv M {} {} \<lparr>hs_Term = 0, hs_Vote = 0, hs_Commit = 0\<rparr> i (ns i)"
      using newNode_facts [OF n] assms(2) that
      by (auto simp: local_inv_def members_ok_def keeps_vote_def empty_recovered_def)
  qed
  then show ?case
    by (simp add: net_inv_def pending_def unique_votes_def won_inv_def)
next
  case (act s i a n')
  have L: "local_inv M (wire s) (won s) (disk s i) i (nodes s i)"
    using act.IH act.hyps(2) by (simp add: net_inv_def)
  have "evolves (received a) (nodes s i) n'"
    using act_evolves [OF act.hyps(4)] L act.hyps(2) assms(2) by (auto simp: local_inv_def members_ok_def)
  then show ?case
    using net_inv_act act.IH act.hyps(2,3) assms(2) by (auto simp: members_ok_def)
next
  case (drain s i rd n1 n')
  then show ?case using net_inv_drain by blast
next
  case (drain_crash s i rd n1 sent rcv ap n')
  have L: "local_inv M (wire s) (won s) (disk s i) i (nodes s i)"
    using drain_crash.IH drain_crash.hyps(2) by (simp add: net_inv_def)
  note P = persist_ready [OF drain_crash.hyps(3) L] and R = Ready_facts(2) [OF drain_crash.hyps(3)]
  show ?case
    by (rule net_inv_restart [OF drain_crash.IH assms(2) drain_crash.hyps(2) _ drain_crash.hyps(5-7)])
      (use drain_crash.hyps(4) R P L in \<open>auto simp: local_inv_def\<close>)
next
  case (crash s i rcv ap n')
  then show ?case
    using net_inv_restart [OF crash.IH assms(2) crash.hyps(2) _ crash.hyps(3-5), of "{}"]
    by (simp add: keeps_vote_def)
qed

section \<open>Election safety\<close>

lemma quorums_meet:
  assumes "finite M" "V \<subseteq> M" "V' \<subseteq> M" "card M div 2 + 1 \<le> card V" "card M div 2 + 1 \<le> card V'"
  shows "V \<inter> V' \<noteq> {}"
proof
  assume "V \<inter> V' = {}"
  then have "card (V \<union> V') = card V + card V'"
    using assms(1-3) by (intro card_Un_disjoint) (auto intro: finite_subset)
  moreover have "card (V \<union> V') \<le> card M" using assms(1-3) by (intro card_mono) auto
  ultimately show False using assms(4,5) by linarith
qed

lemma carried_unique:
  assumes "net_inv M s" "finite M" "carried M (wire s) t c" "carried M (wire s) t c'"
  shows "c = c'"
proof (rule ccontr)
  assume ne: "c \<noteq> c'"
  have unique: "choice a = choice b" if "a \<in> wire s" "b \<in> wire s" "ballot a" "ballot b"
    "m_From a = m_From b" "m_Term a = m_Term b" for a b
    using assms(1) that unfolding net_inv_def unique_votes_def by blast
  have uniq: "d = d'" if d: "granted (wire s) v d t" "granted (wire s) v d' t" for v d d'
  proof -
    obtain a b where "a \<in> wire s" "m_Type a = MsgVoteResp" "\<not> m_Reject a" "m_From a = v" "m_To a = d" "m_Term a = t"
      "b \<in> wire s" "m_Type b = MsgVoteResp" "\<not> m_Reject b" "m_From b = v" "m_To b = d'" "m_Term b = t"
      using d by (auto simp: granted_def)
    then show ?thesis using unique [of a b] by (simp add: ballot_def choice_def)
  qed
  have clash: False if g: "granted (wire s) v e t" "granted (wire s) e d t" "d \<noteq> e" for v d e
  proof -
    obtain a where a: "a \<in> wire s" "m_Type a = MsgVoteResp" "\<not> m_Reject a" "m_To a = e" "m_Term a = t"
      using g(1) by (auto simp: granted_def)
    then have "stood (wire s) e t"
      using assms(1) unfolding net_inv_def ballot_def by blast
    then obtain b where b: "b \<in> wire s" "m_Type b = MsgVote" "m_From b = e" "m_Term b = t"
      by (auto simp: stood_def)
    obtain b' where b': "b' \<in> wire s" "m_Type b' = MsgVoteResp" "\<not> m_Reject b'" "m_From b' = e" "m_To b' = d" "m_Term b' = t"
      using g(2) by (auto simp: granted_def)
    show False using unique [of b b'] b b' g(3) by (simp add: choice_def ballot_def)
  qed
  obtain V V' where V: "V \<subseteq> M" "card M div 2 + 1 \<le> card V" "\<forall>v\<in>V - {c}. granted (wire s) v c t" "c \<in> M"
    and V': "V' \<subseteq> M" "card M div 2 + 1 \<le> card V'" "\<forall>v\<in>V' - {c'}. granted (wire s) v c' t" "c' \<in> M"
    using assms(3,4) by (auto simp: carried_def)
  have two: "2 \<le> card M" using ne V(4) V'(4) assms(2) card_mono [of M "{c, c'}"] by simp
  have other: "\<exists>u\<in>W - {x}. True" if "W \<subseteq> M" "card M div 2 + 1 \<le> card W" for W x
  proof -
    have "2 \<le> card W" using two that(2) by linarith
    then have "W - {x} \<noteq> {}" using card_mono [of "{x}" W] by auto
    then show ?thesis by blast
  qed
  obtain v where v: "v \<in> V" "v \<in> V'" using quorums_meet [OF assms(2) V(1) V'(1) V(2) V'(2)] by blast
  consider "v \<noteq> c" "v \<noteq> c'" | "v = c" | "v = c'" by blast
  then show False
  proof cases
    case 1
    then show False using uniq [of v c c'] V(3) V'(3) v ne by blast
  next
    case 2
    then show False using clash [of _ c c'] other [OF V(1,2), of c] V(3) V'(3) v ne by blast
  next
    case 3
    then show False using clash [of _ c' c] other [OF V'(1,2), of c'] V(3) V'(3) v ne by blast
  qed
qed


section \<open>A run with an election\<close>

definition run_act :: "nat \<Rightarrow> action \<Rightarrow> cluster \<Rightarrow> cluster" where
  "run_act i a s =
     (let n' = the (act a (nodes s i))
      in s\<lparr>nodes := (nodes s)(i := n'), won := won s \<union> win i n'\<rparr>)"

definition can_act :: "nat \<Rightarrow> action \<Rightarrow> cluster \<Rightarrow> bool" where
  "can_act i a s \<longleftrightarrow> \<not> Option.is_none (act a (nodes s i))
     \<and> (case received a of None \<Rightarrow> True | Some m \<Rightarrow> m \<in> wire s \<and> m_To m = i)"

definition run_drain :: "nat \<Rightarrow> cluster \<Rightarrow> cluster" where
  "run_drain i s =
     (let (rd, n1) = the (Node_Ready (nodes s i)); n' = the (Advance rd n1)
      in s\<lparr>nodes := (nodes s)(i := n'), disk := (disk s)(i := persist rd (disk s i)),
           wire := wire s \<union> set (rd_Messages rd), won := won s \<union> win i n'\<rparr>)"

definition can_drain :: "nat \<Rightarrow> cluster \<Rightarrow> bool" where
  "can_drain i s \<longleftrightarrow>
     (case Node_Ready (nodes s i) of
        None \<Rightarrow> False
      | Some (rd, n1) \<Rightarrow> no_conf (rd_CommittedEntries rd) \<and> \<not> Option.is_none (Advance rd n1))"

lemma run_act: "raft_run M cfg s \<Longrightarrow> i \<in> M \<Longrightarrow> can_act i a s \<Longrightarrow> raft_run M cfg (run_act i a s)"
  by (auto simp: can_act_def run_act_def Let_def Option.is_none_def intro!: raft_run.act split: option.splits)

lemma run_drain: "raft_run M cfg s \<Longrightarrow> i \<in> M \<Longrightarrow> can_drain i s \<Longrightarrow> raft_run M cfg (run_drain i s)"
  by (auto simp: can_drain_def run_drain_def Let_def Option.is_none_def intro!: raft_run.drain
      split: option.splits prod.splits)

definition witness_cfg :: "nat \<Rightarrow> Config" where
  "witness_cfg i = \<lparr>c_ID = i, c_Peers = [1, 2, 3], c_ElectionTick = 0, c_HeartbeatTick = 0,
     c_Rand = Some (\<lambda>_ _. 0), c_LeaseRead = False\<rparr>"

definition witness_msg :: "MessageType \<Rightarrow> nat \<Rightarrow> nat \<Rightarrow> Message" where
  "witness_msg t f to = (msg0 t to)\<lparr>m_From := f, m_Term := 1\<rparr>"

definition witness_boot :: cluster where
  "witness_boot = \<lparr>nodes = (\<lambda>i. the (NewNodeConfig (witness_cfg i))),
     disk = (\<lambda>_. \<lparr>hs_Term = 0, hs_Vote = 0, hs_Commit = 0\<rparr>), wire = {}, won = {}\<rparr>"

definition witness_election :: cluster where
  "witness_election =
     run_act 1 (Recv (witness_msg MsgVoteResp 2 1))
    (run_drain 2 (run_act 2 (Recv (witness_msg MsgVote 1 2))
    (run_drain 1 (run_act 1 (Recv (witness_msg MsgPreVoteResp 2 1))
    (run_drain 2 (run_act 2 (Recv (witness_msg MsgPreVote 1 2))
    (run_drain 1 (run_act 1 DoCampaign witness_boot))))))))"

lemma witness_boot: "raft_run {1, 2, 3} witness_cfg witness_boot"
proof -
  have "\<not> Option.is_none (NewNodeConfig (witness_cfg 1))" "\<not> Option.is_none (NewNodeConfig (witness_cfg 2))"
    "\<not> Option.is_none (NewNodeConfig (witness_cfg 3))"
    by code_simp+
  then show ?thesis
    unfolding witness_boot_def by (intro raft_run.boot) (auto simp: Option.is_none_def)
qed

lemma election_run:
  "raft_run {1, 2, 3} witness_cfg witness_election"
  unfolding witness_election_def
  by (intro run_act run_drain witness_boot; code_simp)


end
