(* ===== verification/RaftInv.thy ===== *)
theory RaftInv
  imports RaftElection
begin

text \<open>
  The invariant of one raft member and the absence of panics: on a well-formed node every public
  call of \<^verbatim>\<open>raft.go\<close> returns, and returns a well-formed node, provided the message obeys the
  protocol.  \<^verbatim>\<open>Ready\<close> and \<^verbatim>\<open>Advance\<close> hand each committed entry to the state machine exactly
  once, in order.
\<close>

section \<open>The invariant\<close>

definition wf_msg :: "Message \<Rightarrow> bool" where
  "wf_msg m \<longleftrightarrow> (m_Type m = MsgApp \<longrightarrow> contiguous (m_LogIndex m + 1) (m_Entries m))"

text \<open>
  \<open>ok k n\<close>: the log is well-formed with room for \<open>k\<close> more entries below the largest index, what is
  applied has been persisted, queued messages carry contiguous entries, and somebody can vote.
\<close>

definition ok :: "nat \<Rightarrow> Node \<Rightarrow> bool" where
  "ok k n \<longleftrightarrow> wf_log (n_log n) \<and> lastIndex (n_log n) + k < 2 ^ 64 - 1
     \<and> applied (n_log n) \<le> n_stabled n
     \<and> (\<forall>m\<in>set (n_msgs n). wf_msg m) \<and> finite (n_voters n) \<and> n_voters n \<noteq> {}"

definition returns :: "(Node \<Rightarrow> bool) \<Rightarrow> Node option \<Rightarrow> bool" where
  "returns P r \<longleftrightarrow> (\<exists>n. r = Some n \<and> P n)"

named_theorems ok_intros

lemma returns_Some [simp]: "returns P (Some n) \<longleftrightarrow> P n"
  by (simp add: returns_def)

lemma returns_bind: "returns P r \<Longrightarrow> (\<And>n. P n \<Longrightarrow> returns Q (f n)) \<Longrightarrow> returns Q (r \<bind> f)"
  by (auto simp: returns_def)

lemma returns_mono: "returns P r \<Longrightarrow> (\<And>n. P n \<Longrightarrow> Q n) \<Longrightarrow> returns Q r"
  by (auto simp: returns_def)

lemma returns_if: "(c \<Longrightarrow> returns P a) \<Longrightarrow> (\<not> c \<Longrightarrow> returns P b) \<Longrightarrow> returns P (if c then a else b)"
  by simp

lemma ok_mono: "ok k n \<Longrightarrow> j \<le> k \<Longrightarrow> ok j n"
  by (auto simp: ok_def)

lemma ok_upd [ok_intros]:
  assumes "ok k n"
  shows "ok k (n\<lparr>n_next := f\<rparr>)" "ok k (n\<lparr>n_match := f\<rparr>)" "ok k (n\<lparr>n_readAcks := s\<rparr>)"
    "ok k (n\<lparr>n_transferee := i\<rparr>)" "ok k (n\<lparr>n_pendingReads := rs\<rparr>)" "ok k (n\<lparr>n_roundReads := rs\<rparr>)"
    "ok k (n\<lparr>n_readReady := rr\<rparr>)" "ok k (n\<lparr>n_pendingConfIndex := i\<rparr>)" "ok k (n\<lparr>n_lead := i\<rparr>)"
    "ok k (n\<lparr>n_preVotes := s\<rparr>)" "ok k (n\<lparr>n_votes := s\<rparr>)" "ok k (n\<lparr>n_role := r\<rparr>)" "ok k (n\<lparr>n_vote := i\<rparr>)"
    "ok k (n\<lparr>n_term := i\<rparr>)" "ok k (n\<lparr>n_electionElapsed := z\<rparr>)" "ok k (n\<lparr>n_leaseElapsed := z\<rparr>)"
    "ok k (n\<lparr>n_heartbeatElapse := z\<rparr>)" "ok k (n\<lparr>n_leaseAcks := la\<rparr>)" "ok k (n\<lparr>n_prevHard := h\<rparr>)"
    "ok k (resetElectionTimer n)"
  using assms by (simp_all add: ok_def)

lemma ok_send [ok_intros]: "ok k n \<Longrightarrow> wf_msg m \<Longrightarrow> ok k (send m n)"
  by (auto simp: ok_def send_def Let_def wf_msg_def)

lemma wf_msg_other [simp]: "m_Type m \<noteq> MsgApp \<Longrightarrow> wf_msg m"
  by (simp add: wf_msg_def)

section \<open>Calls that do not append\<close>

lemma slice_contiguous:
  assumes "wf_log l" "slice lo hi l = Some es"
  shows "contiguous lo es"
  using assms contiguous_drop [of "offset l" "entries l" "lo - offset l"]
  by (auto simp: slice_def wf_log_def split: if_splits)

lemma slice_total: "snapIndex l < lo \<Longrightarrow> offset l = snapIndex l + 1 \<Longrightarrow> lo \<le> hi \<Longrightarrow> hi \<le> lastIndex l + 1
    \<Longrightarrow> \<exists>es. slice lo hi l = Some es"
  by (auto simp: slice_def)

lemma sendAppend_ok [ok_intros]:
  assumes "ok k n"
  shows "returns (ok k) (sendAppend to n)"
proof -
  let ?l = "n_log n" and ?nxt = "mget (n_next n) to"
  have l: "wf_log ?l" "lastIndex ?l < 2 ^ 64 - 1" using assms by (auto simp: ok_def)
  show ?thesis
  proof (cases "log_term ?l (dec64 ?nxt)")
    case None
    then show ?thesis
      using assms by (simp add: sendAppend_def Let_def) (intro ok_intros, simp_all add: msg0_def)
  next
    case (Some t)
    then have b: "snapIndex ?l \<le> dec64 ?nxt" "dec64 ?nxt \<le> lastIndex ?l"
      using log_term_Some_iff [OF l(1)] by auto
    then have n: "?nxt \<noteq> 0" "dec64 ?nxt = ?nxt - 1" using l(2) by (auto simp: dec64_def split: if_splits)
    have "snapIndex ?l < ?nxt" "?nxt \<le> lastIndex ?l + 1" using b n by linarith+
    then obtain es where es: "slice ?nxt (lastIndex ?l + 1) ?l = Some es"
      using slice_total [of ?l ?nxt "lastIndex ?l + 1"] l(1) by (auto simp: wf_log_def)
    have "contiguous (dec64 ?nxt + 1) es"
      using slice_contiguous [OF l(1) es] n by simp
    then show ?thesis
      using assms Some es by (simp add: sendAppend_def Let_def) (intro ok_intros, simp_all add: wf_msg_def)
  qed
qed

lemma for_peers_ok:
  assumes "\<And>p n. ok k n \<Longrightarrow> returns (ok k) (f p n)" "ok k n"
  shows "returns (ok k) (for_peers f ps n)"
  using assms(2)
proof (induction ps arbitrary: n)
  case (Cons p ps)
  then show ?case using returns_bind [OF assms(1)] by auto
qed simp

lemma bcastAppend_ok [ok_intros]: "ok k n \<Longrightarrow> returns (ok k) (bcastAppend n)"
  unfolding bcastAppend_def by (rule for_peers_ok) (auto intro: ok_intros)

lemma bcastHeartbeat_ok [ok_intros]: "ok k n \<Longrightarrow> returns (ok k) (bcastHeartbeat n)"
  unfolding bcastHeartbeat_def by (auto intro!: ok_intros)

lemma bcastVote_ok [ok_intros]:
  assumes "ok k n" "t \<noteq> MsgApp"
  shows "returns (ok k) (bcastVote t tm n)"
  unfolding bcastVote_def
proof (rule for_peers_ok [OF _ assms(1)])
  fix p and m :: Node
  assume m: "ok k m"
  obtain lt where "lastTerm (n_log m) = Some lt"
    using m log_term_last by (auto simp: ok_def)
  then show "returns (ok k) (do { lt \<leftarrow> lastTerm (n_log m);
      Some (send ((msg0 t p)\<lparr>m_Term := tm, m_LogIndex := lastIndex (n_log m), m_LogTerm := lt\<rparr>) m) })"
    using m assms(2) by (simp add: ok_send)
qed

lemma length_matches: "finite (n_voters n) \<Longrightarrow> length (matches n) = card (n_voters n)"
  by (simp add: matches_def)

lemma maybeCommit_total:
  assumes "ok k n"
  obtains b n' where "maybeCommit n = Some (b, n')" "ok k n'"
proof -
  let ?n = "n\<lparr>n_match := (n_match n)(n_id n \<mapsto> min (n_stabled n) (lastIndex (n_log n)))\<rparr>"
  let ?c = "matches ?n ! (quorum ?n - 1)"
  have n: "ok k ?n" using assms by (intro ok_intros)
  have q: "quorum ?n - 1 < length (matches ?n)"
    using n by (simp add: length_matches quorum_def ok_def card_gt_0_iff)
  show ?thesis
  proof (cases "n_role n = Leader \<and> committed (n_log n) < ?c \<and> log_term (n_log n) ?c = Some (n_term n)")
    case True
    then have "?c \<le> lastIndex (n_log n)"
      using log_term_Some_iff [of "n_log n" ?c] assms by (auto simp: ok_def)
    then have c: "commitTo ?c (n_log n) = Some (n_log n\<lparr>committed := ?c\<rparr>)"
      using True by (simp add: commitTo_def)
    have "ok k (?n\<lparr>n_log := n_log n\<lparr>committed := ?c\<rparr>\<rparr>)"
      using n commitTo_wf [OF _ c] assms by (auto simp: ok_def lastIndex_def)
    moreover have nq: "\<not> length (matches ?n) \<le> quorum ?n - 1" using q by simp
    have "maybeCommit n = Some (True, ?n\<lparr>n_log := n_log n\<lparr>committed := ?c\<rparr>\<rparr>)"
      unfolding maybeCommit_def Let_def if_not_P [OF nq] using True c by simp
    ultimately show ?thesis using that by blast
  next
    case False
    have nq: "\<not> length (matches ?n) \<le> quorum ?n - 1" using q by simp
    have "maybeCommit n = Some (False, n) \<or> maybeCommit n = Some (False, ?n)"
      unfolding maybeCommit_def Let_def if_not_P [OF nq] using False by simp
    then show ?thesis using that assms n by blast
  qed
qed

lemma maybeCommit_bind [ok_intros]:
  assumes "ok k n" "\<And>b n. ok k n \<Longrightarrow> returns P (f b n)"
  shows "returns P (do { (b, n) \<leftarrow> maybeCommit n; f b n })"
  by (rule maybeCommit_total [OF assms(1)]) (simp add: assms(2))

lemma readRound_ok:
  "ok k n \<Longrightarrow> returns (ok k) (maybeStartReadRound n)" "ok k m \<Longrightarrow> returns (ok k) (confirmReadRound m)"
proof (induction n and m rule: maybeStartReadRound_confirmReadRound.induct)
  case (1 n)
  let ?n = "n\<lparr>n_roundReads := n_pendingReads n, n_pendingReads := [], n_readAcks := {n_id n}\<rparr>"
  have o: "ok k ?n" using "1.prems" by (intro ok_intros)
  show ?case
    unfolding maybeStartReadRound.simps [of n] Let_def
  proof (intro returns_if)
    assume a: "\<not> (roundActive n \<or> n_pendingReads n = [] \<or> n_role n \<noteq> Leader)"
    note IH = "1.IH" [OF a refl]
    show "returns (ok k) (confirmReadRound ?n)" if "n_useLease ?n \<and> n_leaseElapsed ?n < n_electionTick ?n"
      by (rule IH(1) [OF that o])
    show "returns (ok k) (confirmReadRound ?n)"
      if "\<not> (n_useLease ?n \<and> n_leaseElapsed ?n < n_electionTick ?n)" "quorum ?n \<le> card (n_readAcks ?n)"
      by (rule IH(2) [OF that o])
    show "returns (ok k) (bcastHeartbeat ?n)" by (rule bcastHeartbeat_ok [OF o])
  qed (use "1.prems" in simp)
next
  case (2 n)
  then show ?case unfolding confirmReadRound.simps [of n] by (auto intro: ok_intros)
qed

lemma renewLeaseAck_ok [ok_intros]: "ok k n \<Longrightarrow> ok k (renewLeaseAck f n)"
  by (auto simp: renewLeaseAck_def Let_def intro!: ok_intros)

lemma ackReads_ok [ok_intros]: "ok k n \<Longrightarrow> returns (ok k) (ackReads f n)"
  by (auto simp: ackReads_def Let_def intro!: ok_intros readRound_ok)

section \<open>Calls that append\<close>

lemma ok_append:
  assumes "ok (k + length es) n" "contiguous (lastIndex (n_log n) + 1) es"
  shows "log_append es (n_log n) = Some (n_log n\<lparr>entries := entries (n_log n) @ es\<rparr>)"
    and "ok k (n\<lparr>n_log := n_log n\<lparr>entries := entries (n_log n) @ es\<rparr>\<rparr>)"
proof -
  have l: "wf_log (n_log n)" using assms(1) by (simp add: ok_def)
  show "log_append es (n_log n) = Some (n_log n\<lparr>entries := entries (n_log n) @ es\<rparr>)"
    by (rule log_append_ok [OF l assms(2)])
  show "ok k (n\<lparr>n_log := n_log n\<lparr>entries := entries (n_log n) @ es\<rparr>\<rparr>)"
    using assms(1) log_append_ok(2) [OF l assms(2)] l by (auto simp: ok_def lastIndex_def wf_log_def)
qed

lemma becomeLeader_ok [ok_intros]:
  assumes "ok (Suc k) n" "n_role n = Candidate"
  shows "returns (ok k) (becomeLeader n)"
proof -
  define n1 where "n1 = n\<lparr>n_role := Leader, n_lead := n_id n, n_transferee := 0, n_heartbeatElapse := 0,
      n_leaseElapsed := 0, n_leaseAcks := None, n_roundReads := [], n_pendingReads := [], n_readAcks := {},
      n_next := (\<lambda>p. if p \<in> set (n_peers n) then Some (lastIndex (n_log n) + 1) else None),
      n_match := (\<lambda>p. if p \<in> set (n_peers n) then Some 0 else None)\<rparr>"
  let ?e = "\<lparr>e_Type = EntryNormal, e_Index = lastIndex (n_log n) + 1, e_Term = n_term n, e_Data = []\<rparr>"
  have n1: "n_log n1 = n_log n" "n_term n1 = n_term n" by (simp_all add: n1_def)
  have "ok (k + length [?e]) n1"
    using assms(1) unfolding n1_def by (simp, intro ok_intros)
  then have a: "log_append [?e] (n_log n) = Some (n_log n\<lparr>entries := entries (n_log n) @ [?e]\<rparr>)"
    "ok k (n1\<lparr>n_log := n_log n\<lparr>entries := entries (n_log n) @ [?e]\<rparr>\<rparr>)"
    using ok_append [of k "[?e]" n1] n1 by auto
  have "becomeLeader n = do { (_, n) \<leftarrow> maybeCommit (n1\<lparr>n_log := n_log n\<lparr>entries := entries (n_log n) @ [?e]\<rparr>\<rparr>);
      bcastHeartbeat n }"
    using assms(2) a(1) by (simp add: becomeLeader_def n1_def Let_def)
  then show ?thesis
    using a(2) by (auto intro!: ok_intros)
qed

lemma becomeCandidate_ok:
  assumes "ok k n" "n_role n \<noteq> Leader"
  obtains n' where "becomeCandidate n = Some n'" "ok k n'" "n_role n' = Candidate"
proof -
  let ?n1 = "resetElectionTimer (n\<lparr>n_term := n_term n + 1, n_vote := 0, n_lead := 0, n_votes := {}, n_preVotes := {}\<rparr>)"
  let ?n2 = "?n1\<lparr>n_role := Candidate, n_vote := n_id ?n1, n_votes := insert (n_id ?n1) (n_votes ?n1)\<rparr>"
  have "becomeCandidate n = Some ?n2"
    using assms(2) by (simp add: becomeCandidate_def reset_def Let_def)
  moreover have "ok k ?n2" using assms(1) by (intro ok_intros)
  ultimately show ?thesis using that by simp
qed

lemma startElection_ok [ok_intros]:
  assumes "ok (Suc k) n" "n_role n \<noteq> Leader"
  shows "returns (ok k) (startElection n)"
proof -
  obtain n1 where n1: "becomeCandidate n = Some n1" "ok (Suc k) n1" "n_role n1 = Candidate"
    using becomeCandidate_ok [OF assms] .
  have "ok k n1" using n1(2) by (rule ok_mono) simp
  then show ?thesis
    using n1 by (auto simp: startElection_def intro!: ok_intros)
qed

lemma Campaign_ok [ok_intros]:
  assumes "ok (Suc k) n" "n_role n \<noteq> Leader"
  shows "returns (ok k) (Campaign n)"
proof -
  have k: "ok k n" using assms(1) by (rule ok_mono) simp
  let ?n = "resetElectionTimer (n\<lparr>n_role := Candidate, n_lead := 0, n_preVotes := {n_id n}\<rparr>)"
  have n: "ok (Suc k) ?n" "ok k ?n" using assms(1) k by (auto intro!: ok_intros)
  show ?thesis
  proof (cases "n_id n \<in> n_voters n")
    case True
    then have "Campaign n = (if card (n_preVotes ?n) \<ge> quorum ?n then startElection ?n
        else bcastVote MsgPreVote (n_term ?n + 1) ?n)"
      using assms(2) by (simp add: Campaign_def becomePreCandidate_def)
    then show ?thesis using n by (auto intro!: ok_intros)
  qed (use k in \<open>simp add: Campaign_def\<close>)
qed

lemma Tick_ok:
  assumes "ok (Suc k) n"
  shows "returns (ok k) (Tick n)"
proof -
  have "ok k n" using assms by (rule ok_mono) simp
  then show ?thesis
    using assms unfolding Tick_def Let_def by (auto intro!: ok_intros)
qed

lemma contiguous_propose: "contiguous i (propose_entries i t es)"
  by (induction es arbitrary: i) auto

lemma length_propose [simp]: "length (propose_entries i t es) = length es"
  by (induction es arbitrary: i) auto

definition returns2 :: "(Node \<Rightarrow> bool) \<Rightarrow> ('a \<times> Node) option \<Rightarrow> bool" where
  "returns2 P r \<longleftrightarrow> (\<exists>a n. r = Some (a, n) \<and> P n)"

lemma handlePropose_ok:
  assumes "ok (k + length (m_Entries m)) n"
  shows "returns2 (ok k) (handlePropose m n)"
proof (cases "n_role n \<noteq> Leader \<or> n_transferee n \<noteq> 0")
  case True
  have "ok k n" using assms by (rule ok_mono) simp
  then show ?thesis using True by (auto simp: handlePropose_def returns2_def)
next
  case False
  let ?es = "propose_entries (lastIndex (n_log n) + 1) (n_term n) (m_Entries m)"
  let ?n = "n\<lparr>n_log := n_log n\<lparr>entries := entries (n_log n) @ ?es\<rparr>\<rparr>"
  have a: "log_append ?es (n_log n) = Some (n_log ?n)" "ok k ?n"
    using ok_append [of k ?es n] assms contiguous_propose by auto
  obtain b n1 where n1: "maybeCommit ?n = Some (b, n1)" "ok k n1"
    using maybeCommit_total [OF a(2)] .
  obtain n2 where "bcastAppend n1 = Some n2" "ok k n2"
    using bcastAppend_ok [OF n1(2)] by (auto simp: returns_def)
  then show ?thesis using False a(1) n1 by (simp add: handlePropose_def returns2_def)
qed

lemma ProposeConfChange_ok:
  assumes "ok (Suc k) n"
  shows "returns2 (ok k) (ProposeConfChange cc n)"
proof (cases "n_role n \<noteq> Leader \<or> n_pendingConfIndex n > applied (n_log n)")
  case True
  have "ok k n" using assms by (rule ok_mono) simp
  then show ?thesis using True by (auto simp: ProposeConfChange_def returns2_def)
next
  case False
  let ?e = "\<lparr>e_Type = EntryConfChange, e_Index = lastIndex (n_log n) + 1, e_Term = n_term n,
      e_Data = ConfChange_Encode cc\<rparr>"
  let ?n = "n\<lparr>n_log := n_log n\<lparr>entries := entries (n_log n) @ [?e]\<rparr>\<rparr>"
  let ?n' = "?n\<lparr>n_pendingConfIndex := lastIndex (n_log n) + 1\<rparr>"
  have a: "log_append [?e] (n_log n) = Some (n_log ?n)" "ok k ?n"
    using ok_append [of k "[?e]" n] assms by auto
  then have "ok k ?n'" by (intro ok_intros)
  then obtain b n1 where n1: "maybeCommit ?n' = Some (b, n1)" "ok k n1"
    using maybeCommit_total by blast
  obtain n2 where "bcastAppend n1 = Some n2" "ok k n2"
    using bcastAppend_ok [OF n1(2)] by (auto simp: returns_def)
  then show ?thesis using False a(1) n1 by (simp add: ProposeConfChange_def returns2_def Let_def)
qed

section \<open>Message handlers\<close>

text \<open>What a peer following the protocol sends: contiguous entries that do not contradict what is committed here, and never a timeout order to a leader in its own term.\<close>

definition obeys :: "nat \<Rightarrow> Message \<Rightarrow> Node \<Rightarrow> bool" where
  "obeys k m n \<longleftrightarrow> wf_msg m
     \<and> (m_Type m = MsgApp \<longrightarrow> m_LogIndex m + length (m_Entries m) + k < 2 ^ 64 - 1
          \<and> (n_term n \<le> m_Term m \<and> log_term (n_log n) (m_LogIndex m) = Some (m_LogTerm m) \<longrightarrow>
               respects_commit (n_log n) (m_Entries m)))
     \<and> (m_Type m = MsgTimeoutNow \<longrightarrow> n_role n = Leader \<longrightarrow> m_Term m \<noteq> n_term n)"

lemma merged_lastIndex_le:
  assumes "wf_log l" "wf_log l'" "merged l k es l'"
  shows "lastIndex l' \<le> max (lastIndex l) (k + length es - 1)"
proof (rule ccontr)
  assume "\<not> ?thesis"
  then have a: "lastIndex l < lastIndex l'" "k + length es \<le> lastIndex l'" by auto
  have "snapIndex l \<le> lastIndex l" using assms(1) by (auto simp: wf_log_def)
  moreover have "snapIndex l' = snapIndex l"
    "entry_at l' (lastIndex l') = (if conflict l es then None else entry_at l (lastIndex l'))"
    using assms(3) a(2) by (auto simp: merged_def)
  ultimately show False
    using a(1) entry_at_None_iff [OF assms(1), of "lastIndex l'"] entry_at_None_iff [OF assms(2), of "lastIndex l'"]
    by (auto split: if_splits)
qed

lemma handleApp_ok:
  assumes "ok k n" "m_Type m = MsgApp" "obeys k m n" "n_term n \<le> m_Term m"
  shows "returns (ok k) (handleApp m n)"
proof -
  let ?n = "resetElectionTimer (n\<lparr>n_role := Follower, n_lead := m_From m\<rparr>)"
  have n: "ok k ?n" using assms(1) by (intro ok_intros)
  have wf: "wf_log (n_log n)" "contiguous (m_LogIndex m + 1) (m_Entries m)"
    using assms(1-3) by (auto simp: ok_def obeys_def wf_msg_def)
  show ?thesis
  proof (cases "log_term (n_log n) (m_LogIndex m) = Some (m_LogTerm m)")
    case False
    then have "maybeAppend (m_LogIndex m) (m_LogTerm m) (m_Commit m) (m_Entries m) (n_log ?n) = Some (None, n_log n)"
      by (simp add: maybeAppend_def)
    moreover have "ok k (?n\<lparr>n_log := n_log n\<rparr>)" using n by (simp add: ok_def)
    ultimately show ?thesis by (simp add: handleApp_def Let_def ok_send)
  next
    case True
    then have "respects_commit (n_log n) (m_Entries m)" using assms(2-4) by (auto simp: obeys_def)
    then obtain l1 l where l: "maybeAppend (m_LogIndex m) (m_LogTerm m) (m_Commit m) (m_Entries m) (n_log n) =
        Some (Some (m_LogIndex m + length (m_Entries m)), l)" "wf_log l" "wf_log l1"
      "merged (n_log n) (m_LogIndex m + 1) (m_Entries m) l1"
      "l = l1\<lparr>committed := max (committed (n_log n)) (min (m_Commit m) (m_LogIndex m + length (m_Entries m)))\<rparr>"
      using maybeAppend_accepts_lemma [OF wf True] by metis
    have "lastIndex l = lastIndex l1" "applied l = applied (n_log n)"
      using l(4,5) by (auto simp: lastIndex_def merged_def)
    then have "ok k (?n\<lparr>n_log := l\<rparr>)"
      using n l(2) merged_lastIndex_le [OF wf(1) l(3,4)] assms(2,3) by (auto simp: ok_def obeys_def)
    then show ?thesis using l(1) by (simp add: handleApp_def Let_def ok_send)
  qed
qed

lemma recordMatch_ok [ok_intros]: "ok k n \<Longrightarrow> returns (ok k) (recordMatch f li n)"
  unfolding recordMatch_def by (auto intro!: returns_if ok_intros)

lemma handleAppResp_ok:
  assumes "ok k n"
  shows "returns (ok k) (handleAppResp m n)"
  unfolding handleAppResp_def
proof (intro returns_if)
  show "returns (ok k) (sendAppend (m_From m) (if m_LogIndex m < mget (n_next n) (m_From m)
      then n\<lparr>n_next := (n_next n)(m_From m \<mapsto> max (m_LogIndex m) 1)\<rparr> else n))"
    using assms by (auto intro!: ok_intros)
  show "returns (ok k) (do {
        n \<leftarrow> recordMatch (m_From m) (m_LogIndex m) n;
        n \<leftarrow> ackReads (m_From m) (renewLeaseAck (m_From m) n);
        Some (if n_transferee n = m_From m \<and> mget (n_match n) (m_From m) \<ge> lastIndex (n_log n)
              then send (msg0 MsgTimeoutNow (m_From m)) n else n) })"
    using assms by (intro returns_bind [of "ok k"] recordMatch_ok ackReads_ok renewLeaseAck_ok)
      (auto intro!: ok_intros)
qed (use assms in simp_all)

lemma isUpToDate_total: "ok k n \<Longrightarrow> \<exists>b. isUpToDate li lt (n_log n) = Some b"
  using log_term_last [of "n_log n"] by (auto simp: ok_def isUpToDate_def)

lemma handleVote_ok: "ok k n \<Longrightarrow> returns (ok k) (handleVote m n)"
  using isUpToDate_total [of k n "m_LogIndex m" "m_LogTerm m"]
  by (auto simp: handleVote_def Let_def intro!: ok_intros)

lemma handlePreVote_ok: "ok k n \<Longrightarrow> returns (ok k) (handlePreVote m n)"
  using isUpToDate_total [of k n "m_LogIndex m" "m_LogTerm m"]
  by (auto simp: handlePreVote_def intro!: ok_intros)

lemma handleVoteResp_ok:
  assumes "ok (Suc k) n"
  shows "returns (ok k) (handleVoteResp m n)"
proof -
  let ?n = "if \<not> m_Reject m \<and> m_From m \<in> n_voters n then n\<lparr>n_votes := insert (m_From m) (n_votes n)\<rparr> else n"
  have "ok (Suc k) ?n" "n_role ?n = n_role n" using assms by (auto intro: ok_intros)
  moreover from this(1) have "ok k ?n" by (rule ok_mono) simp
  moreover have "ok k n" using assms by (rule ok_mono) simp
  ultimately show ?thesis
    unfolding handleVoteResp_def Let_def by (intro returns_if) (simp_all add: becomeLeader_ok)
qed

lemma handlePreVoteResp_ok:
  assumes "ok (Suc k) n"
  shows "returns (ok k) (handlePreVoteResp m n)"
proof -
  let ?n = "if \<not> m_Reject m \<and> m_From m \<in> n_voters n then n\<lparr>n_preVotes := insert (m_From m) (n_preVotes n)\<rparr> else n"
  have "ok (Suc k) ?n" "n_role ?n = n_role n" using assms by (auto intro: ok_intros)
  moreover from this(1) have "ok k ?n" by (rule ok_mono) simp
  moreover have "ok k n" using assms by (rule ok_mono) simp
  ultimately show ?thesis
    unfolding handlePreVoteResp_def Let_def by (intro returns_if) (simp_all add: startElection_ok)
qed

lemma dispatch_ok:
  assumes "ok (Suc k) n" "obeys k m n" "m_Term m = n_term n"
  shows "returns (ok k) (dispatch m n)"
proof -
  have "ok k n" using assms(1) by (rule ok_mono) simp
  then show ?thesis
    using assms handleVote_ok handleVoteResp_ok handleApp_ok [of k n m] handleAppResp_ok startElection_ok
    by (cases "m_Type m") (auto simp: dispatch_def obeys_def)
qed

lemma becomeFollower_ok:
  assumes "ok k n" "n_term n < t"
  obtains n' where "becomeFollower t l n = Some n'" "ok k n'" "n_term n' = t" "n_log n' = n_log n" "n_role n' = Follower"
proof -
  let ?n = "resetElectionTimer (n\<lparr>n_term := t, n_vote := 0, n_lead := 0, n_votes := {}, n_preVotes := {}\<rparr>)
      \<lparr>n_role := Follower, n_lead := l\<rparr>"
  have "becomeFollower t l n = Some ?n"
    using assms(2) by (simp add: becomeFollower_def reset_def Let_def)
  moreover have "ok k ?n" using assms(1) by (intro ok_intros)
  ultimately show ?thesis using that by simp
qed

lemma Step_ok:
  assumes "ok (k + length (m_Entries m) + 1) n" "obeys k m n"
  shows "returns2 (ok k) (Step m n)"
proof -
  have n: "ok (k + length (m_Entries m)) n" "ok (Suc k) n" "ok k n"
    using assms(1) by (auto elim: ok_mono)
  have pair: "returns (ok k) r \<Longrightarrow> returns2 (ok k) (do { n \<leftarrow> r; Some (None, n) })" for r
    by (auto simp: returns_def returns2_def)
  consider "m_Type m = MsgProp" | "m_Type m = MsgPreVote" | "m_Type m = MsgPreVoteResp"
    | (rest) "m_Type m \<noteq> MsgProp" "m_Type m \<noteq> MsgPreVote" "m_Type m \<noteq> MsgPreVoteResp" by blast
  then show ?thesis
  proof cases
    case rest
    consider (stale) "m_Term m < n_term n" | (same) "m_Term m = n_term n" | (newer) "n_term n < m_Term m"
      by linarith
    then show ?thesis
    proof cases
      case stale
      then show ?thesis
        using rest n(3) by (auto simp: Step_def returns2_def intro: ok_intros)
    next
      case same
      then show ?thesis using rest pair [OF dispatch_ok [OF n(2) assms(2)]] by (simp add: Step_def)
    next
      case newer
      obtain n' where n': "becomeFollower (m_Term m) (if m_Type m = MsgApp then m_From m else 0) n = Some n'"
        "ok (Suc k) n'" "n_term n' = m_Term m" "n_log n' = n_log n" "n_role n' = Follower"
        using becomeFollower_ok [OF n(2) newer] .
      have "obeys k m n'" using assms(2) newer n'(3-5) by (auto simp: obeys_def)
      then show ?thesis
        using rest newer n'(1) pair [OF dispatch_ok [OF n'(2) _ n'(3) [symmetric]]]
        unfolding Step_def by simp
    qed
  qed (use n handlePropose_ok handlePreVote_ok handlePreVoteResp_ok in \<open>auto simp: Step_def intro!: pair\<close>)
qed


section \<open>Ready and Advance\<close>

lemma applyConfChange_frame [simp]:
  "n_log (applyConfChange cc n) = n_log n" "n_stabled (applyConfChange cc n) = n_stabled n"
  "n_msgs (applyConfChange cc n) = n_msgs n"
  by (auto simp: applyConfChange_def rebuildPeers_def initProgress_def split: ConfChangeType.splits)

lemma apply_conf_entries_frame [simp]:
  "n_log (apply_conf_entries es n) = n_log n" "n_stabled (apply_conf_entries es n) = n_stabled n"
  "n_msgs (apply_conf_entries es n) = n_msgs n"
  by (induction es arbitrary: n) (auto split: option.splits)

lemma slice_spec:
  assumes "wf_log l" "snapIndex l < lo" "lo \<le> hi" "hi \<le> lastIndex l + 1"
  obtains es where "slice lo hi l = Some es" "contiguous lo es" "length es = hi - lo"
    "\<And>e. e \<in> set es \<Longrightarrow> entry_at l (e_Index e) = Some e"
proof -
  have o: "offset l = snapIndex l + 1" using assms(1) by (simp add: wf_log_def)
  obtain es where es: "slice lo hi l = Some es" using slice_total [OF assms(2) o assms(3,4)] by blast
  have c: "contiguous lo es" by (rule slice_contiguous [OF assms(1) es])
  have def: "es = take (hi - lo) (drop (lo - offset l) (entries l))"
    using es by (auto simp: slice_def split: if_splits)
  have len: "length es = hi - lo"
    using assms(2-4) o by (simp add: def lastIndex_def)
  have "entry_at l (e_Index e) = Some e" if g: "e \<in> set es" for e
  proof -
    obtain j where j: "j < length es" "e = es ! j" using g by (auto simp: in_set_conv_nth)
    then have "e_Index e = lo + j" using c by (simp add: contiguous_def)
    moreover have "es ! j = entries l ! (lo - offset l + j)"
      using j(1) assms(2-4) o by (simp add: def lastIndex_def)
    moreover have "lo + j - offset l = lo - offset l + j" using assms(2) o by simp
    ultimately show ?thesis using j len assms(2-4) o by (simp add: entry_at_def)
  qed
  then show ?thesis using that es c len by blast
qed

definition applyTo :: "Node \<Rightarrow> nat" where
  "applyTo n = min (committed (n_log n)) (n_stabled n)"

lemma Ready_total:
  assumes "ok k n"
  obtains rd where "Node_Ready n = Some (rd, n\<lparr>n_msgs := []\<rparr>)" "rd_Messages rd = n_msgs n"
    "contiguous (n_stabled n + 1) (rd_Entries rd)" "n_stabled n + length (rd_Entries rd) = max (n_stabled n) (lastIndex (n_log n))"
    "contiguous (applied (n_log n) + 1) (rd_CommittedEntries rd)"
    "applied (n_log n) + length (rd_CommittedEntries rd) = applyTo n"
    "\<forall>e\<in>set (rd_CommittedEntries rd). entry_at (n_log n) (e_Index e) = Some e"
proof -
  let ?l = "n_log n"
  have w: "wf_log ?l" "snapIndex ?l \<le> applied ?l" "applied ?l \<le> committed ?l" "committed ?l \<le> lastIndex ?l"
    "applied ?l \<le> n_stabled n" using assms by (auto simp: ok_def wf_log_def)
  obtain es where es: "(if lastIndex ?l > n_stabled n then slice (n_stabled n + 1) (lastIndex ?l + 1) ?l else Some []) = Some es"
    "contiguous (n_stabled n + 1) es" "n_stabled n + length es = max (n_stabled n) (lastIndex ?l)"
  proof (cases "lastIndex ?l > n_stabled n")
    case True
    obtain es where "slice (n_stabled n + 1) (lastIndex ?l + 1) ?l = Some es" "contiguous (n_stabled n + 1) es"
      "length es = lastIndex ?l + 1 - (n_stabled n + 1)"
      by (rule slice_spec [OF w(1), of "n_stabled n + 1" "lastIndex ?l + 1"]) (use True w in auto)
    then show ?thesis using True that by simp
  qed (use that [of "[]"] in auto)
  obtain cs where cs: "(if applyTo n > applied ?l then slice (applied ?l + 1) (applyTo n + 1) ?l else Some []) = Some cs"
    "contiguous (applied ?l + 1) cs" "applied ?l + length cs = applyTo n"
    "\<And>e. e \<in> set cs \<Longrightarrow> entry_at ?l (e_Index e) = Some e"
  proof (cases "applyTo n > applied ?l")
    case True
    obtain cs where "slice (applied ?l + 1) (applyTo n + 1) ?l = Some cs" "contiguous (applied ?l + 1) cs"
      "length cs = applyTo n + 1 - (applied ?l + 1)" "\<And>e. e \<in> set cs \<Longrightarrow> entry_at ?l (e_Index e) = Some e"
      by (rule slice_spec [OF w(1), of "applied ?l + 1" "applyTo n + 1"]) (use True w in \<open>auto simp: applyTo_def\<close>)
    then show ?thesis using True that by simp
  next
    case False
    then have "applyTo n = applied ?l" using w(3,5) unfolding applyTo_def by linarith
    then show ?thesis using that [of "[]"] by simp
  qed
  show ?thesis
    by (rule that [of "\<lparr>rd_HardState = if hardState n \<noteq> n_prevHard n then Some (hardState n) else None,
        rd_Entries = es, rd_CommittedEntries = cs, rd_Messages = n_msgs n, rd_ReadStates = readyReadStates n\<rparr>"])
      (use es cs in \<open>auto simp: Node_Ready_def Let_def applyTo_def\<close>)
qed

lemma contiguous_last: "contiguous i es \<Longrightarrow> es \<noteq> [] \<Longrightarrow> e_Index (last es) = i + length es - 1"
  by (cases es rule: rev_cases) (auto simp: contiguous_def nth_append)

lemma commitTo_frame:
  "commitTo c l = Some l' \<Longrightarrow> committed l \<le> committed l' \<and> applied l' = applied l \<and> entries l' = entries l"
  by (auto simp: commitTo_def split: if_splits)

lemma maybeCommit_frame:
  assumes "maybeCommit n = Some (b, n')"
  shows "committed (n_log n) \<le> committed (n_log n')" "applied (n_log n') = applied (n_log n)"
    "n_stabled n' = n_stabled n" "n_msgs n' = n_msgs n" "entries (n_log n') = entries (n_log n)"
proof -
  have "committed (n_log n) \<le> committed (n_log n') \<and> applied (n_log n') = applied (n_log n)
      \<and> n_stabled n' = n_stabled n \<and> n_msgs n' = n_msgs n \<and> entries (n_log n') = entries (n_log n)"
    using assms
  proof (cases rule: maybeCommit_cases)
    case (moved m l)
    show ?thesis using commitTo_frame [OF moved(4)] moved(1) by simp
  qed simp_all
  then show "committed (n_log n) \<le> committed (n_log n')" "applied (n_log n') = applied (n_log n)"
    "n_stabled n' = n_stabled n" "n_msgs n' = n_msgs n" "entries (n_log n') = entries (n_log n)" by blast+
qed

lemma persist_step:
  assumes "ok k n" "contiguous (n_stabled n + 1) es" "n_stabled n + length es = max (n_stabled n) (lastIndex (n_log n))"
  obtains n' where "(if es \<noteq> [] then do { (_, n) \<leftarrow> maybeCommit (n\<lparr>n_stabled := e_Index (last es)\<rparr>); Some n }
      else Some n) = Some n'"
    "wf_log (n_log n')" "committed (n_log n) \<le> committed (n_log n')" "applied (n_log n') = applied (n_log n)"
    "n_stabled n' = max (n_stabled n) (lastIndex (n_log n))" "n_msgs n' = n_msgs n"
    "entries (n_log n') = entries (n_log n)"
proof (cases "es = []")
  case True
  then show ?thesis using that [of n] assms by (auto simp: ok_def)
next
  case False
  let ?n = "n\<lparr>n_stabled := e_Index (last es)\<rparr>"
  have st: "e_Index (last es) = max (n_stabled n) (lastIndex (n_log n))"
    using contiguous_last [OF assms(2) False] assms(3) by simp
  have "ok k ?n" using assms(1) st by (auto simp: ok_def wf_log_def)
  then obtain b n2 where m: "maybeCommit ?n = Some (b, n2)" "ok k n2" using maybeCommit_total by blast
  have w: "wf_log (n_log n2)" using m(2) by (simp add: ok_def)
  note fr = maybeCommit_frame [OF m(1)]
  show ?thesis by (rule that [of n2]) (use False m(1) w fr st in simp_all)
qed

lemma apply_step:
  assumes "wf_log (n_log n)" "contiguous (applied (n_log n) + 1) cs" "applied (n_log n) + length cs \<le> committed (n_log n)"
  obtains n' where "(if cs \<noteq> [] then do {
        let n = apply_conf_entries cs n;
        l \<leftarrow> appliedTo (e_Index (last cs)) (n_log n);
        Some (n\<lparr>n_log := l\<rparr>) } else Some n) = Some n'"
    "applied (n_log n') = applied (n_log n) + length cs" "n_stabled n' = n_stabled n" "n_msgs n' = n_msgs n"
    "wf_log (n_log n')" "entries (n_log n') = entries (n_log n)"
proof (cases "cs = []")
  case True
  then show ?thesis using that [of n] assms by simp
next
  case False
  let ?i = "applied (n_log n) + length cs"
  have i: "e_Index (last cs) = ?i" using contiguous_last [OF assms(2) False] by simp
  have a: "appliedTo ?i (n_log n) = Some (n_log n\<lparr>applied := ?i\<rparr>)"
    using assms(3) by (simp add: appliedTo_def)
  then show ?thesis
    using that [of "apply_conf_entries cs n\<lparr>n_log := n_log n\<lparr>applied := ?i\<rparr>\<rparr>"] False i appliedTo_wf [OF assms(1) a] by simp
qed


section \<open>A concrete member\<close>

text \<open>A group of one: the member stands, wins, persists its no-op and has it committed.\<close>

definition solo_cfg :: Config where
  "solo_cfg = \<lparr>c_ID = 1, c_Peers = [1], c_ElectionTick = 0, c_HeartbeatTick = 0,
     c_Rand = Some (\<lambda>_ _. 0), c_LeaseRead = False\<rparr>"

definition drain_node :: "Node \<Rightarrow> Node option" where
  "drain_node n = do { (rd, n) \<leftarrow> Node_Ready n; Advance rd n }"

definition solo_leader :: Node where
  "solo_leader = the (do { n \<leftarrow> NewNodeConfig solo_cfg; n \<leftarrow> Campaign n; drain_node n })"

lemma solo_leader_facts:
  "committed (n_log solo_leader) = 1" "applied (n_log solo_leader) = 0" "n_stabled solo_leader = 1"
  "lastIndex (n_log solo_leader) = 1" "n_msgs solo_leader = []" "n_voters solo_leader = {1}"
  "n_term solo_leader = 1" "n_role solo_leader = Leader" "wf_log (n_log solo_leader)"
  by code_simp+

lemma solo_leader_ok: "k \<le> 1000 \<Longrightarrow> ok k solo_leader"
  by (simp add: ok_def solo_leader_facts)


definition solo_heartbeat :: Message where
  "solo_heartbeat = (msg0 MsgApp 1)\<lparr>m_From := 2, m_Term := 2, m_LogIndex := 1, m_LogTerm := 1, m_Commit := 1\<rparr>"


end
