(* ===== verification/RaftCommit.thy ===== *)
theory RaftCommit
  imports RaftInv RaftNet
begin

text \<open>
  The commit rule of a leader, the codec of configuration changes, and three executions of the core
  that a reader of \<^verbatim>\<open>raft.go\<close> would not expect: a candidate that lost an election cannot start another
  one by itself, an entry that replaces a persisted one is acknowledged but never handed over for
  persistence, and removing the last voter makes the next proposal panic.
\<close>

section \<open>Order statistics\<close>

lemma filter_ge_length:
  fixes xs :: "nat list"
  assumes "k < length xs"
  shows "k < length (filter (\<lambda>x. rev (sort xs) ! k \<le> x) xs)"
proof -
  let ?ys = "rev (sort xs)" and ?P = "\<lambda>x. rev (sort xs) ! k \<le> x"
  have d: "sorted_wrt (\<ge>) ?ys" by (simp add: sorted_wrt_rev)
  have "\<forall>x\<in>set (take (Suc k) ?ys). ?P x"
    using d assms by (auto simp: in_set_conv_nth sorted_wrt_iff_nth_less less_Suc_eq)
  then have "length (filter ?P (take (Suc k) ?ys)) = Suc k" using assms by simp
  moreover have "length (filter ?P ?ys) = length (filter ?P (take (Suc k) ?ys)) + length (filter ?P (drop (Suc k) ?ys))"
    by (metis append_take_drop_id filter_append length_append)
  moreover have "length (filter ?P ?ys) = length (filter ?P xs)"
    by (simp add: filter_sort flip: rev_filter)
  ultimately show ?thesis by linarith
qed

lemma filter_gt_length:
  fixes xs :: "nat list"
  assumes "k < length xs" "rev (sort xs) ! k < i"
  shows "length (filter (\<lambda>x. i \<le> x) xs) \<le> k"
proof -
  let ?ys = "rev (sort xs)" and ?P = "\<lambda>x. i \<le> x"
  have d: "sorted_wrt (\<ge>) ?ys" by (simp add: sorted_wrt_rev)
  have "\<not> ?P x" if g: "x \<in> set (drop k ?ys)" for x
  proof -
    obtain j where "j < length xs - k" "x = ?ys ! (k + j)" using g assms(1) by (auto simp: in_set_conv_nth)
    then have "x \<le> ?ys ! k" using d by (cases j) (auto simp: sorted_wrt_iff_nth_less)
    then show ?thesis using assms(2) by simp
  qed
  then have "filter ?P (drop k ?ys) = []" by (simp add: filter_empty_conv)
  moreover have "length (filter ?P ?ys) = length (filter ?P (take k ?ys)) + length (filter ?P (drop k ?ys))"
    by (metis append_take_drop_id filter_append length_append)
  moreover have "length (filter ?P (take k ?ys)) \<le> k" by (rule le_trans [OF length_filter_le]) simp
  moreover have "length (filter ?P ?ys) = length (filter ?P xs)"
    by (simp add: filter_sort flip: rev_filter)
  ultimately show ?thesis by simp
qed

definition holders :: "Node \<Rightarrow> nat \<Rightarrow> nat set" where
  "holders n i = {p \<in> n_voters n. i \<le> mget (n_match n) p}"

lemma card_holders:
  assumes "finite (n_voters n)"
  shows "card (holders n i) = length (filter (\<lambda>x. i \<le> x) (map (mget (n_match n)) (sorted_list_of_set (n_voters n))))"
proof -
  have "holders n i = set (filter (\<lambda>p. i \<le> mget (n_match n) p) (sorted_list_of_set (n_voters n)))"
    using assms by (auto simp: holders_def)
  also have "card \<dots> = length (filter (\<lambda>p. i \<le> mget (n_match n) p) (sorted_list_of_set (n_voters n)))"
    by (rule distinct_card) simp
  finally show ?thesis by (simp add: filter_map o_def)
qed

text \<open>
  C7. The commit rule.  When a leader moves its commit index, the new index is an entry of the leader's
  own term, is recorded as matched by a majority of the voters, and is the largest index a majority
  holds; when the flag is false the commit index has not moved.
\<close>

theorem leader_commits_by_quorum:
  assumes "maybeCommit n = Some (moved, n')" "finite (n_voters n)"
  shows "if moved
    then n_role n = Leader \<and> committed (n_log n) < committed (n_log n')
      \<and> log_term (n_log n) (committed (n_log n')) = Some (n_term n)
      \<and> card (n_voters n) < 2 * card (holders n' (committed (n_log n')))
      \<and> (\<forall>i > committed (n_log n'). 2 * card (holders n' i) \<le> card (n_voters n))
    else n_log n' = n_log n"
  using assms(1)
proof (cases rule: maybeCommit_cases)
  case (moved m l)
  let ?n = "n\<lparr>n_match := m\<rparr>" and ?ms = "map (mget m) (sorted_list_of_set (n_voters n))"
  let ?c = "matches ?n ! (quorum n - 1)"
  have ms: "matches ?n = rev (sort ?ms)" by (simp add: matches_def)
  have q: "quorum n - 1 = card (n_voters n) div 2" by (simp add: quorum_def)
  have len: "quorum n - 1 < length ?ms" using moved(7) by (simp add: ms)
  have l: "committed l = ?c" using moved(4,8) by (auto simp: commitTo_def split: if_splits)
  have h: "card (holders n' i) = length (filter (\<lambda>x. i \<le> x) ?ms)" for i
    using card_holders [of n' i] assms(2) moved(1) by simp
  have "card (n_voters n) div 2 < card (holders n' ?c)"
    using filter_ge_length [OF len] unfolding h ms q .
  moreover have "card (holders n' i) \<le> card (n_voters n) div 2" if "?c < i" for i
    using filter_gt_length [OF len, of i] that unfolding h ms q by simp
  ultimately have "card (n_voters n) < 2 * card (holders n' ?c)" "\<forall>i > ?c. 2 * card (holders n' i) \<le> card (n_voters n)"
    by (linarith, fastforce)
  then show ?thesis using moved l by simp
qed simp_all
definition solo_ready :: Node where
  "solo_ready = (the (do { n \<leftarrow> NewNodeConfig solo_cfg; Campaign n }))\<lparr>n_stabled := 1\<rparr>"

theorem leader_commits_by_quorum_witness:
  "\<exists>n'. maybeCommit solo_ready = Some (True, n') \<and> committed (n_log n') = 1
     \<and> card (n_voters solo_ready) < 2 * card (holders n' 1)
     \<and> log_term (n_log solo_ready) 1 = Some (n_term solo_ready)"
proof -
  have "\<not> Option.is_none (maybeCommit solo_ready)" "fst (the (maybeCommit solo_ready))"
    "committed (n_log (snd (the (maybeCommit solo_ready)))) = 1" by code_simp+
  then obtain n' where n': "maybeCommit solo_ready = Some (True, n')" "committed (n_log n') = 1"
    by (auto simp: Option.is_none_def)
  have "n_voters solo_ready = {1}" by code_simp
  then have "finite (n_voters solo_ready)" by simp
  then show ?thesis using leader_commits_by_quorum [OF n'(1)] n' by (intro exI [of _ n']) simp
qed

section \<open>Configuration changes\<close>

text \<open>
  C8. A configuration change survives its trip through the log: decoding what \<^verbatim>\<open>Encode\<close> writes gives the
  change back, whatever its type byte, and nothing of another length decodes.
\<close>

theorem conf_change_round_trip:
  assumes "cc_Node cc < 2 ^ 64" "\<forall>b. cc_Type cc = ConfOther b \<longrightarrow> b \<notin> {0, 1, 2}"
  shows "decodeConfChange (ConfChange_Encode cc) = Some cc
    \<and> (length data \<noteq> length (ConfChange_Encode cc) \<longrightarrow> decodeConfChange data = None)"
proof -
  have "byte_conf (conf_byte (cc_Type cc)) = cc_Type cc"
    using assms(2) by (auto simp: byte_conf_def conf_byte_def split: ConfChangeType.splits)
  then show ?thesis
    using assms(1) get_u64_put [of "cc_Node cc" "[]"] by (simp add: decodeConfChange_def ConfChange_Encode_def)
qed

theorem conf_change_round_trip_witness:
  "decodeConfChange (ConfChange_Encode \<lparr>cc_Type = ConfAddLearner, cc_Node = 300\<rparr>)
     = Some \<lparr>cc_Type = ConfAddLearner, cc_Node = 300\<rparr>
   \<and> decodeConfChange [0] = None"
  using conf_change_round_trip [of "\<lparr>cc_Type = ConfAddLearner, cc_Node = 300\<rparr>" "[0]"]
  by (simp add: ConfChange_Encode_def)

section \<open>A lost election is final\<close>

text \<open>The state after a real election that did not reach a majority: the member still holds its own vote.\<close>

definition split_vote :: "Node \<Rightarrow> bool" where
  "split_vote n \<longleftrightarrow> n_role n = Candidate \<and> n_votes n = {n_id n} \<and> 1 < quorum n \<and> ok 0 n"

fun acts :: "action list \<Rightarrow> Node \<Rightarrow> Node option" where
  "acts [] n = Some n"
| "acts (a # as) n = do { n \<leftarrow> act a n; acts as n }"

fun pre_vote_traffic :: "action \<Rightarrow> bool" where
  "pre_vote_traffic (Recv m) = (m_Type m = MsgPreVoteResp \<or> m_Type m = MsgPreVote)"
| "pre_vote_traffic a = (a = DoTick \<or> a = DoCampaign)"

lemma split_vote_Campaign:
  assumes "split_vote n"
  shows "\<exists>n'. Campaign n = Some n' \<and> split_vote n' \<and> n_term n' = n_term n"
proof -
  let ?n = "resetElectionTimer (n\<lparr>n_role := Candidate, n_lead := 0, n_preVotes := {n_id n}\<rparr>)"
  have n: "ok 0 ?n" using assms by (auto simp: split_vote_def intro!: ok_intros)
  have q: "quorum ?n = quorum n" by (simp add: quorum_def)
  obtain n' where n': "bcastVote MsgPreVote (n_term ?n + 1) ?n = Some n'" "ok 0 n'"
    using bcastVote_ok [OF n] by (auto simp: returns_def)
  obtain new where "n' = ?n\<lparr>n_msgs := n_msgs ?n @ new\<rparr>"
    using bcastVote_msgs [OF n'(1) [unfolded bcastVote_def]] by auto
  then have "split_vote n'" "n_term n' = n_term n" using assms n'(2) by (auto simp: split_vote_def quorum_def)
  moreover have "Campaign n = (if n_id n \<in> n_voters n then Some n' else Some n)"
    using assms n'(1) q by (simp add: Campaign_def becomePreCandidate_def split_vote_def)
  ultimately show ?thesis using assms by auto
qed

lemma split_vote_act:
  assumes "split_vote n" "pre_vote_traffic a"
  shows "\<exists>n'. act a n = Some n' \<and> split_vote n' \<and> n_term n' = n_term n"
proof -
  have tick: "split_vote (n\<lparr>n_electionElapsed := e\<rparr>)" for e
    using assms(1) by (auto simp: split_vote_def quorum_def intro!: ok_intros)
  show ?thesis
  proof (cases a)
    case (Recv m)
    obtain b where "isUpToDate (m_LogIndex m) (m_LogTerm m) (n_log n) = Some b"
      using assms(1) isUpToDate_total [of 0 n "m_LogIndex m" "m_LogTerm m"] by (auto simp: split_vote_def)
    moreover have "\<exists>n'. handlePreVote m n = Some n' \<and> ok 0 n'" if "m_Type m = MsgPreVote"
      using handlePreVote_ok [of 0 n m] assms(1) by (auto simp: split_vote_def returns_def)
    ultimately show ?thesis
      using assms Recv by (auto simp: split_vote_def Step_def handlePreVote_def handlePreVoteResp_def quorum_def
          send_def Let_def)
  next
    case DoTick
    then show ?thesis
      using assms(1) split_vote_Campaign [OF tick] tick by (auto simp: Tick_def split_vote_def Let_def)
  qed (use assms split_vote_Campaign in auto)
qed

text \<open>
  C9. A lost election is final.  A candidate that has voted for itself in an election that did not reach
  a majority never starts another one: however often its election timer fires and whatever pre-vote
  requests and grants it receives, it stays a candidate of the same term and never leads.
\<close>

theorem lost_election_is_final:
  assumes "split_vote n" "\<forall>a\<in>set as. pre_vote_traffic a"
  shows "\<exists>n'. acts as n = Some n' \<and> n_term n' = n_term n \<and> n_role n' = Candidate \<and> split_vote n'"
  using assms
proof (induction as arbitrary: n)
  case (Cons a as)
  obtain n1 where "act a n = Some n1" "split_vote n1" "n_term n1 = n_term n"
    using split_vote_act Cons.prems by (metis list.set_intros(1))
  then show ?case using Cons.IH [of n1] Cons.prems by auto
qed (auto simp: split_vote_def)

definition lost_candidate :: Node where
  "lost_candidate = the (do { n \<leftarrow> NewNodeConfig (witness_cfg 1); n \<leftarrow> Campaign n;
     n \<leftarrow> act (Recv (witness_msg MsgPreVoteResp 2 1)) n; drain_node n })"

lemma lost_candidate: "split_vote lost_candidate" "n_term lost_candidate = 1"
proof -
  have "n_role lost_candidate = Candidate" "n_votes lost_candidate = {n_id lost_candidate}"
    "n_voters lost_candidate = {1, 2, 3}" "n_msgs lost_candidate = []" "wf_log (n_log lost_candidate)"
    "lastIndex (n_log lost_candidate) = 0" "applied (n_log lost_candidate) = 0" by code_simp+
  then show "split_vote lost_candidate" by (simp add: split_vote_def ok_def quorum_def)
  show "n_term lost_candidate = 1" by code_simp
qed

theorem lost_election_is_final_witness:
  "\<exists>n'. acts [DoCampaign, Recv (witness_msg MsgPreVoteResp 2 1), Recv (witness_msg MsgPreVoteResp 3 1), DoTick]
     lost_candidate = Some n' \<and> n_term n' = 1 \<and> n_role n' = Candidate"
  using lost_election_is_final [OF lost_candidate(1), of "[DoCampaign, Recv (witness_msg MsgPreVoteResp 2 1),
      Recv (witness_msg MsgPreVoteResp 3 1), DoTick]"] lost_candidate(2)
  by (auto simp: witness_msg_def)

section \<open>Replaced entries are not persisted\<close>

definition app_from :: "nat \<Rightarrow> nat \<Rightarrow> Message" where
  "app_from l t = (msg0 MsgApp 1)\<lparr>m_From := l, m_Term := t,
     m_Entries := [\<lparr>e_Type = EntryNormal, e_Index = 1, e_Term = t, e_Data = []\<rparr>]\<rparr>"

definition replaced_follower :: Node where
  "replaced_follower = the (do { n \<leftarrow> NewNodeConfig (witness_cfg 1);
     n \<leftarrow> act (Recv (app_from 2 1)) n; n \<leftarrow> drain_node n; act (Recv (app_from 3 2)) n })"


section \<open>Removing the last voter\<close>

definition voterless :: Node where
  "voterless = the (do { (_, n) \<leftarrow> ProposeConfChange \<lparr>cc_Type = ConfRemoveNode, cc_Node = 1\<rparr> solo_leader;
     n \<leftarrow> drain_node n; drain_node n })"

lemma voterless: "n_voters voterless = {}" "n_role voterless = Leader" "wf_log (n_log voterless)"
  "Propose [] voterless = None"
proof -
  show "n_voters voterless = {}" "n_role voterless = Leader" "wf_log (n_log voterless)" by code_simp+
  have "Option.is_none (Propose [] voterless)" by code_simp
  then show "Propose [] voterless = None" by (simp add: Option.is_none_def)
qed

text \<open>
  C11. When the commit computation panics: exactly on a leader without voters.  Such a leader is
  reachable: a group of one that removes its only member still leads, and its next proposal panics.
\<close>

theorem commit_panics_iff_no_voters:
  assumes "wf_log (n_log n)" "finite (n_voters n)"
  shows "maybeCommit n = None \<longleftrightarrow> n_role n = Leader \<and> n_voters n = {}"
proof -
  let ?n = "n\<lparr>n_match := (n_match n)(n_id n \<mapsto> min (n_stabled n) (lastIndex (n_log n)))\<rparr>"
  have q: "quorum ?n - 1 \<ge> length (matches ?n) \<longleftrightarrow> n_voters n = {}"
    using assms(2) div_less_dividend [of 2 "card (n_voters n)"]
    by (cases "n_voters n = {}") (auto simp: length_matches quorum_def card_gt_0_iff not_le)
  have c: "commitTo c (n_log n) \<noteq> None" if "log_term (n_log n) c = Some t" for c t
    using that log_term_Some_iff [OF assms(1), of c] by (auto simp: commitTo_def)
  show ?thesis
    unfolding maybeCommit_def Let_def q using c [of "matches ?n ! (quorum ?n - 1)" "n_term n"] by (auto simp: all_bool_eq)
qed

theorem commit_panics_iff_no_voters_witness:
  "maybeCommit voterless = None \<and> Propose [] voterless = None \<and> maybeCommit solo_leader \<noteq> None"
  using commit_panics_iff_no_voters [of voterless] commit_panics_iff_no_voters [of solo_leader] voterless solo_leader_facts
  by simp

end
