(* ===== verification/RaftStorage.thy ===== *)
theory RaftStorage
  imports RaftNode WalDurability
begin

text \<open>
  The durable state of a raft member, \<^verbatim>\<open>src/internal/raft/storage.go\<close>: typed records in one file,
  replayed into a \<open>Recovered\<close> on open, and the atomic rewrite of the file at a compaction.

  The disk has inodes, the name of the state file as the running system sees it and the name that
  would survive a crash; \<^verbatim>\<open>Rename\<close> changes the first and the parent's sync makes the second follow.
  System calls that fail are flags of \<open>st_faults\<close>.  An error of replay is a value of \<open>storage_error\<close>;
  \<open>SlicePanic\<close> and \<open>RecordTooLong\<close> are run-time panics.
\<close>

section \<open>Records\<close>

datatype storage_error = EmptyRecord | BadHardState | BadCompact | CompactNotFirst
  | EntryBelowSnapshot nat nat | StorageGap nat nat | BadTruncate | TruncateBelowSnapshot nat nat
  | UnknownRecord byte | ShortEntries | TruncatedHeader | DataOverrun | TrailingBytes
  | SlicePanic | RecordTooLong | StorageIO

definition recHardState :: byte where "recHardState = 1"
definition recEntries :: byte where "recEntries = 2"
definition recTruncate :: byte where "recTruncate = 3"
definition recCompact :: byte where "recCompact = 4"

definition entry_byte :: "EntryType \<Rightarrow> byte" where
  "entry_byte t = (case t of EntryNormal \<Rightarrow> 0 | EntryConfChange \<Rightarrow> 1 | EntryOther b \<Rightarrow> b)"

definition byte_entry :: "byte \<Rightarrow> EntryType" where
  "byte_entry b = (if b = 0 then EntryNormal else if b = 1 then EntryConfChange else EntryOther b)"

definition encodeEntry :: "Entry \<Rightarrow> bytes" where
  "encodeEntry e = entry_byte (e_Type e) # put_u64 (e_Index e) @ put_u64 (e_Term e)
     @ put_u32 (length (e_Data e)) @ e_Data e"

definition encodeEntries :: "Entry list \<Rightarrow> bytes" where
  "encodeEntries ents = put_u32 (length ents) @ concat (map encodeEntry ents)"

fun decode_entries_loop :: "nat \<Rightarrow> bytes \<Rightarrow> Entry list \<Rightarrow> storage_error + (Entry list \<times> bytes)" where
  "decode_entries_loop 0 body ents = Inr (ents, body)"
| "decode_entries_loop (Suc n) body ents =
     (if length body < 21 then Inl TruncatedHeader
      else
        let dl = get_u32 (drop 17 body);
            rest = drop 21 body
        in if dl > length rest then Inl DataOverrun
           else decode_entries_loop n (drop dl rest)
             (ents @ [\<lparr>e_Type = byte_entry (body ! 0), e_Index = get_u64 (drop 1 body),
                e_Term = get_u64 (drop 9 body), e_Data = take dl rest\<rparr>]))"

definition decodeEntries :: "bytes \<Rightarrow> storage_error + Entry list" where
  "decodeEntries body =
     (if length body < 4 then Inl ShortEntries
      else case decode_entries_loop (get_u32 body) (drop 4 body) [] of
        Inl e \<Rightarrow> Inl e
      | Inr (ents, rest) \<Rightarrow> if rest \<noteq> [] then Inl TrailingBytes else Inr ents)"

text \<open>The loop of \<^verbatim>\<open>applyRecord\<close> over decoded entries: overwrite and cut, append, or a gap.\<close>

fun index_entries :: "Entry list \<Rightarrow> Recovered \<Rightarrow> storage_error + Recovered" where
  "index_entries [] rcv = Inr rcv"
| "index_entries (e # es) rcv =
     (if e_Index e \<le> rec_SnapIndex rcv then Inl (EntryBelowSnapshot (e_Index e) (rec_SnapIndex rcv))
      else
        let pos = e_Index e - rec_SnapIndex rcv; len = length (rec_Entries rcv) in
        if pos \<le> len then index_entries es (rcv\<lparr>rec_Entries := take pos ((rec_Entries rcv)[pos - 1 := e])\<rparr>)
        else if pos = len + 1 then index_entries es (rcv\<lparr>rec_Entries := rec_Entries rcv @ [e]\<rparr>)
        else Inl (StorageGap (e_Index e) (rec_SnapIndex rcv + len)))"

text \<open>
  The truncate case: the comparison of \<^verbatim>\<open>int(pos-1)\<close> with the length is signed, so a position whose
  conversion is negative passes it and the slice expression panics.
\<close>

definition truncate_entries :: "nat \<Rightarrow> Recovered \<Rightarrow> storage_error + Recovered" where
  "truncate_entries from rcv =
     (if from \<le> rec_SnapIndex rcv then Inl (TruncateBelowSnapshot from (rec_SnapIndex rcv))
      else
        let k = from - rec_SnapIndex rcv - 1 in
        if k \<ge> 2 ^ 63 then Inl SlicePanic
        else if k < length (rec_Entries rcv) then Inr (rcv\<lparr>rec_Entries := take k (rec_Entries rcv)\<rparr>)
        else Inr rcv)"

definition applyRecord :: "bytes \<Rightarrow> Recovered \<Rightarrow> storage_error + Recovered" where
  "applyRecord payload rcv =
     (if length payload < 1 then Inl EmptyRecord
      else
        let body = drop 1 payload; tag = payload ! 0 in
        if tag = recHardState then
          (if length body \<noteq> 24 then Inl BadHardState
           else Inr (rcv\<lparr>rec_HardState := \<lparr>hs_Term = get_u64 body, hs_Vote = get_u64 (drop 8 body),
                  hs_Commit = get_u64 (drop 16 body)\<rparr>\<rparr>))
        else if tag = recCompact then
          (if length body \<noteq> 16 then Inl BadCompact
           else if rec_Entries rcv \<noteq> [] \<or> rec_SnapIndex rcv \<noteq> 0 then Inl CompactNotFirst
           else Inr (rcv\<lparr>rec_SnapIndex := get_u64 body, rec_SnapTerm := get_u64 (drop 8 body)\<rparr>))
        else if tag = recEntries then
          (case decodeEntries body of Inl e \<Rightarrow> Inl e | Inr decoded \<Rightarrow> index_entries decoded rcv)
        else if tag = recTruncate then
          (if length body \<noteq> 8 then Inl BadTruncate else truncate_entries (get_u64 body) rcv)
        else Inl (UnknownRecord tag))"

section \<open>The disk and the handle\<close>

record ifile =
  if_data :: bytes
  if_synced :: nat

record sdisk =
  inodes :: "nat \<rightharpoonup> ifile"
  dirent :: "nat option"
  dirent_disk :: "nat option"
  fresh :: nat

record Storage =
  st_f :: nat
  st_lastIndex :: nat

record st_faults =
  sf_read :: bool
  sf_open :: bool
  sf_write :: "nat option"
  sf_sync :: bool
  sf_close :: bool
  sf_rename :: bool
  sf_syncParent :: bool
  sf_reopen :: bool

definition no_st_faults :: st_faults where
  "no_st_faults = \<lparr>sf_read = False, sf_open = False, sf_write = None, sf_sync = False, sf_close = False,
     sf_rename = False, sf_syncParent = False, sf_reopen = False\<rparr>"

definition upd_inode :: "nat \<Rightarrow> (ifile \<Rightarrow> ifile) \<Rightarrow> sdisk \<Rightarrow> sdisk" where
  "upd_inode i g d = d\<lparr>inodes := (inodes d)(i := map_option g (inodes d i))\<rparr>"

definition sync_inode :: "nat \<Rightarrow> sdisk \<Rightarrow> sdisk" where
  "sync_inode i = upd_inode i (\<lambda>f. f\<lparr>if_synced := length (if_data f)\<rparr>)"

definition named_data :: "sdisk \<Rightarrow> bytes" where
  "named_data d = (case dirent d of None \<Rightarrow> [] | Some i \<Rightarrow> if_data (the (inodes d i)))"

definition create_inode :: "bytes \<Rightarrow> sdisk \<Rightarrow> nat \<times> sdisk" where
  "create_inode data d = (fresh d, d\<lparr>inodes := (inodes d)(fresh d \<mapsto> \<lparr>if_data = data, if_synced = 0\<rparr>),
     fresh := fresh d + 1\<rparr>)"

definition OpenStorage :: "st_faults \<Rightarrow> sdisk \<Rightarrow> (storage_error + Storage \<times> Recovered) \<times> sdisk" where
  "OpenStorage fl d =
     (if sf_read fl then (Inl StorageIO, d)
      else case snd (ScanRecords (named_data d) applyRecord empty_recovered) of
        Inl e \<Rightarrow> (Inl e, d)
      | Inr rcv \<Rightarrow>
          if sf_open fl then (Inl StorageIO, d)
          else
            let (i, d) = (case dirent d of
                Some i \<Rightarrow> (i, d)
              | None \<Rightarrow> (let (i, d) = create_inode [] d in (i, d\<lparr>dirent := Some i\<rparr>)))
            in (Inr (\<lparr>st_f = i, st_lastIndex = (rec_SnapIndex rcv + length (rec_Entries rcv)) mod 2 ^ 64\<rparr>, rcv), d))"

definition appendRecord :: "st_faults \<Rightarrow> byte \<Rightarrow> bytes \<Rightarrow> Storage \<Rightarrow> sdisk \<Rightarrow> storage_error option \<times> sdisk" where
  "appendRecord fl tag body s d =
     (case AppendRecord [] (tag # body) of
        None \<Rightarrow> (Some RecordTooLong, d)
      | Some rec \<Rightarrow>
          (case sf_write fl of
             Some n \<Rightarrow> (Some StorageIO, upd_inode (st_f s) (\<lambda>f. f\<lparr>if_data := if_data f @ take n rec\<rparr>) d)
           | None \<Rightarrow> (None, upd_inode (st_f s) (\<lambda>f. f\<lparr>if_data := if_data f @ rec\<rparr>) d)))"

definition SaveHardState :: "st_faults \<Rightarrow> HardState \<Rightarrow> Storage \<Rightarrow> sdisk \<Rightarrow> storage_error option \<times> sdisk" where
  "SaveHardState fl hs =
     appendRecord fl recHardState (put_u64 (hs_Term hs) @ put_u64 (hs_Vote hs) @ put_u64 (hs_Commit hs))"

definition TruncateFrom :: "st_faults \<Rightarrow> nat \<Rightarrow> Storage \<Rightarrow> sdisk \<Rightarrow> storage_error option \<times> sdisk" where
  "TruncateFrom fl from = appendRecord fl recTruncate (put_u64 from)"

text \<open>The faults of the successive calls of one operation are taken from a list, missing ones succeed.\<close>

definition nth_fault :: "st_faults list \<Rightarrow> nat \<Rightarrow> st_faults" where
  "nth_fault fls i = (if i < length fls then fls ! i else no_st_faults)"

definition AppendEntries ::
  "st_faults list \<Rightarrow> Entry list \<Rightarrow> Storage \<Rightarrow> sdisk \<Rightarrow> storage_error option \<times> Storage \<times> sdisk" where
  "AppendEntries fls ents s d =
     (if ents = [] then (None, s, d)
      else
        let (err, d) = (if e_Index (hd ents) \<le> st_lastIndex s
                        then TruncateFrom (nth_fault fls 0) (e_Index (hd ents)) s d else (None, d))
        in case err of
          Some e \<Rightarrow> (Some e, s, d)
        | None \<Rightarrow>
            (case appendRecord (nth_fault fls 1) recEntries (encodeEntries ents) s d of
               (Some e, d) \<Rightarrow> (Some e, s, d)
             | (None, d) \<Rightarrow> (None, s\<lparr>st_lastIndex := e_Index (last ents)\<rparr>, d)))"

definition Storage_Sync :: "st_faults \<Rightarrow> Storage \<Rightarrow> sdisk \<Rightarrow> storage_error option \<times> sdisk" where
  "Storage_Sync fl s d = (if sf_sync fl then (Some StorageIO, d) else (None, sync_inode (st_f s) d))"

definition SaveReady ::
  "st_faults list \<Rightarrow> Ready \<Rightarrow> Storage \<Rightarrow> sdisk \<Rightarrow> storage_error option \<times> Storage \<times> sdisk" where
  "SaveReady fls rd s d =
     (case AppendEntries fls (rd_Entries rd) s d of
        (Some e, s, d) \<Rightarrow> (Some e, s, d)
      | (None, s, d) \<Rightarrow>
          (case (case rd_HardState rd of None \<Rightarrow> (None, d) | Some hs \<Rightarrow> SaveHardState (nth_fault fls 2) hs s d) of
             (Some e, d) \<Rightarrow> (Some e, s, d)
           | (None, d) \<Rightarrow>
               if rd_Entries rd \<noteq> [] \<or> rd_HardState rd \<noteq> None
               then let (e, d) = Storage_Sync (nth_fault fls 3) s d in (e, s, d)
               else (None, s, d)))"

text \<open>\<^verbatim>\<open>Rewrite\<close>: the image goes to a fresh inode, is synced, takes the name, and the handle follows.\<close>

definition rewrite_image :: "HardState \<Rightarrow> nat \<Rightarrow> nat \<Rightarrow> Entry list \<Rightarrow> bytes option" where
  "rewrite_image hs si st ents = do {
     buf \<leftarrow> AppendRecord [] (recCompact # put_u64 si @ put_u64 st);
     buf \<leftarrow> AppendRecord buf (recHardState # put_u64 (hs_Term hs) @ put_u64 (hs_Vote hs) @ put_u64 (hs_Commit hs));
     if ents \<noteq> [] then AppendRecord buf (recEntries # encodeEntries ents) else Some buf
   }"

definition Rewrite ::
  "st_faults \<Rightarrow> HardState \<Rightarrow> nat \<Rightarrow> nat \<Rightarrow> Entry list \<Rightarrow> Storage \<Rightarrow> sdisk \<Rightarrow> storage_error option \<times> Storage \<times> sdisk" where
  "Rewrite fl hs si st ents s d =
     (case rewrite_image hs si st ents of
        None \<Rightarrow> (Some RecordTooLong, s, d)
      | Some buf \<Rightarrow>
          if sf_open fl then (Some StorageIO, s, d)
          else
            let (i, d) = create_inode (case sf_write fl of None \<Rightarrow> buf | Some n \<Rightarrow> take n buf) d in
            if sf_write fl \<noteq> None \<or> sf_sync fl then (Some StorageIO, s, d)
            else
              let d = sync_inode i d in
              if sf_close fl \<or> sf_rename fl then (Some StorageIO, s, d)
              else
                let d = d\<lparr>dirent := Some i\<rparr> in
                if sf_syncParent fl then (Some StorageIO, s, d)
                else
                  let d = d\<lparr>dirent_disk := Some i\<rparr> in
                  if sf_reopen fl then (Some StorageIO, s, d)
                  else (None, \<lparr>st_f = i, st_lastIndex = (si + length ents) mod 2 ^ 64\<rparr>, d))"

definition Storage_Close :: "st_faults \<Rightarrow> Storage \<Rightarrow> sdisk \<Rightarrow> storage_error option \<times> sdisk" where
  "Storage_Close fl s d =
     (if sf_sync fl then (Some StorageIO, d)
      else (if sf_close fl then Some StorageIO else None, sync_inode (st_f s) d))"

text \<open>
  A crash: the name is the one on disk or the newest one, and every file keeps a prefix that
  contains its synced bytes.
\<close>

definition storage_crash :: "sdisk \<Rightarrow> sdisk \<Rightarrow> bool" where
  "storage_crash d d' \<longleftrightarrow>
     (dirent d' = dirent d \<or> dirent d' = dirent_disk d) \<and> dirent_disk d' = dirent d' \<and> fresh d' = fresh d
     \<and> (\<forall>i. case inodes d i of
            None \<Rightarrow> inodes d' i = None
          | Some f \<Rightarrow> \<exists>n. if_synced f \<le> n \<and> n \<le> length (if_data f)
              \<and> inodes d' i = Some \<lparr>if_data = take n (if_data f), if_synced = n\<rparr>)"

section \<open>The entry codec\<close>

definition wf_entry :: "Entry \<Rightarrow> bool" where
  "wf_entry e \<longleftrightarrow> e_Index e < 2 ^ 64 \<and> e_Term e < 2 ^ 64 \<and> length (e_Data e) < 2 ^ 32
     \<and> e_Type e \<noteq> EntryOther 0 \<and> e_Type e \<noteq> EntryOther 1"

lemma byte_entry_byte: "wf_entry e \<Longrightarrow> byte_entry (entry_byte (e_Type e)) = e_Type e"
  by (auto simp: byte_entry_def entry_byte_def wf_entry_def split: EntryType.splits)

lemma length_encodeEntry [simp]: "length (encodeEntry e) = 21 + length (e_Data e)"
  by (simp add: encodeEntry_def)

lemma encodeEntry_fields:
  assumes "wf_entry e"
  shows "(encodeEntry e @ r) ! 0 = entry_byte (e_Type e)" "get_u64 (drop 1 (encodeEntry e @ r)) = e_Index e"
    "get_u64 (drop 9 (encodeEntry e @ r)) = e_Term e" "get_u32 (drop 17 (encodeEntry e @ r)) = length (e_Data e)"
    "drop 21 (encodeEntry e @ r) = e_Data e @ r"
  using assms by (auto simp: encodeEntry_def wf_entry_def le_dec_le_enc drop_Cons')

lemma decode_entry:
  assumes "wf_entry e"
  shows "decode_entries_loop (Suc n) (encodeEntry e @ r) acc = decode_entries_loop n r (acc @ [e])"
proof -
  have "e = \<lparr>e_Type = byte_entry (entry_byte (e_Type e)), e_Index = e_Index e, e_Term = e_Term e, e_Data = e_Data e\<rparr>"
    using byte_entry_byte [OF assms] by simp
  moreover have "\<not> length (encodeEntry e @ r) < 21" "\<not> length (e_Data e) > length (e_Data e @ r)" by simp_all
  ultimately show ?thesis
    unfolding decode_entries_loop.simps(2) Let_def encodeEntry_fields [OF assms] by simp
qed

lemma decode_entries_loop_encode:
  "\<forall>e\<in>set ents. wf_entry e \<Longrightarrow>
     decode_entries_loop (length ents) (concat (map encodeEntry ents) @ r) acc = Inr (acc @ ents, r)"
  by (induction ents arbitrary: acc) (auto simp: decode_entry simp del: decode_entries_loop.simps(2))

lemma decode_entry_cut:
  assumes "wf_entry e" "n < length (encodeEntry e)"
  shows "\<exists>er. decode_entries_loop (Suc k) (take n (encodeEntry e)) acc = Inl er"
proof (cases "n < 21")
  case False
  then have "get_u32 (drop 17 (take n (encodeEntry e))) = length (e_Data e)"
    using encodeEntry_fields(4) [OF assms(1), of "[]"] by (simp add: drop_take min_def)
  moreover have "n - 21 < length (e_Data e)" using False assms(2) by simp
  ultimately show ?thesis using False assms(2) by (simp add: Let_def)
qed simp

lemma decode_entries_loop_cut:
  assumes "\<forall>e\<in>set ents. wf_entry e" "n < length (concat (map encodeEntry ents))"
  shows "\<exists>er. decode_entries_loop (length ents) (take n (concat (map encodeEntry ents))) acc = Inl er"
  using assms
proof (induction ents arbitrary: acc n)
  case (Cons e ents)
  show ?case
  proof (cases "n < length (encodeEntry e)")
    case True
    then show ?thesis using decode_entry_cut [of e n] Cons.prems by (simp del: decode_entries_loop.simps(2))
  next
    case False
    have "\<exists>er. decode_entries_loop (length ents) (take (n - length (encodeEntry e)) (concat (map encodeEntry ents))) (acc @ [e]) = Inl er"
      using Cons.prems False by (intro Cons.IH) auto
    then show ?thesis using False Cons.prems by (simp add: decode_entry del: decode_entries_loop.simps(2))
  qed
qed simp

text \<open>
  C12. The entry batches of the state file survive the trip to disk: decoding what was encoded gives
  the same entries, a batch cut anywhere is refused, and so is one followed by anything.
\<close>

theorem entries_round_trip:
  assumes "\<forall>e\<in>set ents. wf_entry e" "length ents < 2 ^ 32"
  shows "decodeEntries (encodeEntries ents) = Inr ents
    \<and> (n < length (encodeEntries ents) \<longrightarrow> (\<exists>er. decodeEntries (take n (encodeEntries ents)) = Inl er))
    \<and> (r \<noteq> [] \<longrightarrow> decodeEntries (encodeEntries ents @ r) = Inl TrailingBytes)"
proof -
  let ?c = "concat (map encodeEntry ents)"
  have "decodeEntries (encodeEntries ents @ x) = (if x \<noteq> [] then Inl TrailingBytes else Inr ents)" for x
    using assms decode_entries_loop_encode [OF assms(1), of x "[]"]
    by (simp add: decodeEntries_def encodeEntries_def le_dec_le_enc)
  from this [of "[]"] this [of r] have "decodeEntries (encodeEntries ents) = Inr ents"
    "r \<noteq> [] \<longrightarrow> decodeEntries (encodeEntries ents @ r) = Inl TrailingBytes" by auto
  moreover have "\<exists>er. decodeEntries (take n (encodeEntries ents)) = Inl er" if g: "n < length (encodeEntries ents)"
  proof (cases "n < 4")
    case False
    then have "n - 4 < length ?c" using g by (simp add: encodeEntries_def)
    then obtain er where "decode_entries_loop (length ents) (take (n - 4) ?c) [] = Inl er"
      using decode_entries_loop_cut [OF assms(1), of "n - 4" "[]"] by blast
    then show ?thesis using False assms(2) by (simp add: decodeEntries_def encodeEntries_def le_dec_le_enc)
  qed (simp add: decodeEntries_def min_less_iff_disj)
  ultimately show ?thesis by blast
qed

definition sample_entries :: "Entry list" where
  "sample_entries = [\<lparr>e_Type = EntryNormal, e_Index = 1, e_Term = 1, e_Data = [7, 8]\<rparr>,
     \<lparr>e_Type = EntryConfChange, e_Index = 2, e_Term = 1, e_Data = []\<rparr>]"

theorem entries_round_trip_witness:
  "decodeEntries (encodeEntries sample_entries) = Inr sample_entries
   \<and> (\<exists>er. decodeEntries (take 30 (encodeEntries sample_entries)) = Inl er)
   \<and> decodeEntries (encodeEntries sample_entries @ [0]) = Inl TrailingBytes"
  using entries_round_trip [of sample_entries 30 "[0]"]
  by (simp add: sample_entries_def wf_entry_def encodeEntries_def)

section \<open>The effect of each record\<close>

definition hs_ok :: "HardState \<Rightarrow> bool" where
  "hs_ok hs \<longleftrightarrow> hs_Term hs < 2 ^ 64 \<and> hs_Vote hs < 2 ^ 64 \<and> hs_Commit hs < 2 ^ 64"

definition hs_record :: "HardState \<Rightarrow> bytes" where
  "hs_record hs = recHardState # put_u64 (hs_Term hs) @ put_u64 (hs_Vote hs) @ put_u64 (hs_Commit hs)"

definition truncate_record :: "nat \<Rightarrow> bytes" where
  "truncate_record from = recTruncate # put_u64 from"

definition entries_record :: "Entry list \<Rightarrow> bytes" where
  "entries_record ents = recEntries # encodeEntries ents"

definition compact_record :: "nat \<Rightarrow> nat \<Rightarrow> bytes" where
  "compact_record si st = recCompact # put_u64 si @ put_u64 st"

lemmas record_defs = hs_record_def truncate_record_def entries_record_def compact_record_def
  recHardState_def recEntries_def recTruncate_def recCompact_def

lemma fits_small_records [simp]:
  "fits (hs_record hs)" "fits (truncate_record k)" "fits (compact_record si st)"
  by (simp_all add: fits_def record_defs MaxUint32_def)

lemma apply_hs_record:
  "hs_ok hs \<Longrightarrow> applyRecord (hs_record hs) rcv = Inr (rcv\<lparr>rec_HardState := hs\<rparr>)"
  by (simp add: applyRecord_def record_defs hs_ok_def le_dec_le_enc)

lemma apply_compact_record:
  assumes "si < 2 ^ 64" "st < 2 ^ 64" "rec_Entries rcv = []" "rec_SnapIndex rcv = 0"
  shows "applyRecord (compact_record si st) rcv = Inr (rcv\<lparr>rec_SnapIndex := si, rec_SnapTerm := st\<rparr>)"
  using assms by (simp add: applyRecord_def record_defs le_dec_le_enc)

lemma apply_truncate_record:
  assumes "rec_SnapIndex rcv < from" "from < 2 ^ 63"
  shows "applyRecord (truncate_record from) rcv
    = Inr (rcv\<lparr>rec_Entries := take (from - rec_SnapIndex rcv - 1) (rec_Entries rcv)\<rparr>)"
  using assms by (auto simp: applyRecord_def record_defs le_dec_le_enc truncate_entries_def Let_def)

lemma index_entries_contiguous:
  assumes "contiguous (rec_SnapIndex rcv + length (rec_Entries rcv) + 1) ents"
  shows "index_entries ents rcv = Inr (rcv\<lparr>rec_Entries := rec_Entries rcv @ ents\<rparr>)"
  using assms
proof (induction ents arbitrary: rcv)
  case (Cons e ents)
  have "e_Index e = rec_SnapIndex rcv + length (rec_Entries rcv) + 1"
    and c: "contiguous (rec_SnapIndex rcv + length (rec_Entries rcv) + 2) ents"
    using Cons.prems by (auto simp: contiguous_Cons)
  then show ?case
    using Cons.IH [of "rcv\<lparr>rec_Entries := rec_Entries rcv @ [e]\<rparr>"] by (simp add: Let_def)
qed simp

definition batch_ok :: "Entry list \<Rightarrow> bool" where
  "batch_ok ents \<longleftrightarrow> (\<forall>e\<in>set ents. wf_entry e) \<and> length ents < 2 ^ 32 \<and> fits (entries_record ents)"

lemma decodeEntries_encode: "batch_ok ents \<Longrightarrow> decodeEntries (encodeEntries ents) = Inr ents"
  using decode_entries_loop_encode [of ents "[]" "[]"]
  by (simp add: batch_ok_def decodeEntries_def encodeEntries_def le_dec_le_enc)

lemma apply_entries_record:
  assumes "batch_ok ents" "contiguous (rec_SnapIndex rcv + length (rec_Entries rcv) + 1) ents"
  shows "applyRecord (entries_record ents) rcv = Inr (rcv\<lparr>rec_Entries := rec_Entries rcv @ ents\<rparr>)"
  using decodeEntries_encode [OF assms(1)] index_entries_contiguous [OF assms(2)]
  by (simp add: applyRecord_def record_defs)

section \<open>What the operations write\<close>

definition last_stored :: "Recovered \<Rightarrow> nat" where
  "last_stored rcv = rec_SnapIndex rcv + length (rec_Entries rcv)"

definition batch_records :: "Entry list \<Rightarrow> nat \<Rightarrow> bytes list" where
  "batch_records ents li =
     (if ents = [] then []
      else (if e_Index (hd ents) \<le> li then [truncate_record (e_Index (hd ents))] else []) @ [entries_record ents])"

definition save_records :: "Ready \<Rightarrow> nat \<Rightarrow> bytes list" where
  "save_records rd li = batch_records (rd_Entries rd) li
     @ (case rd_HardState rd of None \<Rightarrow> [] | Some hs \<Rightarrow> [hs_record hs])"

definition wr :: "nat \<Rightarrow> bytes \<Rightarrow> sdisk \<Rightarrow> sdisk" where
  "wr i x d = upd_inode i (\<lambda>f. f\<lparr>if_data := if_data f @ x\<rparr>) d"

lemma wr_Nil [simp]: "wr i [] d = d"
  by (cases "inodes d i") (auto simp: wr_def upd_inode_def fun_upd_idem)

lemma wr_wr [simp]: "wr i y (wr i x d) = wr i (x @ y) d"
  by (auto simp: wr_def upd_inode_def option.map_comp o_def)

lemma appendRecord_wr:
  assumes "appendRecord fl t b s d = (e, d')" "fits (t # b)"
  shows "\<exists>x. prefix x (frame (t # b)) \<and> d' = wr (st_f s) x d \<and> (e = None \<longrightarrow> x = frame (t # b))"
  using assms(1) AppendRecord_frame [OF assms(2), of "[]"] take_is_prefix
  by (fastforce simp: appendRecord_def wr_def split: option.splits)

lemma TruncateFrom_wr:
  assumes "TruncateFrom fl k s d = (e, d')"
  shows "\<exists>x. prefix x (frame (truncate_record k)) \<and> d' = wr (st_f s) x d
    \<and> (e = None \<longrightarrow> x = frame (truncate_record k))"
  using appendRecord_wr [of fl recTruncate "put_u64 k" s d e d'] assms fits_small_records(2) [of k]
  by (simp add: TruncateFrom_def truncate_record_def)

lemma SaveHardState_wr:
  assumes "SaveHardState fl hs s d = (e, d')"
  shows "\<exists>x. prefix x (frame (hs_record hs)) \<and> d' = wr (st_f s) x d \<and> (e = None \<longrightarrow> x = frame (hs_record hs))"
  using appendRecord_wr [of fl recHardState _ s d e d'] assms fits_small_records(1) [of hs]
  by (simp add: SaveHardState_def hs_record_def)

lemma AppendEntries_wr:
  assumes "AppendEntries fls ents s d = (e, s', d')" "batch_ok ents"
  shows "\<exists>x. prefix x (frames (batch_records ents (st_lastIndex s))) \<and> d' = wr (st_f s) x d \<and> st_f s' = st_f s
    \<and> (e = None \<longrightarrow> x = frames (batch_records ents (st_lastIndex s))
         \<and> st_lastIndex s' = (if ents = [] then st_lastIndex s else e_Index (last ents)))"
proof (cases "ents = []")
  case True
  then show ?thesis using assms by (auto simp: AppendEntries_def batch_records_def intro: exI [of _ "[]"])
next
  case False
  let ?t = "if e_Index (hd ents) \<le> st_lastIndex s then [truncate_record (e_Index (hd ents))] else []"
  have fit: "fits (recEntries # encodeEntries ents)" using assms(2) by (simp add: batch_ok_def entries_record_def)
  obtain e1 d1 where 1: "(if e_Index (hd ents) \<le> st_lastIndex s
      then TruncateFrom (nth_fault fls 0) (e_Index (hd ents)) s d else (None, d)) = (e1, d1)" by fastforce
  have x1: "\<exists>x. prefix x (frames ?t) \<and> d1 = wr (st_f s) x d \<and> (e1 = None \<longrightarrow> x = frames ?t)"
    using 1 TruncateFrom_wr [of "nth_fault fls 0" "e_Index (hd ents)" s d e1 d1] by (auto split: if_splits)
  then obtain x where x: "prefix x (frames ?t)" "d1 = wr (st_f s) x d" "e1 = None \<longrightarrow> x = frames ?t" by blast
  have rs: "frames (batch_records ents (st_lastIndex s)) = frames ?t @ frame (entries_record ents)"
    using False by (simp add: batch_records_def)
  show ?thesis
  proof (cases e1)
    case (Some a)
    then have "d' = d1 \<and> s' = s \<and> e \<noteq> None" using assms(1) False 1 by (auto simp: AppendEntries_def Let_def)
    then show ?thesis using x rs by (auto intro!: exI [of _ x])
  next
    case None
    obtain e2 d2 where 2: "appendRecord (nth_fault fls 1) recEntries (encodeEntries ents) s d1 = (e2, d2)" by fastforce
    then obtain y where y: "prefix y (frame (entries_record ents))" "d2 = wr (st_f s) y d1"
      "e2 = None \<longrightarrow> y = frame (entries_record ents)"
      using appendRecord_wr [OF 2 fit] by (auto simp: entries_record_def)
    have "d' = d2 \<and> e = e2 \<and> s' = (if e2 = None then s\<lparr>st_lastIndex := e_Index (last ents)\<rparr> else s)"
      using assms(1) False 1 2 None by (auto simp: AppendEntries_def Let_def split: option.splits)
    then show ?thesis using x y None rs False by (auto intro!: exI [of _ "frames ?t @ y"])
  qed
qed

lemma SaveReady_wr:
  assumes "SaveReady fls rd s d = (e, s', d')" "batch_ok (rd_Entries rd)"
  defines "qs \<equiv> save_records rd (st_lastIndex s)"
  shows "\<exists>x. prefix x (frames qs) \<and> st_f s' = st_f s
    \<and> (if e = None then x = frames qs \<and> d' = (if qs = [] then d else sync_inode (st_f s) (wr (st_f s) x d))
         \<and> st_lastIndex s' = (if rd_Entries rd = [] then st_lastIndex s else e_Index (last (rd_Entries rd)))
       else d' = wr (st_f s) x d)"
proof -
  let ?b = "batch_records (rd_Entries rd) (st_lastIndex s)"
  let ?h = "case rd_HardState rd of None \<Rightarrow> [] | Some hs \<Rightarrow> [hs_record hs]"
  have qs: "frames qs = frames ?b @ frames ?h" "qs = [] \<longleftrightarrow> rd_Entries rd = [] \<and> rd_HardState rd = None"
    by (auto simp: qs_def save_records_def batch_records_def split: option.splits)
  obtain e1 s1 d1 where 1: "AppendEntries fls (rd_Entries rd) s d = (e1, s1, d1)" using prod_cases3 by blast
  obtain x where x: "prefix x (frames ?b)" "d1 = wr (st_f s) x d" "st_f s1 = st_f s"
    "e1 = None \<longrightarrow> x = frames ?b \<and> st_lastIndex s1 = (if rd_Entries rd = [] then st_lastIndex s else e_Index (last (rd_Entries rd)))"
    using AppendEntries_wr [OF 1 assms(2)] by blast
  show ?thesis
  proof (cases e1)
    case (Some a)
    then have "e = e1 \<and> s' = s1 \<and> d' = d1" using assms(1) 1 by (simp add: SaveReady_def)
    then show ?thesis using x Some qs by (auto intro!: exI [of _ x])
  next
    case None
    obtain e2 d2 where 2: "(case rd_HardState rd of None \<Rightarrow> (None, d1)
        | Some hs \<Rightarrow> SaveHardState (nth_fault fls 2) hs s1 d1) = (e2, d2)" by fastforce
    have "\<exists>y. prefix y (frames ?h) \<and> d2 = wr (st_f s) y d1 \<and> (e2 = None \<longrightarrow> y = frames ?h)"
      using 2 SaveHardState_wr [of "nth_fault fls 2" _ s1 d1 e2 d2] x(3) by (auto split: option.splits)
    then obtain y where y: "prefix y (frames ?h)" "d2 = wr (st_f s) y d1" "e2 = None \<longrightarrow> y = frames ?h" by blast
    have "(e2 \<noteq> None \<and> e = e2 \<and> s' = s1 \<and> d' = d2) \<or> (e2 = None \<and> s' = s1
        \<and> (if qs = [] then e = None \<and> d' = d2 else (e, d') = Storage_Sync (nth_fault fls 3) s1 d2))"
      using assms(1) 1 2 None unfolding qs(2) by (auto simp: SaveReady_def split: option.splits prod.splits)
    then show ?thesis
      using x y None qs by (intro exI [of _ "frames ?b @ y"]) (auto simp: Storage_Sync_def split: if_splits)
  qed
qed

section \<open>The specification of a save, and recovery\<close>

definition spec_append :: "Entry list \<Rightarrow> Recovered \<Rightarrow> Recovered" where
  "spec_append ents rcv =
     (if ents = [] then rcv
      else rcv\<lparr>rec_Entries := take (e_Index (hd ents) - rec_SnapIndex rcv - 1) (rec_Entries rcv) @ ents\<rparr>)"

definition spec_save :: "Ready \<Rightarrow> Recovered \<Rightarrow> Recovered" where
  "spec_save rd rcv =
     (case rd_HardState rd of
        None \<Rightarrow> spec_append (rd_Entries rd) rcv
      | Some hs \<Rightarrow> spec_append (rd_Entries rd) rcv\<lparr>rec_HardState := hs\<rparr>)"

definition saveable :: "Ready \<Rightarrow> Recovered \<Rightarrow> bool" where
  "saveable rd rcv \<longleftrightarrow> batch_ok (rd_Entries rd)
     \<and> (rd_Entries rd \<noteq> [] \<longrightarrow> contiguous (e_Index (hd (rd_Entries rd))) (rd_Entries rd)
          \<and> rec_SnapIndex rcv < e_Index (hd (rd_Entries rd)) \<and> e_Index (hd (rd_Entries rd)) \<le> last_stored rcv + 1)
     \<and> last_stored rcv + 1 < 2 ^ 63 \<and> (\<forall>hs. rd_HardState rd = Some hs \<longrightarrow> hs_ok hs)"

text \<open>The states a save passes through: before it, truncated, with the entries, with the hard state.\<close>

definition save_states :: "Ready \<Rightarrow> Recovered \<Rightarrow> Recovered set" where
  "save_states rd rcv = {rcv, spec_append (rd_Entries rd) rcv, spec_save rd rcv}
     \<union> (if rd_Entries rd = [] then {}
        else {rcv\<lparr>rec_Entries := take (e_Index (hd (rd_Entries rd)) - rec_SnapIndex rcv - 1) (rec_Entries rcv)\<rparr>})"

lemma fold_batch:
  assumes "saveable rd rcv"
  shows "fold_fn applyRecord (batch_records (rd_Entries rd) (last_stored rcv)) rcv = Inr (spec_append (rd_Entries rd) rcv)"
proof (cases "rd_Entries rd = []")
  case False
  let ?i = "e_Index (hd (rd_Entries rd))" and ?ents = "rd_Entries rd"
  let ?t = "rcv\<lparr>rec_Entries := take (?i - rec_SnapIndex rcv - 1) (rec_Entries rcv)\<rparr>"
  have i: "rec_SnapIndex rcv < ?i" "?i \<le> last_stored rcv + 1" "?i < 2 ^ 63" "contiguous ?i ?ents" "batch_ok ?ents"
    using assms False by (auto simp: saveable_def)
  have "rec_SnapIndex ?t + length (rec_Entries ?t) + 1 = ?i" using i by (simp add: last_stored_def)
  then have e: "applyRecord (entries_record ?ents) ?t = Inr (spec_append ?ents rcv)"
    using apply_entries_record [OF i(5), of ?t] i(4) False by (simp add: spec_append_def)
  show ?thesis
  proof (cases "?i \<le> last_stored rcv")
    case True
    then show ?thesis using apply_truncate_record [OF i(1,3)] e False by (simp add: batch_records_def)
  next
    case c: False
    then have "?t = rcv" using i by (simp add: last_stored_def)
    then show ?thesis using e False c by (simp add: batch_records_def)
  qed
qed (simp add: batch_records_def spec_append_def)

lemma fold_save:
  assumes "saveable rd rcv"
  shows "fold_fn applyRecord (save_records rd (last_stored rcv)) rcv = Inr (spec_save rd rcv)"
  using assms fold_batch [OF assms] apply_hs_record
  by (auto simp: save_records_def fold_fn_append spec_save_def saveable_def split: option.splits)

lemma fold_save_prefix:
  assumes "saveable rd rcv"
  shows "\<exists>r\<in>save_states rd rcv. fold_fn applyRecord (take k (save_records rd (last_stored rcv))) rcv = Inr r"
proof -
  let ?b = "batch_records (rd_Entries rd) (last_stored rcv)"
  let ?h = "case rd_HardState rd of None \<Rightarrow> [] | Some hs \<Rightarrow> [hs_record hs]"
  have s: "save_records rd (last_stored rcv) = ?b @ ?h" by (simp add: save_records_def)
  consider "k = 0" | "0 < k" "k < length ?b" | "length ?b = k" | "length (?b @ ?h) \<le> k"
    by (cases "rd_HardState rd") (simp_all, linarith+)
  then show ?thesis
  proof cases
    case 2
    then have b: "rd_Entries rd \<noteq> []" "take k ?b = [truncate_record (e_Index (hd (rd_Entries rd)))]"
      by (auto simp: batch_records_def split: if_splits)
    have "rec_SnapIndex rcv < e_Index (hd (rd_Entries rd))" "e_Index (hd (rd_Entries rd)) < 2 ^ 63"
      using assms b(1) by (auto simp: saveable_def)
    from apply_truncate_record [OF this] show ?thesis using 2 b by (simp add: s save_states_def)
  next
    case 3
    then show ?thesis using fold_batch [OF assms] by (simp add: s save_states_def)
  next
    case 4
    then show ?thesis using fold_save [OF assms] by (simp add: s save_states_def)
  qed (simp add: save_states_def)
qed

text \<open>A settled storage: the named file is the handle's, whole, synced, and replays to \<open>rcv\<close>.\<close>

definition settled :: "sdisk \<Rightarrow> Storage \<Rightarrow> Recovered \<Rightarrow> bool" where
  "settled d s rcv \<longleftrightarrow> (\<exists>ps. inodes d (st_f s) = Some \<lparr>if_data = frames ps, if_synced = length (frames ps)\<rparr>
     \<and> all_fit ps \<and> fold_fn applyRecord ps empty_recovered = Inr rcv)
     \<and> dirent d = Some (st_f s) \<and> dirent_disk d = Some (st_f s) \<and> st_lastIndex s = last_stored rcv"

lemma fits_save_records: "batch_ok (rd_Entries rd) \<Longrightarrow> all_fit (save_records rd li)"
  by (auto simp: all_fit_def save_records_def batch_records_def batch_ok_def split: if_splits option.splits)

lemma OpenStorage_frames:
  assumes "dirent d = Some i" "inodes d i = Some f" "if_data f = frames ps @ t" "all_fit ps" "NextRecord t = None"
    "fold_fn applyRecord ps empty_recovered = Inr rcv" "last_stored rcv < 2 ^ 64"
  shows "OpenStorage no_st_faults d = (Inr (\<lparr>st_f = i, st_lastIndex = last_stored rcv\<rparr>, rcv), d)"
  using assms ScanRecords_frames(1) [of ps t applyRecord empty_recovered]
  by (simp add: OpenStorage_def no_st_faults_def named_data_def all_fit_def last_stored_def)

lemma last_stored_append:
  assumes "saveable rd rcv" "rd_Entries rd \<noteq> []"
  shows "last_stored (spec_append (rd_Entries rd) rcv) = e_Index (last (rd_Entries rd))"
proof -
  have "e_Index (last (rd_Entries rd)) = e_Index (hd (rd_Entries rd)) + (length (rd_Entries rd) - 1)"
    using assms by (auto simp: saveable_def contiguous_def last_conv_nth)
  then show ?thesis using assms by (auto simp: saveable_def spec_append_def last_stored_def Suc_le_eq)
qed

lemma last_stored_save [simp]: "last_stored (spec_save rd rcv) = last_stored (spec_append (rd_Entries rd) rcv)"
  by (simp add: spec_save_def last_stored_def split: option.splits)

lemma settled_save:
  assumes "settled d s rcv" "saveable rd rcv" "SaveReady fls rd s d = (None, s', d')"
  shows "settled d' s' (spec_save rd rcv)"
proof -
  let ?qs = "save_records rd (last_stored rcv)"
  obtain ps where ps: "inodes d (st_f s) = Some \<lparr>if_data = frames ps, if_synced = length (frames ps)\<rparr>" "all_fit ps"
    "fold_fn applyRecord ps empty_recovered = Inr rcv" and li: "st_lastIndex s = last_stored rcv"
    and dir: "dirent d = Some (st_f s)" "dirent_disk d = Some (st_f s)"
    using assms(1) by (auto simp: settled_def)
  have b: "batch_ok (rd_Entries rd)" using assms(2) by (simp add: saveable_def)
  have w: "st_f s' = st_f s" "d' = (if ?qs = [] then d else sync_inode (st_f s) (wr (st_f s) (frames ?qs) d))"
    "st_lastIndex s' = (if rd_Entries rd = [] then st_lastIndex s else e_Index (last (rd_Entries rd)))"
    using SaveReady_wr [OF assms(3) b] li by auto
  have "inodes d' (st_f s) = Some \<lparr>if_data = frames (ps @ ?qs), if_synced = length (frames (ps @ ?qs))\<rparr>"
    "dirent d' = dirent d" "dirent_disk d' = dirent_disk d"
    using w(2) ps(1) by (auto simp: sync_inode_def wr_def upd_inode_def)
  moreover have "fold_fn applyRecord (ps @ ?qs) empty_recovered = Inr (spec_save rd rcv)"
    using ps(3) fold_save [OF assms(2)] by (simp add: fold_fn_append)
  moreover have "all_fit (ps @ ?qs)" using ps(2) fits_save_records [OF b] by simp
  moreover have "st_lastIndex s' = last_stored (spec_save rd rcv)"
    using w(3) li last_stored_append [OF assms(2)] by (simp add: spec_append_def)
  ultimately show ?thesis using dir w(1) unfolding settled_def by metis
qed

lemma SaveReady_no_faults: "batch_ok (rd_Entries rd) \<Longrightarrow> fst (SaveReady [] rd s d) = None"
proof -
  assume b: "batch_ok (rd_Entries rd)"
  have a: "fst (appendRecord (nth_fault [] k) t x s d) = None" if "fits (t # x)" for k t x s d
    using AppendRecord_frame [OF that, of "[]"] by (simp add: appendRecord_def nth_fault_def no_st_faults_def)
  have t: "fst (TruncateFrom (nth_fault [] k) i s d) = None" for k i s d
    using a fits_small_records(2) [of i] by (simp add: TruncateFrom_def truncate_record_def)
  have h: "fst (SaveHardState (nth_fault [] k) hs s d) = None" for k hs s d
    using a fits_small_records(1) [of hs] by (simp add: SaveHardState_def hs_record_def)
  have n: "\<not> sf_sync (nth_fault [] k)" for k by (simp add: nth_fault_def no_st_faults_def)
  have e: "fst (AppendEntries [] (rd_Entries rd) s d) = None"
    using a [of recEntries "encodeEntries (rd_Entries rd)" 1 s] t [of 0 "e_Index (hd (rd_Entries rd))" s d] b
    by (auto simp: AppendEntries_def batch_ok_def entries_record_def split: prod.splits option.splits)
      (metis fst_conv option.distinct(1))+
  show ?thesis
    using e h n by (auto simp: SaveReady_def Storage_Sync_def split: prod.splits option.splits)
      (metis fst_conv option.distinct(1))+
qed

text \<open>
  C13. Saving refines its specification.  On a settled state file, saving the durable parts of a
  \<^verbatim>\<open>Ready\<close> succeeds when no call fails; the file then replays to the old state with the entries
  spliced in at their first index and the hard state replaced, and the open after it returns exactly
  that state and the same last index the handle keeps.
\<close>

theorem save_ready_refines:
  assumes "settled d s rcv" "saveable rd rcv" "last_stored rcv + length (rd_Entries rd) < 2 ^ 64"
  shows "\<exists>s' d'. SaveReady [] rd s d = (None, s', d') \<and> settled d' s' (spec_save rd rcv)
    \<and> OpenStorage no_st_faults d' = (Inr (s', spec_save rd rcv), d')"
proof -
  have "fst (SaveReady [] rd s d) = None" using assms(2) SaveReady_no_faults by (simp add: saveable_def)
  then obtain s' d' where r: "SaveReady [] rd s d = (None, s', d')" by (metis prod.exhaust_sel)
  have st: "settled d' s' (spec_save rd rcv)" by (rule settled_save [OF assms(1,2) r])
  have "last_stored (spec_append (rd_Entries rd) rcv) \<le> last_stored rcv + length (rd_Entries rd)"
    by (simp add: spec_append_def last_stored_def)
  then have "last_stored (spec_save rd rcv) < 2 ^ 64" using assms(3) by simp
  then have "OpenStorage no_st_faults d' = (Inr (\<lparr>st_f = st_f s', st_lastIndex = last_stored (spec_save rd rcv)\<rparr>, spec_save rd rcv), d')"
    using st OpenStorage_frames [of d' "st_f s'" _ _ "[]" "spec_save rd rcv"] by (auto simp: settled_def)
  moreover have "\<lparr>st_f = st_f s', st_lastIndex = last_stored (spec_save rd rcv)\<rparr> = s'"
    using st by (cases s') (simp add: settled_def)
  ultimately show ?thesis using r st by simp
qed

lemma recover_after_crash:
  assumes "inodes d i = Some f" "if_data f = frames ps @ x" "prefix x (frames qs)" "length (frames ps) \<le> if_synced f"
    "dirent d = Some i" "dirent_disk d = Some i" "all_fit qs" "storage_crash d d'"
  obtains k t n where "inodes d' i = Some \<lparr>if_data = frames (ps @ take k qs) @ t, if_synced = n\<rparr>"
    "dirent d' = Some i" "NextRecord t = None"
    "x = frames qs \<and> if_synced f = length (if_data f) \<longrightarrow> take k qs = qs"
proof -
  have dir: "dirent d' = Some i" using assms(5,6,8) by (auto simp: storage_crash_def)
  have "case inodes d i of None \<Rightarrow> inodes d' i = None | Some f \<Rightarrow> \<exists>n. if_synced f \<le> n \<and> n \<le> length (if_data f)
      \<and> inodes d' i = Some \<lparr>if_data = take n (if_data f), if_synced = n\<rparr>"
    using assms(8) unfolding storage_crash_def by blast
  then obtain n where n: "if_synced f \<le> n" "n \<le> length (if_data f)"
    "inodes d' i = Some \<lparr>if_data = take n (if_data f), if_synced = n\<rparr>"
    using assms(1) by auto
  show ?thesis
  proof (cases "x = frames qs \<and> if_synced f = length (if_data f)")
    case True
    then show ?thesis using n dir assms(2) by (intro that [of "length qs" "[]" n]) auto
  next
    case False
    have "take n (if_data f) = frames ps @ take (n - length (frames ps)) x" using assms(2,4) n(1) by simp
    moreover have "take (n - length (frames ps)) x = take (min (n - length (frames ps)) (length x)) (frames qs)"
      using assms(3) by (auto simp: prefix_def min_def)
    moreover obtain k t where "k \<le> length qs" "NextRecord t = None"
      "take (min (n - length (frames ps)) (length x)) (frames qs) = frames (take k qs) @ t"
      using take_frames_records [of qs "min (n - length (frames ps)) (length x)"] assms(7) unfolding all_fit_def by blast
    ultimately show ?thesis using False n dir by (intro that [of k t n]) auto
  qed
qed

lemma last_stored_states:
  "r \<in> save_states rd rcv \<Longrightarrow> last_stored r \<le> last_stored rcv + length (rd_Entries rd)"
  by (auto simp: save_states_def spec_append_def last_stored_def spec_save_def split: if_splits option.splits)

lemma save_crash:
  assumes "settled d s rcv" "saveable rd rcv" "last_stored rcv + length (rd_Entries rd) < 2 ^ 64"
    "SaveReady fls rd s d = (e, s', d')" "storage_crash d' d''"
  shows "\<exists>s'' rcv'. OpenStorage no_st_faults d'' = (Inr (s'', rcv'), d'') \<and> rcv' \<in> save_states rd rcv
    \<and> (e = None \<longrightarrow> rcv' = spec_save rd rcv)"
proof -
  let ?qs = "save_records rd (last_stored rcv)"
  obtain ps where ps: "inodes d (st_f s) = Some \<lparr>if_data = frames ps, if_synced = length (frames ps)\<rparr>" "all_fit ps"
    "fold_fn applyRecord ps empty_recovered = Inr rcv" and li: "st_lastIndex s = last_stored rcv"
    and dir: "dirent d = Some (st_f s)" "dirent_disk d = Some (st_f s)"
    using assms(1) by (auto simp: settled_def)
  have b: "batch_ok (rd_Entries rd)" using assms(2) by (simp add: saveable_def)
  obtain x where x: "prefix x (frames ?qs)"
    "if e = None then x = frames ?qs \<and> d' = (if ?qs = [] then d else sync_inode (st_f s) (wr (st_f s) x d))
       \<and> st_lastIndex s' = (if rd_Entries rd = [] then last_stored rcv else e_Index (last (rd_Entries rd)))
     else d' = wr (st_f s) x d"
    using SaveReady_wr [OF assms(4) b] unfolding li by blast
  let ?f = "\<lparr>if_data = frames ps @ x, if_synced = (if e = None then length (frames ps @ x) else length (frames ps))\<rparr>"
  have f: "inodes d' (st_f s) = Some ?f" "e = None \<longrightarrow> x = frames ?qs" "dirent d' = Some (st_f s)" "dirent_disk d' = Some (st_f s)"
    using x(2) ps(1) dir by (auto simp: sync_inode_def wr_def upd_inode_def split: if_splits)
  obtain k t n where k: "inodes d'' (st_f s) = Some \<lparr>if_data = frames (ps @ take k ?qs) @ t, if_synced = n\<rparr>"
    "dirent d'' = Some (st_f s)" "NextRecord t = None" "e = None \<longrightarrow> take k ?qs = ?qs"
    by (rule recover_after_crash [OF f(1) _ x(1) _ f(3,4) fits_save_records [OF b] assms(5), of ps]) (use f(2) in auto)
  obtain r where r: "r \<in> save_states rd rcv" "fold_fn applyRecord (take k ?qs) rcv = Inr r"
    using fold_save_prefix [OF assms(2)] by blast
  have fold: "fold_fn applyRecord (ps @ take k ?qs) empty_recovered = Inr r"
    using ps(3) r(2) by (simp add: fold_fn_append)
  have "all_fit (ps @ take k ?qs)" using ps(2) fits_save_records [OF b] by simp
  from OpenStorage_frames [OF k(2,1) _ this k(3) fold]
  have "OpenStorage no_st_faults d'' = (Inr (\<lparr>st_f = st_f s, st_lastIndex = last_stored r\<rparr>, r), d'')"
    using last_stored_states [OF r(1)] assms(3) by simp
  moreover have "e = None \<longrightarrow> r = spec_save rd rcv" using k(4) r(2) fold_save [OF assms(2)] by auto
  ultimately show ?thesis using r(1) by blast
qed


end
