(* ===== verification/RaftRecovery.thy ===== *)
theory RaftRecovery
  imports RaftStorage RaftInv
begin

text \<open>
  Compaction and recovery of a raft member's state file: the rewrite is atomic across crashes, a member
  restored from a saved file has the term, vote and log it saved, and a torn tail left by a crash hides
  the records written after the next open, because \<^verbatim>\<open>OpenStorage\<close> appends behind it.
\<close>

section \<open>Compaction\<close>

definition image :: "HardState \<Rightarrow> nat \<Rightarrow> nat \<Rightarrow> Entry list \<Rightarrow> Recovered" where
  "image hs si st ents = \<lparr>rec_HardState = hs, rec_SnapIndex = si, rec_SnapTerm = st, rec_Entries = ents\<rparr>"

definition image_ok :: "HardState \<Rightarrow> nat \<Rightarrow> nat \<Rightarrow> Entry list \<Rightarrow> bool" where
  "image_ok hs si st ents \<longleftrightarrow> hs_ok hs \<and> st < 2 ^ 64 \<and> si + length ents < 2 ^ 64 \<and> batch_ok ents \<and> contiguous (si + 1) ents"

definition image_records :: "HardState \<Rightarrow> nat \<Rightarrow> nat \<Rightarrow> Entry list \<Rightarrow> bytes list" where
  "image_records hs si st ents =
     [compact_record si st, hs_record hs] @ (if ents = [] then [] else [entries_record ents])"

lemma rewrite_image_frames:
  assumes "image_ok hs si st ents"
  shows "rewrite_image hs si st ents = Some (frames (image_records hs si st ents))" "all_fit (image_records hs si st ents)"
    "fold_fn applyRecord (image_records hs si st ents) empty_recovered = Inr (image hs si st ents)"
proof -
  let ?r = "empty_recovered\<lparr>rec_SnapIndex := si, rec_SnapTerm := st, rec_HardState := hs\<rparr>"
  have fit: "fits (entries_record ents)" using assms by (simp add: image_ok_def batch_ok_def)
  show "all_fit (image_records hs si st ents)" using fit by (simp add: image_records_def)
  show "rewrite_image hs si st ents = Some (frames (image_records hs si st ents))"
    using AppendRecord_frame [OF fits_small_records(3)] AppendRecord_frame [OF fits_small_records(1)] AppendRecord_frame [OF fit]
    by (simp add: rewrite_image_def image_records_def compact_record_def hs_record_def entries_record_def)
  have c: "applyRecord (compact_record si st) empty_recovered = Inr (empty_recovered\<lparr>rec_SnapIndex := si, rec_SnapTerm := st\<rparr>)"
    using assms by (intro apply_compact_record) (auto simp: image_ok_def empty_recovered_def)
  have h: "applyRecord (hs_record hs) (empty_recovered\<lparr>rec_SnapIndex := si, rec_SnapTerm := st\<rparr>) = Inr ?r"
    using assms by (simp add: apply_hs_record image_ok_def)
  have e: "applyRecord (entries_record ents) ?r = Inr (?r\<lparr>rec_Entries := ents\<rparr>)"
    using apply_entries_record [of ents ?r] assms by (simp add: image_ok_def empty_recovered_def)
  show "fold_fn applyRecord (image_records hs si st ents) empty_recovered = Inr (image hs si st ents)"
    using c h e by (simp add: image_records_def image_def) (simp add: empty_recovered_def)
qed

lemma OpenStorage_whole:
  assumes "dirent d = Some i" "inodes d i = Some \<lparr>if_data = frames ps, if_synced = n\<rparr>" "all_fit ps"
    "fold_fn applyRecord ps empty_recovered = Inr rcv" "last_stored rcv < 2 ^ 64"
  shows "\<exists>s. OpenStorage no_st_faults d = (Inr (s, rcv), d)"
  using OpenStorage_frames [of d i _ ps "[]" rcv] assms by simp

lemma crash_whole:
  assumes "storage_crash d d'" "inodes d i = Some \<lparr>if_data = x, if_synced = length x\<rparr>"
  shows "inodes d' i = Some \<lparr>if_data = x, if_synced = length x\<rparr>"
proof -
  have "case inodes d i of None \<Rightarrow> inodes d' i = None | Some f \<Rightarrow> \<exists>n. if_synced f \<le> n \<and> n \<le> length (if_data f)
      \<and> inodes d' i = Some \<lparr>if_data = take n (if_data f), if_synced = n\<rparr>"
    using assms(1) unfolding storage_crash_def by blast
  then show ?thesis using assms(2) by auto
qed

lemma Rewrite_disk:
  assumes "image_ok hs si st ents" "inodes d (fresh d) = None" "Rewrite fl hs si st ents s d = (e, s', d')"
  obtains (old) "dirent d' = dirent d" "dirent_disk d' = dirent_disk d" "\<forall>i. i \<noteq> fresh d \<longrightarrow> inodes d' i = inodes d i" "e \<noteq> None"
  | (new) "dirent d' = Some (fresh d)" "dirent_disk d' = dirent_disk d \<or> dirent_disk d' = Some (fresh d)"
    "inodes d' = (inodes d)(fresh d \<mapsto> \<lparr>if_data = frames (image_records hs si st ents),
        if_synced = length (frames (image_records hs si st ents))\<rparr>)"
    "e = None \<longrightarrow> dirent_disk d' = Some (fresh d) \<and> s' = \<lparr>st_f = fresh d, st_lastIndex = si + length ents\<rparr>"
proof -
  have m: "(si + length ents) mod 2 ^ 64 = si + length ents" using assms(1) by (simp add: image_ok_def)
  note defs = Rewrite_def rewrite_image_frames(1) [OF assms(1)] create_inode_def sync_inode_def upd_inode_def Let_def m
  show ?thesis
  proof (cases "sf_open fl \<or> sf_write fl \<noteq> None \<or> sf_sync fl \<or> sf_close fl \<or> sf_rename fl")
    case True
    then have "dirent d' = dirent d \<and> dirent_disk d' = dirent_disk d \<and> (\<forall>i. i \<noteq> fresh d \<longrightarrow> inodes d' i = inodes d i) \<and> e \<noteq> None"
      using assms(3) unfolding defs by (auto split: if_splits)
    then show ?thesis using old by blast
  next
    case False
    show ?thesis by (rule new) (use False assms(3) m in \<open>auto simp: defs split: if_splits\<close>)
  qed
qed

text \<open>
  C15. Compaction is atomic.  Whatever call of \<^verbatim>\<open>Rewrite\<close> fails and wherever the machine stops, the
  next open recovers the old state or the compacted one; when \<^verbatim>\<open>Rewrite\<close> returned, it is the compacted
  one, and the handle is settled on it.
\<close>

theorem rewrite_is_atomic:
  assumes "settled d s rcv" "last_stored rcv < 2 ^ 64" "image_ok hs si st ents" "inodes d (fresh d) = None"
    "Rewrite fl hs si st ents s d = (e, s', d')" "storage_crash d' d''"
  shows "(\<exists>s'' r. OpenStorage no_st_faults d'' = (Inr (s'', r), d'') \<and> r \<in> {rcv, image hs si st ents}
      \<and> (e = None \<longrightarrow> r = image hs si st ents))
    \<and> (e = None \<longrightarrow> settled d' s' (image hs si st ents))"
proof -
  let ?qs = "image_records hs si st ents" and ?i = "image hs si st ents"
  obtain ps where ps: "inodes d (st_f s) = Some \<lparr>if_data = frames ps, if_synced = length (frames ps)\<rparr>" "all_fit ps"
    "fold_fn applyRecord ps empty_recovered = Inr rcv" and dir: "dirent d = Some (st_f s)" "dirent_disk d = Some (st_f s)"
    using assms(1) by (auto simp: settled_def)
  note img = rewrite_image_frames [OF assms(3)]
  have ls: "last_stored ?i < 2 ^ 64" "last_stored ?i = si + length ents"
    using assms(3) by (auto simp: image_def last_stored_def image_ok_def)
  have ne: "st_f s \<noteq> fresh d" using ps(1) assms(4) by auto
  have dir'': "dirent d'' = dirent d' \<or> dirent d'' = dirent_disk d'" using assms(6) by (auto simp: storage_crash_def)
  have keep: "\<exists>s'' . OpenStorage no_st_faults d'' = (Inr (s'', rcv), d'')" if "dirent d'' = Some (st_f s)"
    "inodes d' (st_f s) = inodes d (st_f s)"
    using OpenStorage_whole [OF that(1) crash_whole [OF assms(6)]] that(2) ps assms(2) by simp
  show ?thesis
    using assms(3,4,5)
  proof (cases rule: Rewrite_disk)
    case old
    then show ?thesis using keep dir dir'' ne by auto
  next
    case new
    have f: "inodes d' (fresh d) = Some \<lparr>if_data = frames ?qs, if_synced = length (frames ?qs)\<rparr>" using new(3) by simp
    have o: "\<exists>s''. OpenStorage no_st_faults d'' = (Inr (s'', ?i), d'')" if "dirent d'' = Some (fresh d)"
      by (rule OpenStorage_whole [OF that crash_whole [OF assms(6) f] img(2,3) ls(1)])
    have "e = None \<longrightarrow> settled d' s' ?i" using new f img ls(2) by (auto simp: settled_def)
    moreover have "dirent d'' = Some (fresh d) \<or> dirent d'' = Some (st_f s) \<and> e \<noteq> None"
      using new(1,2,4) dir dir'' by auto
    moreover have "inodes d' (st_f s) = inodes d (st_f s)" using new(3) ne by simp
    ultimately show ?thesis using o keep by blast
  qed
qed

section \<open>Restarting a member\<close>

text \<open>The state file holds exactly the persisted part of the member.\<close>

definition mirrors :: "Node \<Rightarrow> Recovered \<Rightarrow> bool" where
  "mirrors n rcv \<longleftrightarrow> rec_HardState rcv = n_prevHard n
     \<and> rec_SnapIndex rcv = snapIndex (n_log n) \<and> rec_SnapTerm rcv = snapTerm (n_log n)
     \<and> (snapIndex (n_log n) = 0 \<longrightarrow> snapTerm (n_log n) = 0)
     \<and> snapIndex (n_log n) \<le> n_stabled n \<and> n_stabled n \<le> lastIndex (n_log n)
     \<and> rec_Entries rcv = take (n_stabled n - snapIndex (n_log n)) (entries (n_log n))"

lemma Ready_persists:
  assumes "ok k n" "mirrors n rcv" "Node_Ready n = Some (rd, n1)"
  shows "rd_Entries rd = drop (n_stabled n - snapIndex (n_log n)) (entries (n_log n))"
    "rd_HardState rd = (if hardState n \<noteq> n_prevHard n then Some (hardState n) else None)"
    "rd_Entries rd \<noteq> [] \<Longrightarrow> e_Index (hd (rd_Entries rd)) = n_stabled n + 1
       \<and> contiguous (n_stabled n + 1) (rd_Entries rd)"
proof -
  let ?l = "n_log n"
  have o: "offset ?l = snapIndex ?l + 1" "lastIndex ?l = snapIndex ?l + length (entries ?l)"
    using assms(1) by (auto simp: ok_def wf_log_def lastIndex_def)
  have st: "snapIndex ?l \<le> n_stabled n" "n_stabled n \<le> lastIndex ?l" using assms(2) by (auto simp: mirrors_def)
  show "rd_HardState rd = (if hardState n \<noteq> n_prevHard n then Some (hardState n) else None)"
    using assms(3) by (auto simp: Node_Ready_def Let_def bind_eq_Some_conv)
  have "(if lastIndex ?l > n_stabled n then slice (n_stabled n + 1) (lastIndex ?l + 1) ?l else Some []) = Some (rd_Entries rd)"
    using assms(3) by (auto simp: Node_Ready_def Let_def bind_eq_Some_conv)
  then show e: "rd_Entries rd = drop (n_stabled n - snapIndex ?l) (entries ?l)"
    using o st by (auto simp: slice_def split: if_splits)
  have c: "contiguous (n_stabled n + 1) (rd_Entries rd)"
    using Ready_total [OF assms(1)] assms(3) by (metis Pair_inject option.inject)
  show "e_Index (hd (rd_Entries rd)) = n_stabled n + 1 \<and> contiguous (n_stabled n + 1) (rd_Entries rd)"
    if "rd_Entries rd \<noteq> []"
    using c that by (cases "rd_Entries rd") auto
qed

lemma saved_image:
  assumes "ok k n" "mirrors n rcv" "Node_Ready n = Some (rd, n1)"
  shows "spec_save rd rcv = image (hardState n) (snapIndex (n_log n)) (snapTerm (n_log n)) (entries (n_log n))"
proof -
  let ?l = "n_log n"
  note r = Ready_persists [OF assms]
  have "spec_append (rd_Entries rd) rcv = rcv\<lparr>rec_Entries := entries ?l\<rparr>"
  proof (cases "rd_Entries rd = []")
    case True
    then have "take (n_stabled n - snapIndex ?l) (entries ?l) = entries ?l" using r(1) by simp
    then show ?thesis using True assms(2) by (simp add: spec_append_def mirrors_def)
  next
    case False
    then have "e_Index (hd (rd_Entries rd)) - rec_SnapIndex rcv - 1 = n_stabled n - snapIndex ?l"
      using r(3) assms(2) by (simp add: mirrors_def)
    then show ?thesis using False r(1) assms(2) by (simp add: spec_append_def mirrors_def)
  qed
  then show ?thesis
    using r(2) assms(2) by (cases rcv) (auto simp: spec_save_def image_def mirrors_def)
qed

lemma saved_saveable:
  assumes "ok k n" "mirrors n rcv" "Node_Ready n = Some (rd, n1)"
    "batch_ok (rd_Entries rd)" "hs_ok (hardState n)" "lastIndex (n_log n) + 1 < 2 ^ 63"
  shows "saveable rd rcv" "last_stored rcv + length (rd_Entries rd) < 2 ^ 64"
proof -
  note r = Ready_persists [OF assms(1-3)]
  have o: "lastIndex (n_log n) = snapIndex (n_log n) + length (entries (n_log n))"
    using assms(1) by (auto simp: ok_def wf_log_def lastIndex_def)
  have "last_stored rcv = n_stabled n" using assms(2) o by (auto simp: mirrors_def last_stored_def min_def)
  then show "saveable rd rcv" "last_stored rcv + length (rd_Entries rd) < 2 ^ 64"
    using assms r o by (auto simp: saveable_def mirrors_def split: if_splits)
qed

lemma applyConfChange_vote [simp]:
  "n_term (applyConfChange cc n) = n_term n" "n_vote (applyConfChange cc n) = n_vote n"
  by (auto simp: applyConfChange_def rebuildPeers_def initProgress_def split: ConfChangeType.splits)

lemma rebuild_conf_frame [simp]:
  "n_log (rebuild_conf i es n) = n_log n" "n_term (rebuild_conf i es n) = n_term n"
  "n_vote (rebuild_conf i es n) = n_vote n" "n_stabled (rebuild_conf i es n) = n_stabled n"
  by (induction es arbitrary: i n) (auto simp: Let_def split: option.splits)

lemma recoverLog_image:
  assumes "wf_log l" "snapIndex l = 0 \<longrightarrow> snapTerm l = 0" "snapIndex l \<le> ap" "ap \<le> committed l"
    "hs_Commit hs = committed l"
  shows "recoverLog (image hs (snapIndex l) (snapTerm l) (entries l)) ap = Some (l\<lparr>applied := ap\<rparr>)"
proof -
  let ?l0 = "\<lparr>entries = [], offset = snapIndex l + 1, snapIndex = snapIndex l, snapTerm = snapTerm l,
      committed = snapIndex l, applied = snapIndex l\<rparr>"
  let ?l1 = "?l0\<lparr>entries := entries l\<rparr>"
  have o: "offset l = snapIndex l + 1" "contiguous (snapIndex l + 1) (entries l)" "committed l \<le> lastIndex l"
    "snapIndex l \<le> committed l" using assms(1) by (auto simp: wf_log_def)
  have a: "(if snapIndex l > 0 then newLog\<lparr>offset := snapIndex l + 1, snapIndex := snapIndex l, snapTerm := snapTerm l,
      committed := snapIndex l, applied := snapIndex l\<rparr> else newLog) = ?l0"
    using assms(2) by (auto simp: newLog_def)
  have b: "log_append (entries l) ?l0 = Some ?l1"
    using o(2) by (cases "entries l") (auto simp: log_append_def lastIndex_def firstIndex_def)
  have c: "(if hs_Commit hs > 0 then commitTo (hs_Commit hs) ?l1 else Some ?l1) = Some (?l1\<lparr>committed := committed l\<rparr>)"
    using assms(5) o by (auto simp: commitTo_def lastIndex_def)
  have d: "?l1\<lparr>committed := committed l, applied := ap\<rparr> = l\<lparr>applied := ap\<rparr>"
    using o(1) by (cases l) simp
  show ?thesis
    unfolding recoverLog_def Let_def image_def Recovered.select_convs a b bind.bind_lunit c
    using assms(3,4) d by simp
qed


section \<open>Appending behind a torn tail\<close>

lemma length4_cases: "length xs = 4 \<Longrightarrow> \<exists>a b c d. xs = [a, b, c, d]"
  by (auto simp: numeral_eq_Suc length_Suc_conv)

text \<open>
  C17. A torn tail hides what is saved after it.  A crash leaves one stray byte behind the last whole
  record; the next open recovers the state before it, but keeps the byte and appends behind it.  A
  hard state saved and synced through that handle is not recovered by the open after that.
\<close>

theorem torn_tail_hides_next_save:
  assumes "dirent d = Some i" "inodes d i = Some \<lparr>if_data = frames ps @ [b], if_synced = n\<rparr>" "all_fit ps"
    "fold_fn applyRecord ps empty_recovered = Inr rcv" "last_stored rcv < 2 ^ 64" "rd_Entries rd = []" "rd_HardState rd = Some hs"
  shows "\<exists>s d'. OpenStorage no_st_faults d = (Inr (s, rcv), d) \<and> SaveReady [] rd s d = (None, s, d')
    \<and> if_synced (the (inodes d' i)) = length (if_data (the (inodes d' i)))
    \<and> OpenStorage no_st_faults d' = (Inr (s, rcv), d')"
proof -
  let ?s = "\<lparr>st_f = i, st_lastIndex = last_stored rcv\<rparr>" and ?h = "hs_record hs"
  let ?d = "sync_inode i (wr i (frame ?h) d)"
  have o: "OpenStorage no_st_faults d = (Inr (?s, rcv), d)"
    by (rule OpenStorage_frames [OF assms(1,2) _ assms(3) _ assms(4,5), of "[b]"]) (simp_all add: NextRecord_def)
  have b: "batch_ok (rd_Entries rd)" using assms(6) by (simp add: batch_ok_def fits_def entries_record_def
        encodeEntries_def MaxUint32_def)
  obtain s' d' where sv: "SaveReady [] rd ?s d = (None, s', d')"
    using SaveReady_no_faults [OF b, of ?s d] by (metis prod.exhaust_sel)
  have "st_f s' = i" "st_lastIndex s' = last_stored rcv" "d' = ?d"
    using SaveReady_wr [OF sv b] assms(6,7) by (auto simp: save_records_def batch_records_def)
  then have sv: "SaveReady [] rd ?s d = (None, ?s, ?d)" using sv by (cases s') simp
  have f: "dirent ?d = Some i" "inodes ?d i = Some \<lparr>if_data = frames ps @ (b # frame ?h), if_synced = length (frames ps @ (b # frame ?h))\<rparr>"
    using assms(1,2) by (auto simp: sync_inode_def wr_def upd_inode_def)
  have len: "length ?h = 25" by (simp add: hs_record_def)
  have nr: "NextRecord (b # frame ?h) = None"
  proof -
    obtain c0 c1 c2 c3 where c: "put_u32 (unat (crc_checksum (put_u32 25 @ ?h))) = [c0, c1, c2, c3]"
      using length4_cases [of "put_u32 (unat (crc_checksum (put_u32 25 @ ?h)))"] by auto
    have l: "put_u32 25 = [25, 0, 0, 0]" by code_simp
    have f: "frame ?h = [c0, c1, c2, c3, 25, 0, 0, 0] @ ?h" using c unfolding frame_def len l by simp
    have g: "get_u32 [c3, 25, 0, 0] \<ge> 6400" by simp
    show ?thesis unfolding NextRecord_def Let_def f using g len by simp
  qed
  have "OpenStorage no_st_faults ?d = (Inr (?s, rcv), ?d)"
    by (rule OpenStorage_frames [OF f _ assms(3) nr assms(4,5)]) simp
  then show ?thesis using o sv f(2) by auto
qed

section \<open>Concrete files\<close>

definition fresh_disk :: sdisk where
  "fresh_disk = \<lparr>inodes = [0 \<mapsto> \<lparr>if_data = [], if_synced = 0\<rparr>], dirent = Some 0, dirent_disk = Some 0, fresh = 1\<rparr>"

definition fresh_storage :: Storage where
  "fresh_storage = \<lparr>st_f = 0, st_lastIndex = 0\<rparr>"

lemma settled_fresh: "settled fresh_disk fresh_storage empty_recovered"
  by (auto simp: settled_def fresh_disk_def fresh_storage_def last_stored_def empty_recovered_def intro: exI [of _ "[]"])

lemma crash_after_save:
  assumes "saveable rd empty_recovered" "SaveReady [] rd fresh_storage fresh_disk = (None, s', d')"
  shows "storage_crash d' d'"
proof -
  have st: "settled d' s' (spec_save rd empty_recovered)" by (rule settled_save [OF settled_fresh assms])
  have w: "st_f s' = 0" "inodes d' i = None" if "i \<noteq> 0" for i
    using SaveReady_wr [OF assms(2)] assms(1) that
    by (auto simp: saveable_def fresh_storage_def fresh_disk_def sync_inode_def wr_def upd_inode_def split: if_splits)
  obtain x where x: "inodes d' 0 = Some \<lparr>if_data = x, if_synced = length x\<rparr>" using st w(1) [of 1] by (auto simp: settled_def)
  have "case inodes d' i of None \<Rightarrow> inodes d' i = None | Some f \<Rightarrow> \<exists>n. if_synced f \<le> n \<and> n \<le> length (if_data f)
      \<and> inodes d' i = Some \<lparr>if_data = take n (if_data f), if_synced = n\<rparr>" for i
    using x w(2) [of i] by (cases "i = 0") auto
  then show ?thesis using st unfolding storage_crash_def settled_def by simp
qed

definition sample_ready :: Ready where
  "sample_ready = \<lparr>rd_HardState = Some \<lparr>hs_Term = 1, hs_Vote = 2, hs_Commit = 1\<rparr>, rd_Entries = sample_entries,
     rd_CommittedEntries = [], rd_Messages = [], rd_ReadStates = []\<rparr>"

lemma saveable_sample: "saveable sample_ready empty_recovered" "last_stored empty_recovered + length (rd_Entries sample_ready) < 2 ^ 64"
  by (auto simp: saveable_def batch_ok_def sample_ready_def sample_entries_def wf_entry_def fits_def MaxUint32_def
      entries_record_def encodeEntries_def last_stored_def empty_recovered_def hs_ok_def)

theorem save_ready_refines_witness:
  "\<exists>s' d'. SaveReady [] sample_ready fresh_storage fresh_disk = (None, s', d')
     \<and> OpenStorage no_st_faults d' = (Inr (s', spec_save sample_ready empty_recovered), d')"
  using save_ready_refines [OF settled_fresh saveable_sample] by blast


lemma Rewrite_succeeds:
  assumes "image_ok hs si st ents"
  shows "Rewrite no_st_faults hs si st ents s d = (None, \<lparr>st_f = fresh d, st_lastIndex = si + length ents\<rparr>,
    d\<lparr>inodes := (inodes d)(fresh d \<mapsto> \<lparr>if_data = frames (image_records hs si st ents),
      if_synced = length (frames (image_records hs si st ents))\<rparr>), dirent := Some (fresh d),
      dirent_disk := Some (fresh d), fresh := fresh d + 1\<rparr>)"
  using assms by (simp add: Rewrite_def rewrite_image_frames(1) [OF assms] no_st_faults_def create_inode_def Let_def
      sync_inode_def upd_inode_def image_ok_def)

lemma image_ok_sample: "image_ok \<lparr>hs_Term = 1, hs_Vote = 2, hs_Commit = 7\<rparr> 7 1 []"
  by (simp add: image_ok_def hs_ok_def batch_ok_def fits_def entries_record_def encodeEntries_def MaxUint32_def)

theorem rewrite_is_atomic_witness:
  "\<exists>s' d'. Rewrite no_st_faults \<lparr>hs_Term = 1, hs_Vote = 2, hs_Commit = 7\<rparr> 7 1 [] fresh_storage fresh_disk = (None, s', d')
     \<and> storage_crash d' d' \<and> settled d' s' (image \<lparr>hs_Term = 1, hs_Vote = 2, hs_Commit = 7\<rparr> 7 1 [])"
proof -
  let ?hs = "\<lparr>hs_Term = 1, hs_Vote = 2, hs_Commit = 7\<rparr>"
  obtain s' d' where r: "Rewrite no_st_faults ?hs 7 1 [] fresh_storage fresh_disk = (None, s', d')" and
    d': "d' = fresh_disk\<lparr>inodes := (inodes fresh_disk)(fresh fresh_disk \<mapsto> \<lparr>if_data = frames (image_records ?hs 7 1 []),
      if_synced = length (frames (image_records ?hs 7 1 []))\<rparr>), dirent := Some (fresh fresh_disk),
      dirent_disk := Some (fresh fresh_disk), fresh := fresh fresh_disk + 1\<rparr>"
    using Rewrite_succeeds [OF image_ok_sample] by blast
  have c: "storage_crash d' d'" by (auto simp: storage_crash_def d' fresh_disk_def)
  have f: "last_stored empty_recovered < 2 ^ 64" "inodes fresh_disk (fresh fresh_disk) = None"
    by (simp_all add: last_stored_def empty_recovered_def fresh_disk_def)
  show ?thesis using rewrite_is_atomic [OF settled_fresh f(1) image_ok_sample f(2) r c] r c by blast
qed

theorem torn_tail_hides_next_save_witness:
  "\<exists>s d'. SaveReady [] (sample_ready\<lparr>rd_Entries := []\<rparr>) s (fresh_disk\<lparr>inodes := [0 \<mapsto> \<lparr>if_data = [0], if_synced = 1\<rparr>]\<rparr>) = (None, s, d')
     \<and> OpenStorage no_st_faults d' = (Inr (s, empty_recovered), d')"
  using torn_tail_hides_next_save [of "fresh_disk\<lparr>inodes := [0 \<mapsto> \<lparr>if_data = [0], if_synced = 1\<rparr>]\<rparr>" 0 "[]" 0 1
      empty_recovered "sample_ready\<lparr>rd_Entries := []\<rparr>"]
  by (auto simp: fresh_disk_def last_stored_def empty_recovered_def sample_ready_def)

definition solo_new :: Node where
  "solo_new = the (do { n \<leftarrow> NewNodeConfig solo_cfg; Campaign n })"

lemma solo_new_facts:
  "n_msgs solo_new = []" "n_voters solo_new = {1}" "wf_log (n_log solo_new)" "lastIndex (n_log solo_new) = 1"
  "applied (n_log solo_new) = 0" "n_stabled solo_new = 0" "snapIndex (n_log solo_new) = 0" "snapTerm (n_log solo_new) = 0"
  "n_prevHard solo_new = \<lparr>hs_Term = 0, hs_Vote = 0, hs_Commit = 0\<rparr>" "n_term solo_new = 1" "n_vote solo_new = 1"
  "committed (n_log solo_new) = 0"
  "entries (n_log solo_new) = [\<lparr>e_Type = EntryNormal, e_Index = 1, e_Term = 1, e_Data = []\<rparr>]"
  by code_simp+


end
