(* ===== verification/Shard.thy ===== *)
theory Shard
  imports Codec Crc32c
begin

text \<open>
  The slot table of \<^verbatim>\<open>src/internal/shard/shard.go\<close>: a key hashes to one of 256 slots, a versioned map
  assigns each slot to a group and says whether its writes are frozen for a handoff.  Arrays are lists
  of length \<open>NumSlots\<close> (the invariant \<open>wf_map\<close>), an out-of-range slot is a panic (\<open>None\<close>), and the
  epoch is a 64-bit counter.

  The lemmas: every operation keeps the invariant; routing changes for exactly the keys of the slot an
  operation names; the initial assignment is balanced to within one slot; a map survives its
  serialization.
\<close>

section \<open>Definitions\<close>

definition NumSlots :: nat where "NumSlots = 256"

definition Slot :: "bytes \<Rightarrow> nat" where
  "Slot key = unat (crc_checksum key) mod NumSlots"

record ShardMap =
  sm_Epoch :: nat
  sm_slots :: "nat list"
  sm_migrating :: "bool list"

definition empty_map :: ShardMap where
  "empty_map = \<lparr>sm_Epoch = 1, sm_slots = replicate NumSlots 0, sm_migrating = replicate NumSlots False\<rparr>"

definition NewShardMap :: "nat list \<Rightarrow> ShardMap" where
  "NewShardMap groups =
     (if groups = [] then empty_map
      else let g = sort groups in empty_map\<lparr>sm_slots := map (\<lambda>s. g ! (s mod length g)) [0..<NumSlots]\<rparr>)"

definition Group :: "nat \<Rightarrow> ShardMap \<Rightarrow> nat option" where
  "Group slot m = (if slot \<ge> NumSlots then None else Some (sm_slots m ! slot))"

definition Lookup :: "bytes \<Rightarrow> ShardMap \<Rightarrow> nat" where
  "Lookup key m = sm_slots m ! Slot key"

definition Groups :: "ShardMap \<Rightarrow> nat list" where
  "Groups m = sorted_list_of_set (set (filter (\<lambda>g. g \<noteq> 0) (sm_slots m)))"

definition SlotsFor :: "nat \<Rightarrow> ShardMap \<Rightarrow> nat list" where
  "SlotsFor gid m = filter (\<lambda>s. sm_slots m ! s = gid) [0..<NumSlots]"

definition IsMigrating :: "nat \<Rightarrow> ShardMap \<Rightarrow> bool option" where
  "IsMigrating slot m = (if slot \<ge> NumSlots then None else Some (sm_migrating m ! slot))"

definition IsKeyMigrating :: "bytes \<Rightarrow> ShardMap \<Rightarrow> bool" where
  "IsKeyMigrating key m = sm_migrating m ! Slot key"

definition inc64 :: "nat \<Rightarrow> nat" where
  "inc64 x = (x + 1) mod 2 ^ 64"

definition WithMigrating :: "nat \<Rightarrow> bool \<Rightarrow> ShardMap \<Rightarrow> ShardMap option" where
  "WithMigrating slot migrating m =
     (if slot \<ge> NumSlots then None
      else Some (m\<lparr>sm_migrating := (sm_migrating m)[slot := migrating], sm_Epoch := inc64 (sm_Epoch m)\<rparr>))"

definition WithSlot :: "nat \<Rightarrow> nat \<Rightarrow> ShardMap \<Rightarrow> ShardMap option" where
  "WithSlot slot gid m =
     (if slot \<ge> NumSlots then None
      else Some (m\<lparr>sm_slots := (sm_slots m)[slot := gid], sm_migrating := (sm_migrating m)[slot := False],
             sm_Epoch := inc64 (sm_Epoch m)\<rparr>))"

definition WithReassign :: "nat \<Rightarrow> nat \<Rightarrow> ShardMap \<Rightarrow> ShardMap" where
  "WithReassign from to m =
     m\<lparr>sm_slots := map (\<lambda>g. if g = from then to else g) (sm_slots m), sm_Epoch := inc64 (sm_Epoch m)\<rparr>"

definition migratingBytes :: nat where "migratingBytes = NumSlots div 8"

definition pack_step :: "bool list \<Rightarrow> bytes \<Rightarrow> nat \<Rightarrow> bytes" where
  "pack_step mig bits s =
     (if mig ! s then bits[s div 8 := (bits ! (s div 8)) OR push_bit (s mod 8) 1] else bits)"

definition Marshal :: "ShardMap \<Rightarrow> bytes" where
  "Marshal m = put_u64 (sm_Epoch m) @ concat (map put_uvarint (sm_slots m))
     @ foldl (pack_step (sm_migrating m)) (replicate migratingBytes 0) [0..<NumSlots]"

datatype shard_error = ShortMap nat | TruncatedSlot nat | BadBitset nat

fun read_slots :: "nat \<Rightarrow> nat \<Rightarrow> bytes \<Rightarrow> nat list \<Rightarrow> shard_error + (nat list \<times> bytes)" where
  "read_slots 0 s rest acc = Inr (acc, rest)"
| "read_slots (Suc n) s rest acc =
     (case uvarint rest of
        None \<Rightarrow> Inl (TruncatedSlot s)
      | Some (g, w) \<Rightarrow> read_slots n (s + 1) (drop w rest) (acc @ [g]))"

definition Unmarshal :: "bytes \<Rightarrow> shard_error + ShardMap" where
  "Unmarshal data =
     (if length data < 8 then Inl (ShortMap (length data))
      else case read_slots NumSlots 0 (drop 8 data) [] of
        Inl e \<Rightarrow> Inl e
      | Inr (slots, rest) \<Rightarrow>
          if length rest \<noteq> migratingBytes then Inl (BadBitset (length rest))
          else Inr \<lparr>sm_Epoch = get_u64 data, sm_slots = slots,
                 sm_migrating = map (\<lambda>s. (rest ! (s div 8)) AND push_bit (s mod 8) 1 \<noteq> 0) [0..<NumSlots]\<rparr>)"

section \<open>The invariant\<close>

definition wf_map :: "ShardMap \<Rightarrow> bool" where
  "wf_map m \<longleftrightarrow> sm_Epoch m < 2 ^ 64 \<and> length (sm_slots m) = NumSlots \<and> length (sm_migrating m) = NumSlots
     \<and> (\<forall>g\<in>set (sm_slots m). g < 2 ^ 64)"

lemma Slot_less [simp]: "Slot key < NumSlots"
  by (simp add: Slot_def NumSlots_def)

lemma wf_NewShardMap: "\<forall>g\<in>set groups. g < 2 ^ 64 \<Longrightarrow> wf_map (NewShardMap groups)"
  by (auto simp: wf_map_def NewShardMap_def empty_map_def Let_def NumSlots_def)
    (metis length_greater_0_conv length_sort mod_less_divisor nth_mem set_sort)

lemma wf_with:
  "wf_map m \<Longrightarrow> WithMigrating s b m = Some m' \<Longrightarrow> wf_map m'"
  "wf_map m \<Longrightarrow> g < 2 ^ 64 \<Longrightarrow> WithSlot s g m = Some m' \<Longrightarrow> wf_map m'"
  "wf_map m \<Longrightarrow> g < 2 ^ 64 \<Longrightarrow> wf_map (WithReassign f g m)"
  by (auto simp: wf_map_def WithMigrating_def WithSlot_def WithReassign_def inc64_def split: if_splits
      dest!: subsetD [OF set_update_subset_insert])

section \<open>Serialization\<close>

lemma read_slots_put:
  assumes "\<forall>g\<in>set gs. g < 2 ^ 64"
  shows "read_slots (length gs) s (concat (map put_uvarint gs) @ r) acc = Inr (acc @ gs, r)"
  using assms by (induction gs arbitrary: s acc) (auto simp: uvarint_put)

lemma bit_exp_byte: "k < 8 \<Longrightarrow> bit (2 ^ k :: byte) j \<longleftrightarrow> j = k"
  by (auto simp: bit_exp_iff)

lemma and_exp_byte: "b AND 2 ^ k \<noteq> 0 \<longleftrightarrow> bit b k" if "k < 8" for b :: byte
proof -
  have "b AND 2 ^ k = of_bool (bit b k) * 2 ^ k"
    by (rule bit_eqI) (auto simp: bit_and_iff bit_exp_byte [OF that])
  moreover have "(2 :: byte) ^ k \<noteq> 0" using bit_exp_byte [OF that, of k] by (metis bit_0_eq bot_apply bot_bool_def)
  ultimately show ?thesis by simp
qed

lemma pack_bits:
  assumes "n \<le> NumSlots" "length mig = NumSlots"
  defines "bits \<equiv> foldl (pack_step mig) (replicate migratingBytes 0) [0..<n]"
  shows "length bits = migratingBytes \<and> (\<forall>s<NumSlots. bit (bits ! (s div 8)) (s mod 8) \<longleftrightarrow> s < n \<and> mig ! s)"
  using assms(1) unfolding bits_def
proof (induction n)
  case 0
  then show ?case by (auto simp: migratingBytes_def NumSlots_def)
next
  case (Suc n)
  let ?b = "foldl (pack_step mig) (replicate migratingBytes 0) [0..<n]"
  have len: "length ?b = migratingBytes" and ih: "\<forall>s<NumSlots. bit (?b ! (s div 8)) (s mod 8) \<longleftrightarrow> s < n \<and> mig ! s"
    using Suc by auto
  have n: "n < NumSlots" "n div 8 < length ?b" using Suc.prems len by (auto simp: migratingBytes_def NumSlots_def)
  have eq: "foldl (pack_step mig) (replicate migratingBytes 0) [0..<Suc n] = pack_step mig ?b n" by simp
  have "bit (pack_step mig ?b n ! (s div 8)) (s mod 8) \<longleftrightarrow> s < Suc n \<and> mig ! s" if s: "s < NumSlots" for s
  proof (cases "mig ! n \<and> s div 8 = n div 8")
    case True
    have "s = n \<longleftrightarrow> s mod 8 = n mod 8" using True by (metis div_mult_mod_eq)
    then show ?thesis
      using True ih s n by (auto simp: pack_step_def bit_or_iff bit_exp_byte less_Suc_eq)
  next
    case False
    then show ?thesis using ih s n by (auto simp: pack_step_def less_Suc_eq)
  qed
  moreover have "length (pack_step mig ?b n) = migratingBytes" using len by (simp add: pack_step_def)
  ultimately show ?case unfolding eq by blast
qed

text \<open>
  C18. A shard map survives its distribution: unmarshalling what \<^verbatim>\<open>Marshal\<close> writes gives back the epoch,
  every slot's group and every migration flag; a map cut short inside the bitset is refused.
\<close>

theorem shard_map_round_trip:
  assumes "wf_map m"
  shows "Unmarshal (Marshal m) = Inr m
    \<and> (0 < k \<and> k \<le> migratingBytes \<longrightarrow>
        Unmarshal (take (length (Marshal m) - k) (Marshal m)) = Inl (BadBitset (migratingBytes - k)))"
proof -
  let ?b = "foldl (pack_step (sm_migrating m)) (replicate migratingBytes 0) [0..<NumSlots]"
  have w: "sm_Epoch m < 2 ^ 64" "length (sm_slots m) = NumSlots" "length (sm_migrating m) = NumSlots"
    "\<forall>g\<in>set (sm_slots m). g < 2 ^ 64" using assms by (auto simp: wf_map_def)
  have b: "length ?b = migratingBytes" "\<forall>s<NumSlots. bit (?b ! (s div 8)) (s mod 8) \<longleftrightarrow> sm_migrating m ! s"
    using pack_bits [OF order_refl w(3)] by auto
  have un: "Unmarshal (put_u64 (sm_Epoch m) @ concat (map put_uvarint (sm_slots m)) @ x) =
      (if length x \<noteq> migratingBytes then Inl (BadBitset (length x))
       else Inr \<lparr>sm_Epoch = sm_Epoch m, sm_slots = sm_slots m,
         sm_migrating = map (\<lambda>s. (x ! (s div 8)) AND push_bit (s mod 8) 1 \<noteq> 0) [0..<NumSlots]\<rparr>)" for x
    using read_slots_put [OF w(4), of 0 x "[]"] w(1,2) by (simp add: Unmarshal_def le_dec_le_enc)
  have "map (\<lambda>s. (?b ! (s div 8)) AND push_bit (s mod 8) 1 \<noteq> 0) [0..<NumSlots] = sm_migrating m"
    using b(2) w(3) by (intro nth_equalityI) (auto simp: and_exp_byte)
  then have "Unmarshal (Marshal m) = Inr m" using un [of ?b] b(1) by (simp add: Marshal_def)
  moreover have "Unmarshal (take (length (Marshal m) - k) (Marshal m)) = Inl (BadBitset (migratingBytes - k))"
    if "0 < k" "k \<le> migratingBytes"
  proof -
    have "take (length (Marshal m) - k) (Marshal m)
        = put_u64 (sm_Epoch m) @ concat (map put_uvarint (sm_slots m)) @ take (migratingBytes - k) ?b"
      using that b(1) by (simp add: Marshal_def)
    then show ?thesis using un [of "take (migratingBytes - k) ?b"] b(1) that by simp
  qed
  ultimately show ?thesis by blast
qed

theorem shard_map_round_trip_witness:
  "wf_map (NewShardMap [30, 10, 20]) \<and> Unmarshal (Marshal (NewShardMap [30, 10, 20])) = Inr (NewShardMap [30, 10, 20])"
proof -
  have "wf_map (NewShardMap [30, 10, 20])" by (rule wf_NewShardMap) simp
  then show ?thesis using shard_map_round_trip [of "NewShardMap [30, 10, 20]" 1] by blast
qed

section \<open>Routing\<close>

text \<open>
  C19. Changing the map moves exactly the keys it names.  After a slot is reassigned, the keys of that
  slot route to the new group, unfrozen, and every other key routes and is frozen as before; freezing
  a slot changes no route; draining a group moves exactly its keys.  Each change advances the epoch by one.
\<close>

theorem routing_changes_exactly:
  assumes "wf_map m" "slot < NumSlots"
  shows "(\<exists>m'. WithSlot slot gid m = Some m' \<and> sm_Epoch m' = inc64 (sm_Epoch m)
        \<and> Lookup key m' = (if Slot key = slot then gid else Lookup key m)
        \<and> IsKeyMigrating key m' = (Slot key \<noteq> slot \<and> IsKeyMigrating key m))
    \<and> (\<exists>m'. WithMigrating slot frozen m = Some m' \<and> sm_Epoch m' = inc64 (sm_Epoch m)
        \<and> Lookup key m' = Lookup key m
        \<and> IsKeyMigrating key m' = (if Slot key = slot then frozen else IsKeyMigrating key m))
    \<and> sm_Epoch (WithReassign from to m) = inc64 (sm_Epoch m)
    \<and> Lookup key (WithReassign from to m) = (if Lookup key m = from then to else Lookup key m)
    \<and> IsKeyMigrating key (WithReassign from to m) = IsKeyMigrating key m"
  using assms Slot_less [of key]
  by (auto simp: wf_map_def WithSlot_def WithMigrating_def WithReassign_def Lookup_def IsKeyMigrating_def
      nth_list_update)

theorem routing_changes_exactly_witness:
  "\<exists>m'. WithSlot 7 20 (NewShardMap [10, 20]) = Some m' \<and> Lookup [] m' = Lookup [] (NewShardMap [10, 20])"
proof -
  have w: "wf_map (NewShardMap [10, 20])" by (rule wf_NewShardMap) simp
  have n: "7 < NumSlots" by (simp add: NumSlots_def)
  have "Slot [] = 0" by (simp add: Slot_def crc_checksum_def crc_update_def)
  then show ?thesis using routing_changes_exactly [OF w n, of 20 "[]" True 1 2] by auto
qed

text \<open>
  C20. Ownership is a partition: the slots of a group are exactly those whose keys route to it, listed
  in ascending order without repetition, and the assigned groups are exactly the non-zero owners.
\<close>

theorem slots_partition_keys:
  assumes "wf_map m"
  shows "(Lookup key m = gid \<longleftrightarrow> Slot key \<in> set (SlotsFor gid m)) \<and> sorted (SlotsFor gid m) \<and> distinct (SlotsFor gid m)
    \<and> set (Groups m) = {g. g \<noteq> 0 \<and> SlotsFor g m \<noteq> []} \<and> sorted (Groups m) \<and> distinct (Groups m)"
proof -
  have "sorted (filter P [a..<b])" for P and a b :: nat by (simp add: sorted_wrt_filter)
  moreover have "set (Groups m) = {g. g \<noteq> 0 \<and> SlotsFor g m \<noteq> []}"
    using assms by (auto simp: Groups_def SlotsFor_def wf_map_def filter_empty_conv in_set_conv_nth)
  moreover have "Lookup key m = gid \<longleftrightarrow> Slot key \<in> set (SlotsFor gid m)" using Slot_less [of key] by (simp add: SlotsFor_def Lookup_def)
  moreover have "sorted (Groups m)" "distinct (Groups m)" by (simp_all add: Groups_def)
  ultimately show ?thesis by (simp add: SlotsFor_def)
qed

theorem slots_partition_keys_witness:
  "wf_map (NewShardMap [10, 20]) \<and> Slot [] \<in> set (SlotsFor (Lookup [] (NewShardMap [10, 20])) (NewShardMap [10, 20]))"
proof -
  have w: "wf_map (NewShardMap [10, 20])" by (rule wf_NewShardMap) simp
  then show ?thesis using slots_partition_keys [OF w, of "[]"] by blast
qed

section \<open>Balance\<close>

lemma card_mod_class:
  assumes "k < n"
  shows "card {s. s < N \<and> s mod n = k} = (N + (n - 1 - k)) div n"
proof -
  have n: "0 < n" using assms by simp
  have eq: "{s. s < N \<and> s mod n = k} = (\<lambda>q. q * n + k) ` {..<(N + (n - 1 - k)) div n}"
  proof (intro set_eqI iffI)
    fix s assume "s \<in> {s. s < N \<and> s mod n = k}"
    then have s: "s < N" "s = (s div n) * n + k" by (auto simp: div_mult_mod_eq)
    have "(s div n + 1) * n \<le> N + (n - 1 - k)" using s assms by (simp add: algebra_simps)
    then have "s div n + 1 \<le> (N + (n - 1 - k)) div n" using n by (simp add: less_eq_div_iff_mult_less_eq)
    then show "s \<in> (\<lambda>q. q * n + k) ` {..<(N + (n - 1 - k)) div n}"
      using s(2) by (intro image_eqI [of _ _ "s div n"]) auto
  next
    fix s assume "s \<in> (\<lambda>q. q * n + k) ` {..<(N + (n - 1 - k)) div n}"
    then obtain q where q: "q + 1 \<le> (N + (n - 1 - k)) div n" "s = q * n + k" by (auto simp: Suc_le_eq)
    then have "(q + 1) * n \<le> N + (n - 1 - k)" using n by (simp add: less_eq_div_iff_mult_less_eq)
    then show "s \<in> {s. s < N \<and> s mod n = k}" using q(2) assms by (auto simp: algebra_simps)
  qed
  have "inj_on (\<lambda>q. q * n + k) A" for A using n by (simp add: inj_on_def)
  then show ?thesis unfolding eq by (simp add: card_image)
qed

text \<open>
  C21. The initial assignment is balanced: with distinct groups, each of them owns the number of slots
  divided by the number of groups, or one more, and only the listed groups own slots.
\<close>

theorem initial_map_balanced:
  assumes "distinct groups" "gid \<in> set groups"
  shows "length (SlotsFor gid (NewShardMap groups)) \<in> {NumSlots div length groups, NumSlots div length groups + 1}
    \<and> set (sm_slots (NewShardMap groups)) \<subseteq> set groups"
proof -
  let ?g = "sort groups" and ?n = "length groups"
  have n: "0 < ?n" "groups \<noteq> []" using assms(2) by (auto simp: length_pos_if_in_set)
  obtain k where k: "k < ?n" "?g ! k = gid" using assms(2) by (metis in_set_conv_nth length_sort set_sort)
  have sl: "sm_slots (NewShardMap groups) = map (\<lambda>s. ?g ! (s mod ?n)) [0..<NumSlots]"
    using n by (simp add: NewShardMap_def Let_def)
  have "?g ! (s mod ?n) = gid \<longleftrightarrow> s mod ?n = k" for s
    using k assms(1) n(1) nth_eq_iff_index_eq [of ?g "s mod ?n" k] by simp
  then have "SlotsFor gid (NewShardMap groups) = filter (\<lambda>s. s mod ?n = k) [0..<NumSlots]"
    unfolding SlotsFor_def sl by (intro filter_cong) auto
  then have "length (SlotsFor gid (NewShardMap groups)) = card {s. s < NumSlots \<and> s mod ?n = k}"
    using distinct_card [of "filter (\<lambda>s. s mod ?n = k) [0..<NumSlots]"] by (simp add: conj_commute)
  also have "\<dots> = (NumSlots + (?n - 1 - k)) div ?n" by (rule card_mod_class [OF k(1)])
  also have "\<dots> \<in> {NumSlots div ?n, NumSlots div ?n + 1}"
  proof -
    have "NumSlots div ?n \<le> (NumSlots + (?n - 1 - k)) div ?n" by (rule div_le_mono) simp
    moreover have "(NumSlots + (?n - 1 - k)) div ?n \<le> (NumSlots + ?n) div ?n" by (rule div_le_mono) simp
    moreover have "(NumSlots + ?n) div ?n = NumSlots div ?n + 1" by (rule div_add_self2) (use n in simp)
    ultimately show ?thesis by auto
  qed
  finally have "length (SlotsFor gid (NewShardMap groups)) \<in> {NumSlots div ?n, NumSlots div ?n + 1}" .
  moreover have "set (sm_slots (NewShardMap groups)) \<subseteq> set groups"
  proof -
    have "?g ! (s mod ?n) \<in> set groups" for s using nth_mem [of "s mod ?n" ?g] n(1) by simp
    then show ?thesis by (auto simp: sl)
  qed
  ultimately show ?thesis by blast
qed

theorem initial_map_balanced_witness:
  "length (SlotsFor 20 (NewShardMap [30, 10, 20])) \<in> {85, 86}"
  using initial_map_balanced [of "[30, 10, 20]" 20] by (simp add: NumSlots_def)

end
