(* ===== verification/ClusterConfig.thy ===== *)
theory ClusterConfig
  imports Shard
begin

text \<open>
  The cluster description of \<^verbatim>\<open>src/cluster/config.go\<close>.  The YAML decoder is a parameter: it turns the
  file's bytes into a description or an error.  \<^verbatim>\<open>Validate\<close> is the loop the code runs, its errors name
  the offending field; the lemmas compare it with the declarative meaning of a valid description and
  show what a valid one gives its users.
\<close>

record NodeConfig =
  nc_ID :: nat
  nc_Raft :: string
  nc_Client :: string

record FileConfig =
  fc_Groups :: "nat list"
  fc_Nodes :: "NodeConfig list"

text \<open>\<open>addr_use\<close> is the field that first used an address.\<close>

datatype addr_use = UsedRaft nat | UsedClient nat

datatype config_error = ReadError | DecodeError string | NoGroups | ZeroGroup nat | DuplicateGroup nat nat
  | NoNodes | EvenNodes nat | ZeroNodeID nat | DuplicateNodeID nat nat | NoRaftAddr nat | NoClientAddr nat
  | RaftAddrUsed nat string addr_use | ClientAddrUsed nat string addr_use

fun check_groups :: "nat \<Rightarrow> nat list \<Rightarrow> nat set \<Rightarrow> config_error option" where
  "check_groups i [] seen = None"
| "check_groups i (g # gs) seen =
     (if g = 0 then Some (ZeroGroup i)
      else if g \<in> seen then Some (DuplicateGroup i g)
      else check_groups (i + 1) gs (insert g seen))"

fun check_nodes :: "nat \<Rightarrow> NodeConfig list \<Rightarrow> nat set \<Rightarrow> (string \<rightharpoonup> addr_use) \<Rightarrow> config_error option" where
  "check_nodes i [] seenID seenAddr = None"
| "check_nodes i (n # ns) seenID seenAddr =
     (if nc_ID n = 0 then Some (ZeroNodeID i)
      else if nc_ID n \<in> seenID then Some (DuplicateNodeID i (nc_ID n))
      else if nc_Raft n = [] then Some (NoRaftAddr i)
      else if nc_Client n = [] then Some (NoClientAddr i)
      else case seenAddr (nc_Raft n) of
        Some prev \<Rightarrow> Some (RaftAddrUsed i (nc_Raft n) prev)
      | None \<Rightarrow>
          let seenAddr = seenAddr(nc_Raft n \<mapsto> UsedRaft i) in
          (case seenAddr (nc_Client n) of
             Some prev \<Rightarrow> Some (ClientAddrUsed i (nc_Client n) prev)
           | None \<Rightarrow> check_nodes (i + 1) ns (insert (nc_ID n) seenID) (seenAddr(nc_Client n \<mapsto> UsedClient i))))"

definition Validate :: "FileConfig \<Rightarrow> config_error option" where
  "Validate fc =
     (if fc_Groups fc = [] then Some NoGroups
      else case check_groups 0 (fc_Groups fc) {} of
        Some e \<Rightarrow> Some e
      | None \<Rightarrow>
          if fc_Nodes fc = [] then Some NoNodes
          else if length (fc_Nodes fc) mod 2 = 0 then Some (EvenNodes (length (fc_Nodes fc)))
          else check_nodes 0 (fc_Nodes fc) {} Map.empty)"

definition LoadFileConfig :: "(bytes \<Rightarrow> string + FileConfig) \<Rightarrow> bytes option \<Rightarrow> config_error + FileConfig" where
  "LoadFileConfig decode file =
     (case file of
        None \<Rightarrow> Inl ReadError
      | Some buf \<Rightarrow>
          (case decode buf of
             Inl msg \<Rightarrow> Inl (DecodeError msg)
           | Inr fc \<Rightarrow> (case Validate fc of Some e \<Rightarrow> Inl e | None \<Rightarrow> Inr fc)))"

definition Peers :: "FileConfig \<Rightarrow> nat \<rightharpoonup> string" where
  "Peers fc = foldl (\<lambda>m n. m(nc_ID n \<mapsto> nc_Raft n)) Map.empty (fc_Nodes fc)"

definition ClientAddrs :: "FileConfig \<Rightarrow> nat \<rightharpoonup> string" where
  "ClientAddrs fc = foldl (\<lambda>m n. m(nc_ID n \<mapsto> nc_Client n)) Map.empty (fc_Nodes fc)"

definition NodeByID :: "nat \<Rightarrow> FileConfig \<Rightarrow> NodeConfig option" where
  "NodeByID i fc = List.find (\<lambda>n. nc_ID n = i) (fc_Nodes fc)"

definition SortedGroups :: "FileConfig \<Rightarrow> nat list" where
  "SortedGroups fc = sort (fc_Groups fc)"

definition config_ShardMap :: "FileConfig \<Rightarrow> ShardMap" where
  "config_ShardMap fc = NewShardMap (SortedGroups fc)"

section \<open>What validation accepts\<close>

definition addrs :: "NodeConfig list \<Rightarrow> string list" where
  "addrs ns = concat (map (\<lambda>n. [nc_Raft n, nc_Client n]) ns)"

definition valid_config :: "FileConfig \<Rightarrow> bool" where
  "valid_config fc \<longleftrightarrow> fc_Groups fc \<noteq> [] \<and> 0 \<notin> set (fc_Groups fc) \<and> distinct (fc_Groups fc)
     \<and> odd (length (fc_Nodes fc)) \<and> 0 \<notin> nc_ID ` set (fc_Nodes fc) \<and> distinct (map nc_ID (fc_Nodes fc))
     \<and> [] \<notin> set (addrs (fc_Nodes fc)) \<and> distinct (addrs (fc_Nodes fc))"

lemma check_groups_None:
  "check_groups i gs seen = None \<longleftrightarrow> 0 \<notin> set gs \<and> distinct gs \<and> set gs \<inter> seen = {}"
  by (induction gs arbitrary: i seen) auto

lemma addrs_simps [simp]: "addrs [] = []" "addrs (n # ns) = nc_Raft n # nc_Client n # addrs ns"
  by (simp_all add: addrs_def)

lemma check_nodes_None:
  "check_nodes i ns ids seen = None \<longleftrightarrow> 0 \<notin> nc_ID ` set ns \<and> distinct (map nc_ID ns) \<and> nc_ID ` set ns \<inter> ids = {}
     \<and> [] \<notin> set (addrs ns) \<and> distinct (addrs ns) \<and> set (addrs ns) \<inter> dom seen = {}"
proof (induction ns arbitrary: i ids seen)
  case (Cons n ns)
  have "check_nodes i (n # ns) ids seen = None \<longleftrightarrow> nc_ID n \<noteq> 0 \<and> nc_ID n \<notin> ids \<and> nc_Raft n \<noteq> [] \<and> nc_Client n \<noteq> []
      \<and> nc_Raft n \<notin> dom seen \<and> nc_Client n \<noteq> nc_Raft n \<and> nc_Client n \<notin> dom seen
      \<and> check_nodes (i + 1) ns (insert (nc_ID n) ids) (seen(nc_Raft n \<mapsto> UsedRaft i, nc_Client n \<mapsto> UsedClient i)) = None"
    by (auto simp: Let_def dom_def split: option.splits if_splits)
  then show ?case unfolding Cons.IH by auto
qed simp

lemma validate_None: "Validate fc = None \<longleftrightarrow> valid_config fc"
proof -
  have "odd (length (fc_Nodes fc)) \<longleftrightarrow> fc_Nodes fc \<noteq> [] \<and> length (fc_Nodes fc) mod 2 \<noteq> 0"
    by (cases "fc_Nodes fc = []") (simp_all add: odd_iff_mod_2_eq_one)
  then show ?thesis
    using check_groups_None [of 0 "fc_Groups fc" "{}"]
    by (cases "check_groups 0 (fc_Groups fc) {}") (auto simp: Validate_def valid_config_def check_nodes_None)
qed

text \<open>
  C22. Validation accepts exactly the descriptions that list at least one group, an odd number of nodes,
  no zero and no repeated group or node id, and no empty and no repeated address among all raft and
  client addresses.
\<close>

theorem validate_iff_valid: "Validate fc = None \<longleftrightarrow> valid_config fc"
  by (rule validate_None)

section \<open>What a valid description gives\<close>

lemma find_Some_iff_distinct:
  "distinct (map f xs) \<Longrightarrow> List.find (\<lambda>x. f x = k) xs = Some y \<longleftrightarrow> y \<in> set xs \<and> f y = k"
  by (induction xs) (auto simp: image_iff)

lemma foldl_map_upd:
  "distinct (map f xs) \<Longrightarrow> foldl (\<lambda>m n. m(f n \<mapsto> g n)) m0 xs i
     = (case List.find (\<lambda>n. f n = i) xs of None \<Rightarrow> m0 i | Some n \<Rightarrow> Some (g n))"
proof (induction xs arbitrary: m0)
  case (Cons a xs)
  show ?case
  proof (cases "f a = i")
    case True
    then have "List.find (\<lambda>n. f n = i) xs = None" using Cons.prems by (simp add: find_None_iff image_iff) metis
    then show ?thesis using Cons True by simp
  next
    case False
    then have "(m0(f a \<mapsto> g a)) i = m0 i" by simp
    then show ?thesis using Cons False by simp
  qed
qed simp

text \<open>
  C23. A loaded description is usable: whatever the YAML decoder returns, a description that loads is
  valid; each listed node, and no other, is found by its id and its two addresses are the ones every
  member shares; and every key routes to one of the listed groups, never to the unassigned group.
\<close>

theorem loaded_config_routes:
  assumes "LoadFileConfig decode file = Inr fc"
  shows "valid_config fc
    \<and> (NodeByID i fc = Some n \<longleftrightarrow> n \<in> set (fc_Nodes fc) \<and> nc_ID n = i)
    \<and> Peers fc i = map_option nc_Raft (NodeByID i fc) \<and> ClientAddrs fc i = map_option nc_Client (NodeByID i fc)
    \<and> Lookup key (config_ShardMap fc) \<in> set (fc_Groups fc) \<and> Lookup key (config_ShardMap fc) \<noteq> 0"
proof -
  have v: "valid_config fc"
    using assms validate_None by (auto simp: LoadFileConfig_def split: option.splits sum.splits)
  then have d: "distinct (map nc_ID (fc_Nodes fc))" and g: "fc_Groups fc \<noteq> []" "0 \<notin> set (fc_Groups fc)"
    by (auto simp: valid_config_def)
  let ?g = "sort (sort (fc_Groups fc))"
  have "sort (fc_Groups fc) \<noteq> []" using g(1) by (metis set_empty set_sort)
  then have "Lookup key (config_ShardMap fc) = ?g ! (Slot key mod length ?g)"
    using g(1) Slot_less [of key] by (simp add: Lookup_def config_ShardMap_def SortedGroups_def NewShardMap_def Let_def)
  moreover have "?g ! (Slot key mod length ?g) \<in> set ?g" using g(1) by (intro nth_mem) simp
  ultimately have l: "Lookup key (config_ShardMap fc) \<in> set (fc_Groups fc)" by simp
  then have "Lookup key (config_ShardMap fc) \<noteq> 0" using g(2) by metis
  then show ?thesis
    using v l find_Some_iff_distinct [OF d, of i n] foldl_map_upd [OF d, of nc_Raft Map.empty i]
      foldl_map_upd [OF d, of nc_Client Map.empty i]
    by (auto simp: NodeByID_def Peers_def ClientAddrs_def split: option.splits)
qed

definition sample_config :: FileConfig where
  "sample_config = \<lparr>fc_Groups = [10, 20], fc_Nodes = [\<lparr>nc_ID = 1, nc_Raft = ''a'', nc_Client = ''b''\<rparr>]\<rparr>"

theorem loaded_config_routes_witness:
  "LoadFileConfig (\<lambda>_. Inr sample_config) (Some []) = Inr sample_config
   \<and> NodeByID 1 sample_config = Some \<lparr>nc_ID = 1, nc_Raft = ''a'', nc_Client = ''b''\<rparr>
   \<and> Lookup [7] (config_ShardMap sample_config) \<noteq> 0"
proof -
  have "LoadFileConfig (\<lambda>_. Inr sample_config) (Some []) = Inr sample_config" by code_simp
  then show ?thesis
    using loaded_config_routes [of "\<lambda>_. Inr sample_config" "Some []" sample_config 1
        "\<lparr>nc_ID = 1, nc_Raft = ''a'', nc_Client = ''b''\<rparr>" "[7]"]
    by (simp add: sample_config_def)
qed

end
