(* ===== verification/KeyOrder.thy ===== *)
theory KeyOrder
  imports InternalKey "HOL-Library.Sublist"
begin

text \<open>
  Sorted sequences of versioned entries, the common content of memtables, blocks and tables: what a
  search for a key finds in them, which version of a user key a read at a sequence number must see, and
  the interface \<^verbatim>\<open>internalIterator\<close> of \<^verbatim>\<open>src/merge.go\<close> through which the engine walks all of them.
\<close>

section \<open>Entries in key order\<close>

type_synonym entry = "bytes \<times> bytes"

definition wf_key :: "bytes \<Rightarrow> bool" where
  "wf_key k \<longleftrightarrow> (\<exists>uk s kd. s \<le> MaxSeq \<and> kd \<le> maxKind \<and> k = enc_ikey uk s kd)"

abbreviation ltk :: "bytes \<Rightarrow> bytes \<times> bytes \<Rightarrow> bool" where
  "ltk key kv \<equiv> ikey_rank (fst kv) < ikey_rank key"

definition key_sorted :: "entry list \<Rightarrow> bool" where
  "key_sorted es \<longleftrightarrow> sorted_wrt (\<lambda>a b. ikey_rank (fst a) < ikey_rank (fst b)) es"

definition hdo :: "'a list \<Rightarrow> 'a option" where
  "hdo xs = (case xs of [] \<Rightarrow> None | x # _ \<Rightarrow> Some x)"

lemma hdo_map [simp]: "hdo (map f xs) = map_option f (hdo xs)"
  by (simp add: hdo_def split: list.splits)

lemma wf_key_valid: "wf_key k \<Longrightarrow> valid_ikey k"
  by (auto simp: wf_key_def valid_enc)

text \<open>The entry a point read at a sequence number must return: the newest visible version of the user key.\<close>

definition visible :: "bytes \<Rightarrow> nat \<Rightarrow> bytes \<times> bytes \<Rightarrow> bool" where
  "visible uk seq kv \<longleftrightarrow> UserKey (fst kv) = uk \<and> trailer_of (fst kv) div 256 \<le> seq"

definition newest_visible :: "bytes \<Rightarrow> nat \<Rightarrow> (bytes \<times> bytes) list \<Rightarrow> (bytes \<times> nat) option" where
  "newest_visible uk seq kvs =
     (case filter (visible uk seq) kvs of [] \<Rightarrow> None | kv # _ \<Rightarrow> Some (snd kv, trailer_of (fst kv) mod 256))"

lemma seek_rank:
  assumes "wf_key k" "seq \<le> MaxSeq"
  shows "ikey_rank k < ikey_rank (enc_ikey uk seq maxKind) \<longleftrightarrow> UserKey k < uk \<or> UserKey k = uk \<and> seq < trailer_of k div 256"
proof -
  obtain u s kd where k: "s \<le> MaxSeq" "kd \<le> maxKind" "k = enc_ikey u s kd" using assms(1) unfolding wf_key_def by blast
  have t: "trailer_of k = s * 256 + kd" and u: "UserKey k = u" using trailer_enc [OF k(1,2)] UserKey_enc k(3) by auto
  have "kd < 256" using k(2) by (simp add: maxKind_def KindPut_def)
  then have "trailer_of k div 256 = s" using t by simp
  moreover have "\<not> maxKind < kd" using k(2) by simp
  ultimately show ?thesis using rank_enc_less [OF k(1,2) assms(2) order_refl, of u uk] u unfolding k(3) by auto
qed

lemma filter_visible_dropWhile:
  assumes "sorted_wrt (\<lambda>a b. ikey_rank (fst a) < ikey_rank (fst b)) kvs" "\<forall>kv\<in>set kvs. wf_key (fst kv)" "seq \<le> MaxSeq"
  shows "filter (visible uk seq) kvs
    = takeWhile (\<lambda>kv. UserKey (fst kv) = uk) (dropWhile (ltk (enc_ikey uk seq maxKind)) kvs)"
  using assms(1,2)
proof (induction kvs)
  case (Cons kv kvs)
  note rk = seek_rank [of "fst kv" seq uk, OF _ assms(3)]
  show ?case
  proof (cases "ltk (enc_ikey uk seq maxKind) kv")
    case True
    then have "\<not> visible uk seq kv" using rk Cons.prems by (auto simp: visible_def)
    then show ?thesis using True Cons by simp
  next
    case False
    have ge: "uk \<le> UserKey (fst x) \<and> (UserKey (fst x) = uk \<longrightarrow> visible uk seq x)" if "x \<in> set (kv # kvs)" for x
    proof -
      have "ikey_rank (fst kv) \<le> ikey_rank (fst x)" using Cons.prems(1) that by auto
      then have "\<not> ltk (enc_ikey uk seq maxKind) x" using False by (meson le_less_trans)
      then show ?thesis using seek_rank [of "fst x" seq uk, OF _ assms(3)] Cons.prems(2) that by (auto simp: visible_def not_less)
    qed
    show ?thesis
    proof (cases "UserKey (fst kv) = uk")
      case True
      then have "dropWhile (ltk (enc_ikey uk seq maxKind)) kvs = kvs"
        using Cons.prems(1) False by (cases kvs) (auto dest: less_trans)
      then show ?thesis using False True ge [of kv] Cons by simp
    next
      case f: False
      have "uk < UserKey (fst x)" if "x \<in> set (kv # kvs)" for x
      proof -
        have "uk < UserKey (fst kv)" using ge [of kv] f by auto
        moreover have "UserKey (fst kv) \<le> UserKey (fst x)"
          using Cons.prems(1) that by (auto simp: ikey_rank_def less_prod_def)
        ultimately show ?thesis by simp
      qed
      then have "\<forall>x\<in>set (kv # kvs). \<not> visible uk seq x" unfolding visible_def by (metis less_irrefl)
      then have "filter (visible uk seq) (kv # kvs) = []" unfolding filter_empty_conv .
      then show ?thesis using False f by simp
    qed
  qed
qed simp

lemma newest_visible_seek:
  assumes "sorted_wrt (\<lambda>a b. ikey_rank (fst a) < ikey_rank (fst b)) kvs" "\<forall>kv\<in>set kvs. wf_key (fst kv)" "seq \<le> MaxSeq"
  shows "newest_visible uk seq kvs = (case hdo (dropWhile (ltk (enc_ikey uk seq maxKind)) kvs) of None \<Rightarrow> None
    | Some kv \<Rightarrow> if UserKey (fst kv) = uk then Some (snd kv, trailer_of (fst kv) mod 256) else None)"
proof -
  have "(case takeWhile P ds of [] \<Rightarrow> None | kv # _ \<Rightarrow> Some (f kv))
    = (case hdo ds of None \<Rightarrow> None | Some kv \<Rightarrow> if P kv then Some (f kv) else None)" for P f and ds :: "(bytes \<times> bytes) list"
    by (cases ds) (simp_all add: hdo_def)
  then show ?thesis unfolding newest_visible_def filter_visible_dropWhile [OF assms] .
qed

lemma DecodeInternalKey_wf:
  "wf_key k \<Longrightarrow> DecodeInternalKey k = Inr \<lparr>ik_UserKey = UserKey k, ik_Seq = trailer_of k div 256, ik_Kind = trailer_of k mod 256\<rparr>"
  unfolding wf_key_def using DecodeInternalKey_enc trailer_enc UserKey_enc
  by (auto simp: maxKind_def KindPut_def le_less_Suc_eq less_Suc_eq_le)

lemma key_sorted_simps [simp]:
  "key_sorted []" "key_sorted (e # es) \<longleftrightarrow> (\<forall>x\<in>set es. ikey_rank (fst e) < ikey_rank (fst x)) \<and> key_sorted es"
  by (simp_all add: key_sorted_def)

lemma key_sorted_append:
  "key_sorted (xs @ ys) \<longleftrightarrow> key_sorted xs \<and> key_sorted ys \<and> (\<forall>x\<in>set xs. \<forall>y\<in>set ys. ikey_rank (fst x) < ikey_rank (fst y))"
  by (simp add: key_sorted_def sorted_wrt_append)

lemma key_sorted_dropWhile: "key_sorted es \<Longrightarrow> dropWhile (ltk k) es = filter (\<lambda>e. \<not> ltk k e) es"
proof (induction es)
  case (Cons e es)
  have "filter (\<lambda>e. \<not> ltk k e) es = es" if "\<not> ltk k e"
    unfolding filter_id_conv
  proof
    fix x assume "x \<in> set es"
    then have "ikey_rank (fst e) < ikey_rank (fst x)" using Cons.prems by simp
    then show "\<not> ltk k x" using that by (meson less_trans not_less)
  qed
  then show ?case using Cons by simp
qed simp

text \<open>\<^verbatim>\<open>Compare\<close> panics on a key shorter than its trailer.\<close>

definition compare_keys :: "bytes \<Rightarrow> bytes \<Rightarrow> int option" where
  "compare_keys a b = (if valid_ikey a \<and> valid_ikey b then Some (Compare a b) else None)"

section \<open>The iterator interface\<close>

text \<open>
  The methods of \<^verbatim>\<open>internalIterator\<close> as a record of functions on the state of an implementation;
  a method that panics gives \<open>None\<close>.
\<close>

record ('s, 'e) internalIterator =
  io_First :: "'s \<Rightarrow> 's option"
  io_SeekGE :: "bytes \<Rightarrow> 's \<Rightarrow> 's option"
  io_Next :: "'s \<Rightarrow> 's option"
  io_Valid :: "'s \<Rightarrow> bool"
  io_Key :: "'s \<Rightarrow> bytes option"
  io_Value :: "'s \<Rightarrow> bytes option"
  io_Error :: "'s \<Rightarrow> 'e option"

text \<open>The entries read by calling \<open>Next\<close> until the iterator is no longer valid, at most \<open>n\<close> of them.\<close>

fun collect :: "('s, 'e) internalIterator \<Rightarrow> nat \<Rightarrow> 's \<Rightarrow> entry list option" where
  "collect ops 0 s = Some []"
| "collect ops (Suc n) s =
     (if io_Valid ops s
      then do { k \<leftarrow> io_Key ops s; v \<leftarrow> io_Value ops s; s \<leftarrow> io_Next ops s; es \<leftarrow> collect ops n s; Some ((k, v) # es) }
      else Some [])"

text \<open>
  What a healthy implementation promises: it walks a fixed sorted sequence \<open>es\<close> of which \<open>rest\<close> is
  still ahead.  \<open>over s es rest\<close> is the implementation's own account of its state.
\<close>

locale internal_iterator =
  fixes ops :: "('s, 'e) internalIterator" and over :: "'s \<Rightarrow> entry list \<Rightarrow> entry list \<Rightarrow> bool"
  assumes over_sorted: "over s es rest \<Longrightarrow> key_sorted es \<and> suffix rest es"
    and over_First: "over s es rest \<Longrightarrow> \<exists>s'. io_First ops s = Some s' \<and> over s' es es"
    and over_SeekGE: "over s es rest \<Longrightarrow> valid_ikey key \<Longrightarrow> \<exists>s'. io_SeekGE ops key s = Some s' \<and> over s' es (dropWhile (ltk key) es)"
    and over_Next: "over s es (e # rest) \<Longrightarrow> \<exists>s'. io_Next ops s = Some s' \<and> over s' es rest"
    and over_Valid: "over s es rest \<Longrightarrow> io_Valid ops s \<longleftrightarrow> rest \<noteq> []"
    and over_Key: "over s es (e # rest) \<Longrightarrow> io_Key ops s = Some (fst e) \<and> io_Value ops s = Some (snd e)"
    and over_Error: "over s es rest \<Longrightarrow> io_Error ops s = None"
begin

lemma collect_rest: "over s es rest \<Longrightarrow> length rest \<le> n \<Longrightarrow> collect ops n s = Some rest"
proof (induction n arbitrary: s rest)
  case (Suc n)
  show ?case
  proof (cases rest)
    case Nil
    then show ?thesis using over_Valid [OF Suc.prems(1)] by simp
  next
    case (Cons e r)
    then have o: "over s es (e # r)" using Suc.prems(1) by simp
    obtain s' where "io_Next ops s = Some s'" "over s' es r" using over_Next [OF o] by blast
    then show ?thesis using Suc.IH [of s' r] Suc.prems(2) Cons over_Valid [OF o] over_Key [OF o] by simp
  qed
qed simp

lemma scan_all:
  assumes "over s es rest"
  shows "(io_First ops s \<bind> collect ops (length es)) = Some es"
proof -
  obtain s' where "io_First ops s = Some s'" "over s' es es" using over_First [OF assms] by blast
  then show ?thesis using collect_rest [of s' es es] by simp
qed

lemma seek_all:
  assumes "over s es rest" "valid_ikey key"
  shows "(io_SeekGE ops key s \<bind> collect ops (length es)) = Some (filter (\<lambda>e. \<not> ltk key e) es)"
proof -
  obtain s' where "io_SeekGE ops key s = Some s'" "over s' es (dropWhile (ltk key) es)" using over_SeekGE [OF assms] by blast
  then show ?thesis using collect_rest [of s' es] key_sorted_dropWhile over_sorted [OF assms(1)] length_dropWhile_le [of "ltk key" es]
    by simp
qed

end

end
