(* ===== verification/Memtable.thy ===== *)
theory Memtable
  imports KeyOrder
begin

text \<open>
  The in-memory write buffer, \<^verbatim>\<open>src/internal/memtable/memtable.go\<close>: an insert-only skiplist.  Nodes live in
  a store from addresses to node records, the head is address 0, and a link is an optional address;
  following a nil or dangling link and indexing a tower past its height are panics (\<open>None\<close>).  The search
  loop is a partial function whose value \<open>None\<close> also covers not returning, so the lemmas that it yields
  \<open>Some\<close> show that it ends.  The random tower height comes from the list of draws of \<^verbatim>\<open>rand.IntN\<close>.

  The publication loop of \<^verbatim>\<open>Add\<close> is kept step by step: \<open>publish\<close> is one atomic store, and the lemmas hold
  after every one of them, so they cover a reader that runs between two stores of the writer.
\<close>

section \<open>The skiplist\<close>

definition maxHeight :: nat where "maxHeight = 12"
definition branchFactor :: nat where "branchFactor = 4"
definition nodeOverhead :: nat where "nodeOverhead = 64"
definition ptrSize :: nat where "ptrSize = 8"

record mnode =
  mn_key :: bytes
  mn_value :: bytes
  mn_next :: "nat option list"

type_synonym mheap = "nat \<rightharpoonup> mnode"

record MemTable =
  mt_heap :: mheap
  mt_height :: nat
  mt_size :: nat
  mt_alloc :: nat

definition Memtable_New :: MemTable where
  "Memtable_New = \<lparr>mt_heap = [0 \<mapsto> \<lparr>mn_key = [], mn_value = [], mn_next = replicate maxHeight None\<rparr>],
     mt_height = 1, mt_size = 0, mt_alloc = 1\<rparr>"

fun randomHeight :: "nat \<Rightarrow> nat list \<Rightarrow> nat" where
  "randomHeight h (r # rs) = (if h < maxHeight \<and> r mod branchFactor = 0 then randomHeight (h + 1) rs else h)"
| "randomHeight h [] = h"

definition load :: "mheap \<Rightarrow> nat \<Rightarrow> nat \<Rightarrow> nat option option" where
  "load H x level = do { nd \<leftarrow> H x; if level < length (mn_next nd) then Some (mn_next nd ! level) else None }"

definition before :: "mheap \<Rightarrow> bytes \<Rightarrow> nat option \<Rightarrow> bool option" where
  "before H key next =
     (case next of None \<Rightarrow> Some False | Some y \<Rightarrow> do { ny \<leftarrow> H y; Some (Compare (mn_key ny) key < 0) })"

partial_function (option) findGE_loop ::
  "mheap \<Rightarrow> bytes \<Rightarrow> nat \<Rightarrow> nat \<Rightarrow> (nat \<rightharpoonup> nat) \<Rightarrow> (nat option \<times> (nat \<rightharpoonup> nat)) option" where
  "findGE_loop H key x level preds = do {
     next \<leftarrow> load H x level;
     less \<leftarrow> before H key next;
     if less then findGE_loop H key (the next) level preds
     else if level = 0 then Some (next, preds(level \<mapsto> x))
     else findGE_loop H key x (level - 1) (preds(level \<mapsto> x))
   }"

definition findGE :: "bytes \<Rightarrow> MemTable \<Rightarrow> (nat option \<times> (nat \<rightharpoonup> nat)) option" where
  "findGE key m = findGE_loop (mt_heap m) key 0 (mt_height m - 1) Map.empty"

text \<open>One store of the publication loop: the predecessor's link at a level becomes the new node.\<close>

definition publish :: "nat \<Rightarrow> (nat \<rightharpoonup> nat) \<Rightarrow> nat \<Rightarrow> mheap \<Rightarrow> mheap option" where
  "publish n preds i H = do {
     p \<leftarrow> preds i;
     nd \<leftarrow> H p;
     if i < length (mn_next nd) then Some (H(p \<mapsto> nd\<lparr>mn_next := (mn_next nd)[i := Some n]\<rparr>)) else None
   }"

fun publish_upto :: "nat \<Rightarrow> (nat \<rightharpoonup> nat) \<Rightarrow> nat \<Rightarrow> mheap \<Rightarrow> mheap option" where
  "publish_upto n preds 0 H = Some H"
| "publish_upto n preds (Suc i) H = do { H \<leftarrow> publish_upto n preds i H; publish n preds i H }"

fun read_links :: "(nat \<rightharpoonup> nat) \<Rightarrow> mheap \<Rightarrow> nat list \<Rightarrow> nat option list option" where
  "read_links preds H [] = Some []"
| "read_links preds H (i # is) = do {
     p \<leftarrow> preds i; l \<leftarrow> load H p i; ls \<leftarrow> read_links preds H is; Some (l # ls) }"

text \<open>
  \<open>Add_stores j\<close> is the state an insertion is in after \<open>j\<close> stores of its publication loop, with the key it
  inserts; \<^verbatim>\<open>Add\<close> runs all of them and then charges the size.  \<open>None\<close> is a panic: a bad sequence number
  or kind, or a duplicate internal key.
\<close>

definition Add_stores :: "nat \<Rightarrow> nat list \<Rightarrow> bytes \<Rightarrow> nat \<Rightarrow> nat \<Rightarrow> bytes \<Rightarrow> MemTable \<Rightarrow> (bytes \<times> MemTable) option" where
  "Add_stores j draws userKey seq kind val m = do {
     key \<leftarrow> AppendInternalKey [] userKey seq kind;
     (next, preds) \<leftarrow> findGE key m;
     dup \<leftarrow> (case next of None \<Rightarrow> Some False
             | Some y \<Rightarrow> do { ny \<leftarrow> mt_heap m y; Some (Compare (mn_key ny) key = 0) });
     if dup then None
     else do {
       let h = randomHeight 1 draws;
       let cur = mt_height m;
       let preds = (if h > cur then (\<lambda>i. if cur \<le> i \<and> i < h then Some 0 else preds i) else preds);
       links \<leftarrow> read_links preds (mt_heap m) [0..<h];
       let n = mt_alloc m;
       let H = (mt_heap m)(n \<mapsto> \<lparr>mn_key = key, mn_value = val, mn_next = links\<rparr>);
       H \<leftarrow> publish_upto n preds j H;
       Some (key, m\<lparr>mt_heap := H, mt_height := max cur h, mt_alloc := n + 1\<rparr>)
     }
   }"

definition Add :: "nat list \<Rightarrow> bytes \<Rightarrow> nat \<Rightarrow> nat \<Rightarrow> bytes \<Rightarrow> MemTable \<Rightarrow> MemTable option" where
  "Add draws userKey seq kind val m = do {
     let h = randomHeight 1 draws;
     (key, m) \<leftarrow> Add_stores h draws userKey seq kind val m;
     Some (m\<lparr>mt_size := mt_size m + (length key + length val + nodeOverhead + h * ptrSize)\<rparr>)
   }"

definition Memtable_Get :: "bytes \<Rightarrow> nat \<Rightarrow> MemTable \<Rightarrow> (bytes \<times> nat) option option" where
  "Memtable_Get userKey seq m = do {
     seek \<leftarrow> AppendSeekKey [] userKey seq;
     (n, _) \<leftarrow> findGE seek m;
     case n of
       None \<Rightarrow> Some None
     | Some y \<Rightarrow> do {
         nd \<leftarrow> mt_heap m y;
         case DecodeInternalKey (mn_key nd) of
           Inl _ \<Rightarrow> None
         | Inr ik \<Rightarrow> if ik_UserKey ik \<noteq> userKey then Some None else Some (Some (mn_value nd, ik_Kind ik))
       }
   }"

definition ApproximateSize :: "MemTable \<Rightarrow> nat" where
  "ApproximateSize m = mt_size m"

text \<open>Iterators: a position is an optional address; using an invalid one panics.\<close>

definition mem_First :: "MemTable \<Rightarrow> nat option option" where
  "mem_First m = load (mt_heap m) 0 0"

definition mem_SeekGE :: "bytes \<Rightarrow> MemTable \<Rightarrow> nat option option" where
  "mem_SeekGE key m = do { (n, _) \<leftarrow> findGE key m; Some n }"

definition mem_Next :: "nat option \<Rightarrow> MemTable \<Rightarrow> nat option option" where
  "mem_Next it m = do { x \<leftarrow> it; load (mt_heap m) x 0 }"

definition mem_Valid :: "nat option \<Rightarrow> bool" where
  "mem_Valid it \<longleftrightarrow> it \<noteq> None"

definition mem_Key :: "nat option \<Rightarrow> MemTable \<Rightarrow> bytes option" where
  "mem_Key it m = do { x \<leftarrow> it; nd \<leftarrow> mt_heap m x; Some (mn_key nd) }"

definition mem_Value :: "nat option \<Rightarrow> MemTable \<Rightarrow> bytes option" where
  "mem_Value it m = do { x \<leftarrow> it; nd \<leftarrow> mt_heap m x; Some (mn_value nd) }"

section \<open>The invariant of the towers\<close>

fun links :: "mheap \<Rightarrow> nat \<Rightarrow> nat \<Rightarrow> nat list \<Rightarrow> bool" where
  "links H l a [] \<longleftrightarrow> load H a l = Some None"
| "links H l a (b # bs) \<longleftrightarrow> load H a l = Some (Some b) \<and> links H l b bs"

definition rank :: "mheap \<Rightarrow> nat \<Rightarrow> bytes \<times> nat" where
  "rank H a = ikey_rank (mn_key (the (H a)))"

abbreviation lt :: "mheap \<Rightarrow> bytes \<Rightarrow> nat \<Rightarrow> bool" where
  "lt H key a \<equiv> rank H a < ikey_rank key"

text \<open>\<open>lv l\<close> is the chain of level \<open>l\<close>; levels from the current height on are empty.\<close>

definition skip :: "mheap \<Rightarrow> nat \<Rightarrow> (nat \<Rightarrow> nat list) \<Rightarrow> bool" where
  "skip H h lv \<longleftrightarrow> (\<forall>l<maxHeight. links H l 0 (lv l)) \<and> (\<forall>l. Suc l < maxHeight \<longrightarrow> set (lv (Suc l)) \<subseteq> set (lv l))
     \<and> (\<forall>l<maxHeight. sorted_wrt (\<lambda>a b. rank H a < rank H b) (lv l))
     \<and> (\<forall>a\<in>set (lv 0). a \<noteq> 0 \<and> H a \<noteq> None) \<and> 1 \<le> h \<and> h \<le> maxHeight \<and> (\<forall>l. h \<le> l \<and> l < maxHeight \<longrightarrow> lv l = [])"

definition pred_at :: "mheap \<Rightarrow> bytes \<Rightarrow> (nat \<Rightarrow> nat list) \<Rightarrow> nat \<Rightarrow> nat" where
  "pred_at H key lv l = last (0 # takeWhile (lt H key) (lv l))"

lemma skip_new: "skip (mt_heap Memtable_New) 1 (\<lambda>_. [])"
  by (auto simp: skip_def Memtable_New_def load_def maxHeight_def)

lemma skip_simps:
  assumes "skip H h lv"
  shows "l < maxHeight \<Longrightarrow> links H l 0 (lv l)" "Suc l < maxHeight \<Longrightarrow> set (lv (Suc l)) \<subseteq> set (lv l)"
    "l < maxHeight \<Longrightarrow> sorted_wrt (\<lambda>a b. rank H a < rank H b) (lv l)"
    "a \<in> set (lv 0) \<Longrightarrow> a \<noteq> 0 \<and> H a \<noteq> None" "1 \<le> h" "h \<le> maxHeight"
    "h \<le> l \<Longrightarrow> l < maxHeight \<Longrightarrow> lv l = []"
  using assms unfolding skip_def by blast+

lemma skip_set_mono:
  assumes "skip H h lv"
  shows "l < maxHeight \<Longrightarrow> set (lv l) \<subseteq> set (lv 0)"
proof (induction l)
  case (Suc l)
  then show ?case using skip_simps(2) [OF assms Suc.prems] by simp
qed simp

lemma skip_node: "skip H h lv \<Longrightarrow> l < maxHeight \<Longrightarrow> a \<in> set (lv l) \<Longrightarrow> a \<noteq> 0 \<and> H a \<noteq> None"
  using skip_set_mono [of H h lv l] skip_simps(4) [of H h lv a] by blast

lemma links_append: "links H l a (xs @ ys) \<Longrightarrow> links H l (last (a # xs)) ys"
  by (induction xs arbitrary: a) auto

lemma links_load: "links H l a xs \<Longrightarrow> load H a l = Some (hdo xs)"
  by (cases xs) (auto simp: hdo_def)

lemma sorted_takeWhile_split:
  assumes "sorted_wrt (\<lambda>a b. rank H a < rank H b) (pre @ x # post)" "lt H key x"
  shows "takeWhile (lt H key) (pre @ x # post) = pre @ x # takeWhile (lt H key) post"
    "dropWhile (lt H key) (pre @ x # post) = dropWhile (lt H key) post"
proof -
  have "\<forall>a\<in>set pre. lt H key a" using assms by (auto simp: sorted_wrt_append intro: less_trans)
  then show "takeWhile (lt H key) (pre @ x # post) = pre @ x # takeWhile (lt H key) post"
    "dropWhile (lt H key) (pre @ x # post) = dropWhile (lt H key) post"
    using assms(2) by (simp_all add: takeWhile_append2 dropWhile_append2)
qed

section \<open>Search\<close>

lemma before_Some: "H y \<noteq> None \<Longrightarrow> before H key (Some y) = Some (lt H key y)"
  by (auto simp: before_def rank_def)

lemma findGE_level:
  assumes "links H l x rest" "\<forall>a\<in>set rest. H a \<noteq> None"
  shows "findGE_loop H key x l preds =
    (let p = last (x # takeWhile (lt H key) rest) in
     if l = 0 then Some (hdo (dropWhile (lt H key) rest), preds(l \<mapsto> p)) else findGE_loop H key p (l - 1) (preds(l \<mapsto> p)))"
  using assms
proof (induction rest arbitrary: x)
  case Nil
  then show ?case by (subst findGE_loop.simps) (simp add: before_def hdo_def)
next
  case (Cons y ys)
  have ld: "load H x l = Some (Some y)" and y: "before H key (Some y) = Some (lt H key y)"
    using Cons.prems before_Some by auto
  show ?case
  proof (cases "lt H key y")
    case True
    then have "findGE_loop H key x l preds = findGE_loop H key y l preds"
      using ld y by (subst findGE_loop.simps) simp
    then show ?thesis using Cons True by (simp add: Let_def)
  next
    case False
    then show ?thesis using ld y by (subst findGE_loop.simps) (simp add: hdo_def)
  qed
qed

lemma search_level:
  assumes "skip H h lv" "l < maxHeight" "x = 0 \<or> x \<in> set (lv l) \<and> lt H key x"
  shows "findGE_loop H key x l preds =
    (if l = 0 then Some (hdo (dropWhile (lt H key) (lv 0)), preds(0 \<mapsto> pred_at H key lv 0))
     else findGE_loop H key (pred_at H key lv l) (l - 1) (preds(l \<mapsto> pred_at H key lv l)))"
proof -
  have lk: "links H l 0 (lv l)" and nn: "\<forall>a\<in>set (lv l). H a \<noteq> None" and
    so: "sorted_wrt (\<lambda>a b. rank H a < rank H b) (lv l)"
    using skip_simps(1,3) [OF assms(1,2)] skip_node [OF assms(1,2)] by simp_all
  show ?thesis
  proof (cases "x = 0")
    case True
    then show ?thesis using findGE_level [OF lk nn, of key preds] by (simp add: pred_at_def Let_def)
  next
    case False
    then obtain pre post where s: "lv l = pre @ x # post" "lt H key x" using assms(3) by (metis split_list)
    have "links H l x post" using links_append [of H l 0 "pre @ [x]" post] lk s(1) by simp
    from findGE_level [OF this, of key preds] nn s(1)
    have "findGE_loop H key x l preds = (let p = last (x # takeWhile (lt H key) post) in
       if l = 0 then Some (hdo (dropWhile (lt H key) post), preds(l \<mapsto> p)) else findGE_loop H key p (l - 1) (preds(l \<mapsto> p)))"
      by simp
    moreover have "pred_at H key lv l = last (x # takeWhile (lt H key) post)"
      "dropWhile (lt H key) (lv l) = dropWhile (lt H key) post"
      using sorted_takeWhile_split [OF so [unfolded s(1)] s(2)] by (simp_all add: pred_at_def s(1))
    ultimately show ?thesis by (auto simp: Let_def)
  qed
qed

lemma pred_at_before:
  "skip H h lv \<Longrightarrow> l < maxHeight \<Longrightarrow> pred_at H key lv l = 0 \<or> pred_at H key lv l \<in> set (lv l) \<and> lt H key (pred_at H key lv l)"
  using last_in_set [of "takeWhile (lt H key) (lv l)"] set_takeWhileD [of _ "lt H key" "lv l"]
  by (auto simp: pred_at_def)

lemma findGE_from:
  assumes "skip H h lv" "l < maxHeight" "x = 0 \<or> x \<in> set (lv l) \<and> lt H key x"
  shows "findGE_loop H key x l preds = Some (hdo (dropWhile (lt H key) (lv 0)),
    \<lambda>i. if i \<le> l then Some (pred_at H key lv i) else preds i)"
  using assms(2,3)
proof (induction l arbitrary: x preds)
  case 0
  then show ?case using search_level [OF assms(1) 0] by (simp add: fun_eq_iff)
next
  case (Suc l)
  let ?p = "pred_at H key lv (Suc l)"
  have "set (lv (Suc l)) \<subseteq> set (lv l)" by (rule skip_simps(2) [OF assms(1) Suc.prems(1)])
  then have p: "?p = 0 \<or> ?p \<in> set (lv l) \<and> lt H key ?p"
    using pred_at_before [OF assms(1) Suc.prems(1)] by blast
  have "findGE_loop H key x (Suc l) preds = findGE_loop H key ?p l (preds(Suc l \<mapsto> ?p))"
    using search_level [OF assms(1) Suc.prems] by simp
  also have "\<dots> = Some (hdo (dropWhile (lt H key) (lv 0)),
      \<lambda>i. if i \<le> l then Some (pred_at H key lv i) else (preds(Suc l \<mapsto> ?p)) i)"
    using Suc.IH [OF _ p] Suc.prems(1) by simp
  finally show ?case by (simp add: fun_eq_iff le_Suc_eq)
qed

lemma findGE_spec:
  assumes "skip (mt_heap m) (mt_height m) lv"
  shows "findGE key m = Some (hdo (dropWhile (lt (mt_heap m) key) (lv 0)),
    \<lambda>i. if i < mt_height m then Some (pred_at (mt_heap m) key lv i) else None)"
proof -
  have h: "1 \<le> mt_height m" "mt_height m - 1 < maxHeight" using skip_simps(5,6) [OF assms] by simp_all
  have "(\<lambda>i. if i \<le> mt_height m - 1 then Some (pred_at (mt_heap m) key lv i) else None)
      = (\<lambda>i. if i < mt_height m then Some (pred_at (mt_heap m) key lv i) else None)"
  proof
    fix i
    have "i \<le> mt_height m - 1 \<longleftrightarrow> i < mt_height m" using h(1) by linarith
    then show "(if i \<le> mt_height m - 1 then Some (pred_at (mt_heap m) key lv i) else None)
      = (if i < mt_height m then Some (pred_at (mt_heap m) key lv i) else None)" by simp
  qed
  then show ?thesis using findGE_from [OF assms h(2), of 0 key Map.empty] unfolding findGE_def by simp
qed

section \<open>Insertion\<close>

definition ins :: "mheap \<Rightarrow> bytes \<Rightarrow> nat \<Rightarrow> nat list \<Rightarrow> nat list" where
  "ins H key n xs = takeWhile (lt H key) xs @ n # dropWhile (lt H key) xs"

lemma load_update:
  assumes "H p = Some nd" "i < length (mn_next nd)"
  shows "load (H(p \<mapsto> nd\<lparr>mn_next := (mn_next nd)[i := x]\<rparr>)) a l = (if a = p \<and> l = i then Some x else load H a l)"
  using assms by (auto simp: load_def nth_list_update)

lemma pred_load:
  assumes "skip H h lv" "l < maxHeight"
  shows "load H (pred_at H key lv l) l = Some (hdo (dropWhile (lt H key) (lv l)))"
proof -
  have "links H l 0 (takeWhile (lt H key) (lv l) @ dropWhile (lt H key) (lv l))" using skip_simps(1) [OF assms] by simp
  from links_load [OF links_append [OF this]] show ?thesis by (simp add: pred_at_def)
qed

lemma read_links_map:
  "(\<forall>i\<in>set is. preds i = Some (p i) \<and> load H (p i) i = Some (f i)) \<Longrightarrow> read_links preds H is = Some (map f is)"
  by (induction "is") auto

definition same_data :: "mheap \<Rightarrow> mheap \<Rightarrow> bool" where
  "same_data H H' \<longleftrightarrow> (\<forall>a. (H' a = None \<longleftrightarrow> H a = None) \<and> map_option mn_key (H' a) = map_option mn_key (H a)
     \<and> map_option mn_value (H' a) = map_option mn_value (H a))"

lemma publish_upto_spec:
  assumes "\<forall>i<h. preds i = Some (p i) \<and> load H (p i) i \<noteq> None" "j \<le> h"
  shows "\<exists>H'. publish_upto n preds j H = Some H' \<and> same_data H H'
    \<and> (\<forall>a l. load H' a l = (if l < j \<and> a = p l then Some (Some n) else load H a l))"
  using assms(2)
proof (induction j)
  case (Suc j)
  then obtain H' where H': "publish_upto n preds j H = Some H'" "same_data H H'"
    "\<forall>a l. load H' a l = (if l < j \<and> a = p l then Some (Some n) else load H a l)" by auto
  have p: "preds j = Some (p j)" "load H' (p j) j \<noteq> None" using assms(1) Suc.prems H'(3) by auto
  then obtain nd where nd: "H' (p j) = Some nd" "j < length (mn_next nd)"
    by (auto simp: load_def bind_eq_Some_conv split: if_splits)
  let ?H = "H'(p j \<mapsto> nd\<lparr>mn_next := (mn_next nd)[j := Some n]\<rparr>)"
  have "publish_upto n preds (Suc j) H = Some ?H" using H'(1) p nd by (simp add: publish_def)
  moreover have "same_data H ?H" 
    using H'(2) [unfolded same_data_def, rule_format, of "p j"] H'(2) nd(1) by (simp add: same_data_def)
  moreover have "\<forall>a l. load ?H a l = (if l < Suc j \<and> a = p l then Some (Some n) else load H a l)"
    using load_update [of H' "p j", OF nd] H'(3) by (auto simp: less_Suc_eq)
  ultimately show ?case by blast
qed (auto simp: same_data_def)

lemma links_cong: "(\<forall>a\<in>insert x (set xs). load H' a l = load H a l) \<Longrightarrow> links H' l x xs = links H l x xs"
  by (induction xs arbitrary: x) auto

lemma links_insert:
  assumes "links H l a (pre @ post)" "distinct (a # pre @ post)" "n \<notin> set (a # pre @ post)"
    "load H' (last (a # pre)) l = Some (Some n)" "load H' n l = Some (hdo post)"
    "\<forall>x. x \<noteq> n \<and> x \<noteq> last (a # pre) \<longrightarrow> load H' x l = load H x l"
  shows "links H' l a (pre @ n # post)"
  using assms
proof (induction pre arbitrary: a)
  case Nil
  have "links H' l n post"
  proof (cases post)
    case (Cons b bs)
    have "links H' l b bs = links H l b bs" using Nil.prems Cons by (intro links_cong) auto
    then show ?thesis using Nil.prems Cons by (auto simp: hdo_def)
  qed (use Nil.prems in \<open>simp add: hdo_def\<close>)
  then show ?case using Nil.prems by simp
next
  case (Cons b bs)
  have "a \<noteq> last (b # bs)" using Cons.prems(2) last_in_set [of "b # bs"] by auto
  then have "load H' a l = Some (Some b)" using Cons.prems by auto
  moreover have "links H' l b (bs @ n # post)" using Cons.prems by (intro Cons.IH) auto
  ultimately show ?case by simp
qed

lemma dropWhile_sorted:
  assumes "sorted_wrt (\<lambda>a b. rank H a < rank H b) xs" "a \<in> set (dropWhile (lt H key) xs)"
  shows "\<not> lt H key a"
  using assms
proof (induction xs)
  case (Cons x xs)
  then show ?case by (cases "lt H key x") (auto dest: less_trans)
qed simp

lemma sorted_ins:
  assumes so: "sorted_wrt (\<lambda>a b. rank H a < rank H b) xs" and nd: "\<forall>a\<in>set xs. rank H a \<noteq> ikey_rank key"
    and eq: "\<forall>a\<in>set xs. rank H' a = rank H a" "rank H' n = ikey_rank key"
  shows "sorted_wrt (\<lambda>a b. rank H' a < rank H' b) (ins H key n xs)"
proof -
  let ?t = "takeWhile (lt H key) xs" and ?d = "dropWhile (lt H key) xs"
  have "sorted_wrt (\<lambda>a b. rank H' a < rank H' b) xs"
    using so eq(1) by (auto intro: sorted_wrt_mono_rel [rotated])
  then have s: "sorted_wrt (\<lambda>a b. rank H' a < rank H' b) (?t @ ?d)" by simp
  have t: "\<forall>a\<in>set ?t. rank H' a < rank H' n" using eq by (auto dest: set_takeWhileD)
  have "rank H' n < rank H' a" if "a \<in> set ?d" for a
    using dropWhile_sorted [OF so that] nd eq set_dropWhileD [OF that] by (metis linorder_neqE)
  moreover have "sorted_wrt (\<lambda>a b. rank H' a < rank H' b) ?t" "sorted_wrt (\<lambda>a b. rank H' a < rank H' b) ?d"
    using s unfolding sorted_wrt_append by blast+
  ultimately show ?thesis using t by (auto simp: ins_def sorted_wrt_append intro: less_trans)
qed

lemma sorted_rank_distinct: "sorted_wrt (\<lambda>a b. rank H a < rank H b) xs \<Longrightarrow> distinct xs"
  by (induction xs) auto

lemma same_data_rank: "same_data H H' \<Longrightarrow> rank H' a = rank H a"
  unfolding same_data_def rank_def by (metis option.exhaust_sel option.map_sel option.simps(8))

text \<open>The heap of an insertion before any store of the publication loop.\<close>

definition with_node :: "mheap \<Rightarrow> (nat \<Rightarrow> nat list) \<Rightarrow> bytes \<Rightarrow> bytes \<Rightarrow> nat \<Rightarrow> nat \<Rightarrow> mheap" where
  "with_node H lv key val n h = H(n \<mapsto> \<lparr>mn_key = key, mn_value = val,
     mn_next = map (\<lambda>i. hdo (dropWhile (lt H key) (lv i))) [0..<h]\<rparr>)"

lemma load_with_node:
  "load (with_node H lv key val n h) a l =
     (if a = n then (if l < h then Some (hdo (dropWhile (lt H key) (lv l))) else None) else load H a l)"
  by (auto simp: load_def with_node_def)

lemma skip_publish:
  assumes sk: "skip H cur lv" and fresh: "H n = None" and nodup: "\<forall>a\<in>set (lv 0). rank H a \<noteq> ikey_rank key"
    and h: "1 \<le> h" "h \<le> maxHeight" "j \<le> h" and sd: "same_data (with_node H lv key val n h) H'"
    and ld: "\<forall>a l. load H' a l = (if l < j \<and> a = pred_at H key lv l then Some (Some n)
               else load (with_node H lv key val n h) a l)"
  shows "skip H' (max cur h) (\<lambda>l. if l < j then ins H key n (lv l) else lv l)"
proof -
  let ?lv = "\<lambda>l. if l < j then ins H key n (lv l) else lv l"
  have fr: "n \<notin> set (lv l)" "n \<noteq> 0" if "l < maxHeight" for l
  proof -
    show "n \<notin> set (lv l)" using skip_node [OF sk that, of n] fresh by blast
    have "H 0 \<noteq> None" using links_load [OF skip_simps(1) [OF sk that]] by (cases "H 0") (auto simp: load_def)
    then show "n \<noteq> 0" using fresh by metis
  qed
  have m0: "0 < maxHeight" by (simp add: maxHeight_def)
  have rk: "rank H' a = (if a = n then ikey_rank key else rank H a)" for a
    using same_data_rank [OF sd, of a] by (simp add: rank_def with_node_def)
  have mono: "set (lv l) \<subseteq> set (lv 0)" if "l < maxHeight" for l by (rule skip_set_mono [OF sk that])
  have ins_set: "set (ins H key n xs) = insert n (set xs)" for xs
  proof -
    have "set (ins H key n xs) = insert n (set (takeWhile (lt H key) xs @ dropWhile (lt H key) xs))"
      unfolding ins_def set_append by auto
    then show ?thesis by simp
  qed
  have "links H' l 0 (?lv l)" if l: "l < maxHeight" for l
  proof (cases "l < j")
    case True
    let ?t = "takeWhile (lt H key) (lv l)" and ?d = "dropWhile (lt H key) (lv l)"
    have lk: "links H l 0 (?t @ ?d)" using skip_simps(1) [OF sk l] by simp
    have dist: "distinct (0 # ?t @ ?d)" "n \<notin> set (0 # ?t @ ?d)"
      using sorted_rank_distinct [OF skip_simps(3) [OF sk l]] skip_node [OF sk l] fr [OF l] by auto
    have p: "pred_at H key lv l \<noteq> n" using pred_at_before [OF sk l, of key] fr [OF l] by auto
    show ?thesis
      using True h p links_insert [OF lk dist, of H'] ld by (auto simp: ins_def load_with_node pred_at_def)
  next
    case False
    have "links H' l 0 (lv l) = links H l 0 (lv l)"
      using False fr [OF l] ld by (intro links_cong) (auto simp: load_with_node)
    then show ?thesis using False skip_simps(1) [OF sk l] by simp
  qed
  moreover have "set (?lv (Suc l)) \<subseteq> set (?lv l)" if "Suc l < maxHeight" for l
    using skip_simps(2) [OF sk that] by (auto simp: ins_set)
  moreover have "sorted_wrt (\<lambda>a b. rank H' a < rank H' b) (?lv l)" if l: "l < maxHeight" for l
  proof -
    have a: "\<forall>a\<in>set (lv l). rank H a \<noteq> ikey_rank key" "\<forall>a\<in>set (lv l). rank H' a = rank H a"
      using nodup mono [OF l] rk fr [OF l] by auto
    have "sorted_wrt (\<lambda>a b. rank H' a < rank H' b) (lv l)"
      using skip_simps(3) [OF sk l] a(2) by (auto intro: sorted_wrt_mono_rel [rotated])
    then show ?thesis using sorted_ins [OF skip_simps(3) [OF sk l] a, of n] rk by auto
  qed
  moreover have "a \<noteq> 0 \<and> H' a \<noteq> None" if "a \<in> set (?lv 0)" for a
    using that skip_simps(4) [OF sk, of a] fr(2) [OF m0] sd unfolding same_data_def
    by (auto simp: ins_set with_node_def split: if_splits)
  moreover have "?lv l = []" if "max cur h \<le> l" "l < maxHeight" for l
    using that h skip_simps(7) [OF sk, of l] by auto
  ultimately show ?thesis using skip_simps(6) [OF sk] h unfolding skip_def by (simp only: max.bounded_iff le_max_iff_disj) blast
qed

section \<open>The contents\<close>

definition node_kv :: "mheap \<Rightarrow> nat \<Rightarrow> bytes \<times> bytes" where
  "node_kv H a = (mn_key (the (H a)), mn_value (the (H a)))"

definition holds :: "MemTable \<Rightarrow> (bytes \<times> bytes) list \<Rightarrow> bool" where
  "holds m kvs \<longleftrightarrow> (\<exists>lv. skip (mt_heap m) (mt_height m) lv \<and> kvs = map (node_kv (mt_heap m)) (lv 0))
     \<and> (\<forall>a\<ge>mt_alloc m. mt_heap m a = None) \<and> (\<forall>kv\<in>set kvs. wf_key (fst kv))"

definition ins_kv :: "bytes \<Rightarrow> bytes \<Rightarrow> (bytes \<times> bytes) list \<Rightarrow> (bytes \<times> bytes) list" where
  "ins_kv key val kvs = takeWhile (ltk key) kvs @ (key, val) # dropWhile (ltk key) kvs"

lemma holds_new: "holds Memtable_New []"
proof -
  have "mt_height Memtable_New = 1" "\<forall>a\<ge>mt_alloc Memtable_New. mt_heap Memtable_New a = None"
    by (simp_all add: Memtable_New_def)
  then show ?thesis using skip_new unfolding holds_def by (auto intro!: exI [of _ "\<lambda>_. []"])
qed

lemma ltk_node [simp]: "ltk key (node_kv H a) \<longleftrightarrow> lt H key a"
  by (simp add: node_kv_def rank_def)

lemma while_node:
  "takeWhile (ltk key) (map (node_kv H) xs) = map (node_kv H) (takeWhile (lt H key) xs)"
  "dropWhile (ltk key) (map (node_kv H) xs) = map (node_kv H) (dropWhile (lt H key) xs)"
  by (simp_all add: takeWhile_map dropWhile_map o_def)

lemma randomHeight_bounds: "1 \<le> h \<Longrightarrow> h \<le> maxHeight \<Longrightarrow> 1 \<le> randomHeight h ds \<and> randomHeight h ds \<le> maxHeight"
  by (induction h ds rule: randomHeight.induct) auto

lemma same_data_kv: "same_data H H' \<Longrightarrow> node_kv H' a = node_kv H a"
  unfolding same_data_def node_kv_def by (metis option.exhaust_sel option.map_sel option.simps(8))

lemma findGE_holds:
  assumes "skip (mt_heap m) (mt_height m) lv" "kvs = map (node_kv (mt_heap m)) (lv 0)"
  shows "\<exists>preds. findGE key m = Some (hdo (dropWhile (lt (mt_heap m) key) (lv 0)), preds)"
    "map_option (node_kv (mt_heap m)) (hdo (dropWhile (lt (mt_heap m) key) (lv 0))) = hdo (dropWhile (ltk key) kvs)"
  using findGE_spec [OF assms(1)] assms(2) by (auto simp: while_node)

lemma sorted_holds:
  assumes "skip H h lv"
  shows "sorted_wrt (\<lambda>a b. ikey_rank (fst a) < ikey_rank (fst b)) (map (node_kv H) (lv 0))"
  using skip_simps(3) [OF assms, of 0] by (simp add: sorted_wrt_map node_kv_def rank_def maxHeight_def)

lemma Add_stores_eval:
  fixes val :: bytes
  assumes sk: "skip (mt_heap m) (mt_height m) lv" and fresh: "mt_heap m (mt_alloc m) = None"
    and nodup: "\<forall>a\<in>set (lv 0). rank (mt_heap m) a \<noteq> ikey_rank key"
    and key: "AppendInternalKey [] uk seq kind = Some key" and j: "j \<le> randomHeight 1 draws"
  defines "W \<equiv> with_node (mt_heap m) lv key val (mt_alloc m) (randomHeight 1 draws)"
  shows "\<exists>H'. Add_stores j draws uk seq kind val m
      = Some (key, m\<lparr>mt_heap := H', mt_height := max (mt_height m) (randomHeight 1 draws), mt_alloc := mt_alloc m + 1\<rparr>)
    \<and> same_data W H'
    \<and> (\<forall>a l. load H' a l = (if l < j \<and> a = pred_at (mt_heap m) key lv l then Some (Some (mt_alloc m)) else load W a l))"
proof -
  let ?H = "mt_heap m" and ?h = "randomHeight 1 draws" and ?n = "mt_alloc m" and ?cur = "mt_height m"
  have h: "1 \<le> ?h" "?h \<le> maxHeight" using randomHeight_bounds [of 1 draws] by (simp_all add: maxHeight_def)
  let ?f = "\<lambda>i. if i < ?cur then Some (pred_at ?H key lv i) else None"
  define preds where "preds = (if ?h > ?cur then (\<lambda>i. if ?cur \<le> i \<and> i < ?h then Some 0 else ?f i) else ?f)"
  have p: "preds i = Some (pred_at ?H key lv i) \<and> load ?H (pred_at ?H key lv i) i = Some (hdo (dropWhile (lt ?H key) (lv i)))"
    if "i < ?h" for i
    using that h pred_load [OF sk, of i key] skip_simps(7) [OF sk, of i] by (auto simp: preds_def pred_at_def)
  have links: "read_links preds ?H [0..<?h] = Some (map (\<lambda>i. hdo (dropWhile (lt ?H key) (lv i))) [0..<?h])"
    using p by (intro read_links_map) auto
  have "\<forall>i<?h. preds i = Some (pred_at ?H key lv i) \<and> load W (pred_at ?H key lv i) i \<noteq> None"
    using p by (auto simp: load_with_node W_def)
  from publish_upto_spec [OF this j] obtain H' where H': "publish_upto ?n preds j W = Some H'" "same_data W H'"
    "\<forall>a l. load H' a l = (if l < j \<and> a = pred_at ?H key lv l then Some (Some ?n) else load W a l)" by blast
  have dup: "(case hdo (dropWhile (lt ?H key) (lv 0)) of None \<Rightarrow> Some False
      | Some y \<Rightarrow> do { ny \<leftarrow> ?H y; Some (Compare (mn_key ny) key = 0) }) = Some False"
  proof (cases "dropWhile (lt ?H key) (lv 0)")
    case (Cons y ys)
    then have "y \<in> set (lv 0)" by (metis list.set_intros(1) set_dropWhileD)
    then show ?thesis using Cons nodup skip_simps(4) [OF sk, of y] by (auto simp: hdo_def rank_def)
  next
    case Nil
    then show ?thesis unfolding Nil by (simp add: hdo_def)
  qed
  have "Add_stores j draws uk seq kind val m
      = Some (key, m\<lparr>mt_heap := H', mt_height := max ?cur ?h, mt_alloc := ?n + 1\<rparr>)"
    unfolding Add_stores_def key bind.bind_lunit findGE_spec [OF sk] prod.case dup Let_def
      preds_def [symmetric] links H'(1) [unfolded W_def with_node_def]
    by simp
  then show ?thesis using H'(2,3) by blast
qed

lemma ins_kv_node:
  assumes "\<forall>a\<in>set xs. node_kv H' a = node_kv H a" "node_kv H' n = (key, val)"
  shows "map (node_kv H') (ins H key n xs) = ins_kv key val (map (node_kv H) xs)"
proof -
  have "map (node_kv H') (takeWhile P xs) = map (node_kv H) (takeWhile P xs)"
    "map (node_kv H') (dropWhile P xs) = map (node_kv H) (dropWhile P xs)" for P
    using assms(1) by (auto dest: set_takeWhileD set_dropWhileD)
  then show ?thesis using assms(2) by (simp add: ins_def ins_kv_def while_node)
qed

lemma holds_nodup:
  assumes "\<forall>kv\<in>set kvs. wf_key (fst kv)" "wf_key key" "key \<notin> fst ` set kvs" "kvs = map (node_kv H) xs"
  shows "\<forall>a\<in>set xs. rank H a \<noteq> ikey_rank key"
proof
  fix a assume "a \<in> set xs"
  then have "node_kv H a \<in> set kvs" by (simp add: assms(4))
  then have "wf_key (mn_key (the (H a)))" "mn_key (the (H a)) \<noteq> key"
    using assms(1,3) by (auto simp: node_kv_def image_iff)
  then show "rank H a \<noteq> ikey_rank key"
    using ikey_rank_inj [OF wf_key_valid wf_key_valid] assms(2) by (simp add: rank_def)
qed

lemma Add_stores_holds:
  assumes "holds m kvs" "seq \<le> MaxSeq" "kind \<le> maxKind" "enc_ikey uk seq kind \<notin> fst ` set kvs" "j \<le> randomHeight 1 draws"
  shows "\<exists>m'. Add_stores j draws uk seq kind val m = Some (enc_ikey uk seq kind, m') \<and> mt_size m' = mt_size m
    \<and> holds m' (if j = 0 then kvs else ins_kv (enc_ikey uk seq kind) val kvs)"
proof -
  let ?key = "enc_ikey uk seq kind" and ?H = "mt_heap m" and ?h = "randomHeight 1 draws" and ?n = "mt_alloc m" and ?cur = "mt_height m"
  obtain lv where sk: "skip ?H ?cur lv" and kvs: "kvs = map (node_kv ?H) (lv 0)" and fresh: "\<forall>a\<ge>?n. ?H a = None"
    and wf: "\<forall>kv\<in>set kvs. wf_key (fst kv)" using assms(1) unfolding holds_def by blast
  have h: "1 \<le> ?h" "?h \<le> maxHeight" using randomHeight_bounds [of 1 draws] by (simp_all add: maxHeight_def)
  have wk: "wf_key ?key" unfolding wf_key_def using assms(2,3) by blast
  note nodup = holds_nodup [OF wf wk assms(4) kvs]
  have fn: "?H ?n = None" using fresh by simp
  let ?w = "with_node ?H lv ?key val ?n ?h" and ?lv = "\<lambda>l. if l < j then ins ?H ?key ?n (lv l) else lv l"
  obtain H' where H': "Add_stores j draws uk seq kind val m
        = Some (?key, m\<lparr>mt_heap := H', mt_height := max ?cur ?h, mt_alloc := ?n + 1\<rparr>)" "same_data ?w H'"
      "\<forall>a l. load H' a l = (if l < j \<and> a = pred_at ?H ?key lv l then Some (Some ?n) else load ?w a l)"
    using Add_stores_eval [OF sk fn nodup _ assms(5), of uk seq kind val] AppendInternalKey_Some [OF assms(2,3), of "[]" uk]
    unfolding append_Nil by blast
  have sk': "skip H' (max ?cur ?h) ?lv" by (rule skip_publish [OF sk fn nodup h assms(5) H'(2,3)])
  have nm: "?n \<notin> set (lv 0)" using skip_simps(4) [OF sk, of ?n] fn by blast
  have kv: "node_kv H' a = (if a = ?n then (?key, val) else node_kv ?H a)" for a
    using same_data_kv [OF H'(2), of a] by (simp add: node_kv_def with_node_def)
  have "map (node_kv H') (?lv 0) = (if j = 0 then kvs else ins_kv ?key val kvs)"
    using ins_kv_node [of "lv 0" H' ?H ?n ?key val] kv nm by (auto simp: kvs)
  moreover have "\<forall>a\<ge>?n + 1. H' a = None" using fresh H'(2) unfolding same_data_def by (auto simp: with_node_def)
  moreover have "\<forall>kv\<in>set (ins_kv ?key val kvs). wf_key (fst kv)"
    using wf wk by (auto simp: ins_kv_def dest: set_takeWhileD set_dropWhileD)
  ultimately have "holds (m\<lparr>mt_heap := H', mt_height := max ?cur ?h, mt_alloc := ?n + 1\<rparr>)
      (if j = 0 then kvs else ins_kv ?key val kvs)"
    using sk' wf unfolding holds_def by (intro conjI exI [of _ ?lv]) auto
  then show ?thesis using H'(1) by simp
qed

section \<open>Correctness\<close>

lemma holds_sorted: "holds m kvs \<Longrightarrow> sorted_wrt (\<lambda>a b. ikey_rank (fst a) < ikey_rank (fst b)) kvs"
  using sorted_holds unfolding holds_def by blast

lemma Add_duplicate:
  assumes "holds m kvs" "seq \<le> MaxSeq" "kind \<le> maxKind" "enc_ikey uk seq kind \<in> fst ` set kvs"
  shows "Add_stores j draws uk seq kind val m = None"
proof -
  let ?key = "enc_ikey uk seq kind" and ?H = "mt_heap m"
  obtain lv where sk: "skip ?H (mt_height m) lv" and kvs: "kvs = map (node_kv ?H) (lv 0)"
    using assms(1) unfolding holds_def by blast
  obtain a where a: "a \<in> set (lv 0)" "rank ?H a = ikey_rank ?key" using assms(4) by (auto simp: kvs node_kv_def rank_def)
  obtain pre post where s: "lv 0 = pre @ a # post" using a(1) by (meson split_list)
  have so: "sorted_wrt (\<lambda>a b. rank ?H a < rank ?H b) (pre @ a # post)"
    using skip_simps(3) [OF sk, of 0] s by (simp add: maxHeight_def)
  have "dropWhile (lt ?H ?key) (pre @ a # post) = a # post"
  proof -
    have "\<forall>b\<in>set pre. lt ?H ?key b" using so a(2) by (auto simp: sorted_wrt_append)
    then show ?thesis using a(2) by (simp add: dropWhile_append2)
  qed
  then have hd: "hdo (dropWhile (lt ?H ?key) (lv 0)) = Some a" by (simp add: s hdo_def)
  obtain nd where "?H a = Some nd" using skip_simps(4) [OF sk a(1)] by auto
  then show ?thesis
    using AppendInternalKey_Some [OF assms(2,3), of "[]" uk] findGE_spec [OF sk, of ?key] hd a(2)
    by (simp add: Add_stores_def rank_def)
qed

lemma Add_holds:
  assumes "holds m kvs" "seq \<le> MaxSeq" "kind \<le> maxKind" "enc_ikey uk seq kind \<notin> fst ` set kvs"
  shows "\<exists>m'. Add draws uk seq kind val m = Some m' \<and> holds m' (ins_kv (enc_ikey uk seq kind) val kvs)
    \<and> ApproximateSize m + length val + length uk < ApproximateSize m'"
proof -
  have h: "randomHeight 1 draws \<noteq> 0" using randomHeight_bounds [of 1 draws] by (auto simp: maxHeight_def)
  obtain m' where m': "Add_stores (randomHeight 1 draws) draws uk seq kind val m = Some (enc_ikey uk seq kind, m')"
    "mt_size m' = mt_size m" "holds m' (ins_kv (enc_ikey uk seq kind) val kvs)"
    using Add_stores_holds [OF assms order_refl, of draws val] h by auto
  then have "holds (m'\<lparr>mt_size := s\<rparr>) (ins_kv (enc_ikey uk seq kind) val kvs)" for s by (simp add: holds_def)
  then show ?thesis using m' by (simp add: Add_def ApproximateSize_def Let_def nodeOverhead_def)
qed

text \<open>
  C24. Insertion.  Whatever tower height is drawn, adding a fresh version to a memtable succeeds and
  puts it at its place in internal-key order, everything else unchanged, and the charged size grows;
  adding a version that is already there panics.
\<close>

theorem memtable_add_inserts:
  assumes "holds m kvs" "seq \<le> MaxSeq" "kind \<le> maxKind"
  shows "if enc_ikey uk seq kind \<in> fst ` set kvs then Add draws uk seq kind val m = None
    else \<exists>m'. Add draws uk seq kind val m = Some m' \<and> holds m' (ins_kv (enc_ikey uk seq kind) val kvs)
      \<and> ApproximateSize m + length val + length uk < ApproximateSize m'"
  using Add_duplicate [OF assms] Add_holds [OF assms] by (simp add: Add_def)


lemma Memtable_Get_holds:
  assumes "holds m kvs" "seq \<le> MaxSeq"
  shows "Memtable_Get uk seq m = Some (newest_visible uk seq kvs)"
proof -
  let ?H = "mt_heap m" and ?k = "enc_ikey uk seq maxKind"
  obtain lv where lv: "skip ?H (mt_height m) lv" "kvs = map (node_kv ?H) (lv 0)" using assms(1) unfolding holds_def by blast
  have wf: "\<forall>kv\<in>set kvs. wf_key (fst kv)" using assms(1) by (simp add: holds_def)
  obtain preds where f: "findGE ?k m = Some (hdo (dropWhile (lt ?H ?k) (lv 0)), preds)" using findGE_holds(1) [OF lv] by blast
  have sk: "AppendSeekKey [] uk seq = Some ?k" using AppendInternalKey_Some [OF assms(2), of maxKind "[]" uk] by (simp add: AppendSeekKey_def)
  show ?thesis
  proof (cases "hdo (dropWhile (lt ?H ?k) (lv 0))")
    case None
    then show ?thesis using sk f findGE_holds(2) [OF lv, of ?k, symmetric] newest_visible_seek [OF holds_sorted [OF assms(1)] wf assms(2), of uk]
      by (simp add: Memtable_Get_def)
  next
    case (Some y)
    then have y: "y \<in> set (lv 0)" by (auto simp: hdo_def split: list.splits) (metis list.set_intros(1) set_dropWhileD)
    then obtain nd where nd: "?H y = Some nd" using skip_simps(4) [OF lv(1)] by blast
    then have "wf_key (mn_key nd)" using y wf lv(2) by (auto simp: node_kv_def)
    then show ?thesis
      using sk f Some nd findGE_holds(2) [OF lv, of ?k, symmetric] newest_visible_seek [OF holds_sorted [OF assms(1)] wf assms(2), of uk]
        DecodeInternalKey_wf [of "mn_key nd"] by (simp add: Memtable_Get_def node_kv_def)
  qed
qed

text \<open>
  C26. Point reads.  A get at a sequence number returns the newest version of the user key visible
  there, tombstones included, and nothing when there is none; it never panics on a valid sequence number.
\<close>

theorem memtable_get_newest:
  assumes "holds m kvs" "seq \<le> MaxSeq"
  shows "Memtable_Get uk seq m = Some (newest_visible uk seq kvs)"
  by (rule Memtable_Get_holds [OF assms])

section \<open>Iteration\<close>

text \<open>An iterator is the memtable it points to and its position.\<close>

definition mem_NewIterator :: "MemTable \<Rightarrow> MemTable \<times> nat option" where
  "mem_NewIterator m = (m, None)"

definition mem_iterator :: "(MemTable \<times> nat option, 'e) internalIterator" where
  "mem_iterator = \<lparr>
     io_First = \<lambda>(m, _). map_option (Pair m) (mem_First m),
     io_SeekGE = \<lambda>key (m, _). map_option (Pair m) (mem_SeekGE key m),
     io_Next = \<lambda>(m, it). map_option (Pair m) (mem_Next it m),
     io_Valid = \<lambda>(_, it). mem_Valid it,
     io_Key = \<lambda>(m, it). mem_Key it m,
     io_Value = \<lambda>(m, it). mem_Value it m,
     io_Error = \<lambda>_. None\<rparr>"

definition mem_over :: "MemTable \<times> nat option \<Rightarrow> entry list \<Rightarrow> entry list \<Rightarrow> bool" where
  "mem_over s es rest \<longleftrightarrow> holds (fst s) es \<and> (\<exists>lv pre post. skip (mt_heap (fst s)) (mt_height (fst s)) lv
     \<and> es = map (node_kv (mt_heap (fst s))) (lv 0) \<and> lv 0 = pre @ post \<and> snd s = hdo post
     \<and> rest = map (node_kv (mt_heap (fst s))) post)"

lemma mem_overI:
  "holds m es \<Longrightarrow> skip (mt_heap m) (mt_height m) lv \<Longrightarrow> es = map (node_kv (mt_heap m)) (lv 0) \<Longrightarrow> lv 0 = pre @ post
    \<Longrightarrow> it = hdo post \<Longrightarrow> rest = map (node_kv (mt_heap m)) post \<Longrightarrow> mem_over (m, it) es rest"
  unfolding mem_over_def fst_conv snd_conv by blast

lemma mem_overE:
  assumes "mem_over s es rest"
  obtains m lv pre post where "s = (m, hdo post)" "holds m es" "skip (mt_heap m) (mt_height m) lv"
    "es = map (node_kv (mt_heap m)) (lv 0)" "lv 0 = pre @ post" "rest = map (node_kv (mt_heap m)) post"
  using assms unfolding mem_over_def by (cases s) auto

lemma mem_over_new: "holds m es \<Longrightarrow> mem_over (mem_NewIterator m) es []"
proof -
  assume h: "holds m es"
  then obtain lv where lv: "skip (mt_heap m) (mt_height m) lv" "es = map (node_kv (mt_heap m)) (lv 0)" unfolding holds_def by blast
  then show ?thesis unfolding mem_NewIterator_def by (intro mem_overI [OF h lv, of "lv 0" "[]"]) (simp_all add: hdo_def)
qed

lemma mem_First_over: assumes "mem_over s es rest" shows "\<exists>s'. io_First mem_iterator s = Some s' \<and> mem_over s' es es"
  using assms
proof (rule mem_overE)
  fix m lv pre post assume a: "s = (m, hdo post)" "holds m es" "skip (mt_heap m) (mt_height m) lv"
    "es = map (node_kv (mt_heap m)) (lv 0)" "lv 0 = pre @ post"
  have "mem_First m = Some (hdo (lv 0))" using links_load skip_simps(1) [OF a(3), of 0] by (auto simp: mem_First_def maxHeight_def)
  moreover have "mem_over (m, hdo (lv 0)) es es" by (rule mem_overI [OF a(2-4), of "[]" "lv 0"]) (simp_all add: a(4))
  ultimately show ?thesis by (simp add: mem_iterator_def a(1))
qed

lemma mem_SeekGE_over:
  assumes "mem_over s es rest" shows "\<exists>s'. io_SeekGE mem_iterator key s = Some s' \<and> mem_over s' es (dropWhile (ltk key) es)"
  using assms
proof (rule mem_overE)
  fix m lv pre post assume a: "s = (m, hdo post)" "holds m es" "skip (mt_heap m) (mt_height m) lv"
    "es = map (node_kv (mt_heap m)) (lv 0)" "lv 0 = pre @ post"
  let ?d = "dropWhile (lt (mt_heap m) key) (lv 0)"
  have "mem_SeekGE key m = Some (hdo ?d)" using findGE_holds(1) [OF a(3,4), of key] by (auto simp: mem_SeekGE_def)
  moreover have "mem_over (m, hdo ?d) es (dropWhile (ltk key) es)"
    by (rule mem_overI [OF a(2-4), of "takeWhile (lt (mt_heap m) key) (lv 0)" ?d]) (simp_all add: a(4) while_node)
  ultimately show ?thesis by (simp add: mem_iterator_def a(1))
qed

lemma mem_Next_over:
  assumes "mem_over s es (e # rest)" shows "\<exists>s'. io_Next mem_iterator s = Some s' \<and> mem_over s' es rest"
  using assms
proof (rule mem_overE)
  fix m lv pre post assume a: "s = (m, hdo post)" "holds m es" "skip (mt_heap m) (mt_height m) lv"
    "es = map (node_kv (mt_heap m)) (lv 0)" "lv 0 = pre @ post" "e # rest = map (node_kv (mt_heap m)) post"
  then obtain x xs where p: "post = x # xs" by (cases post) auto
  have "links (mt_heap m) 0 0 ((pre @ [x]) @ xs)" using skip_simps(1) [OF a(3), of 0] a(5) p by (simp add: maxHeight_def)
  from links_load [OF links_append [OF this]] have "mem_Next (hdo post) m = Some (hdo xs)" by (simp add: mem_Next_def p hdo_def)
  moreover have "mem_over (m, hdo xs) es rest"
    using a(5,6) p by (intro mem_overI [OF a(2-4), of "pre @ [x]" xs]) simp_all
  ultimately show ?thesis by (simp add: mem_iterator_def a(1))
qed

lemma mem_Key_over:
  assumes "mem_over s es (e # rest)" shows "io_Key mem_iterator s = Some (fst e) \<and> io_Value mem_iterator s = Some (snd e)"
  using assms
proof (rule mem_overE)
  fix m lv pre post assume a: "s = (m, hdo post)" "skip (mt_heap m) (mt_height m) lv"
    "lv 0 = pre @ post" "e # rest = map (node_kv (mt_heap m)) post"
  then obtain x xs where p: "post = x # xs" by (cases post) auto
  have "x \<in> set (lv 0)" using a(3) p by simp
  then obtain nd where "mt_heap m x = Some nd" using skip_simps(4) [OF a(2)] by blast
  then show ?thesis using a(1,4) p by (simp add: mem_iterator_def mem_Key_def mem_Value_def hdo_def node_kv_def)
qed

interpretation mem: internal_iterator mem_iterator mem_over
proof
  show "key_sorted es \<and> suffix rest es" if "mem_over s es rest" for s es rest
    using that by (rule mem_overE) (auto simp: key_sorted_def suffix_def dest: holds_sorted)
  show "io_Valid mem_iterator s \<longleftrightarrow> rest \<noteq> []" if "mem_over s es rest" for s es rest
    using that by (rule mem_overE) (auto simp: mem_iterator_def mem_Valid_def hdo_def split: list.splits)
  show "io_Error mem_iterator s = None" for s by (simp add: mem_iterator_def)
qed (fact mem_First_over mem_Next_over mem_Key_over | (rule mem_SeekGE_over, assumption))+

text \<open>
  C27. Scanning a memtable.  From the first entry, or from the first entry not below a key, calling
  \<open>Next\<close> until the iterator is invalid yields exactly the entries of the memtable from there on, in
  internal-key order, and never panics.
\<close>

theorem memtable_scan:
  fixes ops :: "(MemTable \<times> nat option, 'e) internalIterator"
  assumes "holds m es" "valid_ikey key" and ops: "ops = mem_iterator"
  shows "(io_First ops (mem_NewIterator m) \<bind> collect ops (length es)) = Some es
    \<and> (io_SeekGE ops key (mem_NewIterator m) \<bind> collect ops (length es)) = Some (filter (\<lambda>e. \<not> ltk key e) es)
    \<and> key_sorted es"
  unfolding ops using mem.scan_all [OF mem_over_new [OF assms(1)]] mem.seek_all [OF mem_over_new [OF assms(1)] assms(2)]
    mem.over_sorted [OF mem_over_new [OF assms(1)]] by blast

section \<open>Examples\<close>

text \<open>A memtable with two versions of one key and a tombstone of another.\<close>

definition mem_example :: "MemTable option" where
  "mem_example = do {
     m \<leftarrow> Add [] [97] 1 KindPut [1] Memtable_New;
     m \<leftarrow> Add [0] [98] 2 KindDelete [] m;
     Add [0, 0] [97] 3 KindPut [3] m
   }"

abbreviation mem_example_entries :: "entry list" where
  "mem_example_entries \<equiv> [(enc_ikey [97] 3 KindPut, [3]), (enc_ikey [97] 1 KindPut, [1]), (enc_ikey [98] 2 KindDelete, [])]"
lemma mem_small: "1 \<le> MaxSeq" "2 \<le> MaxSeq" "3 \<le> MaxSeq" "KindPut \<le> maxKind" "KindDelete \<le> maxKind"
  by (simp_all add: MaxSeq_def KindPut_def KindDelete_def maxKind_def)

theorem memtable_add_inserts_witness:
  "\<exists>m'. Add [0] [97] 1 KindPut [1] Memtable_New = Some m' \<and> holds m' [(enc_ikey [97] 1 KindPut, [1])]
    \<and> ApproximateSize Memtable_New + length [1::byte] + length [97::byte] < ApproximateSize m'"
  using memtable_add_inserts [OF holds_new mem_small(1,4), of "[97]" "[0]" "[1]"] by (simp add: ins_kv_def)


lemma mem_example_holds: "\<exists>m. mem_example = Some m \<and> holds m mem_example_entries"
proof -
  let ?a1 = "enc_ikey [97] 1 KindPut" and ?b = "enc_ikey [98] 2 KindDelete" and ?a3 = "enc_ikey [97] 3 KindPut"
  have r: "ikey_rank ?a1 < ikey_rank ?b" "ikey_rank ?a3 < ikey_rank ?a1"
    using rank_enc_less [OF mem_small(1,4,2,5), of "[97]" "[98]"] rank_enc_less [OF mem_small(3,4,1,4), of "[97]" "[97]"] by simp_all
  then have n: "?b \<noteq> ?a1" "?a3 \<noteq> ?a1" "?a3 \<noteq> ?b" "\<not> ikey_rank ?a1 < ikey_rank ?a3" "ikey_rank ?a3 < ikey_rank ?b"
    by (force dest: less_asym intro: less_trans)+
  obtain m1 where m1: "Add [] [97] 1 KindPut [1] Memtable_New = Some m1" "holds m1 [(?a1, [1])]"
    using Add_holds [OF holds_new mem_small(1,4), of "[97]" "[]" "[1]"] by (auto simp: ins_kv_def)
  obtain m2 where m2: "Add [0] [98] 2 KindDelete [] m1 = Some m2" "holds m2 [(?a1, [1]), (?b, [])]"
    using Add_holds [OF m1(2) mem_small(2,5), of "[98]" "[0]" "[]"] r n by (auto simp: ins_kv_def)
  obtain m3 where m3: "Add [0, 0] [97] 3 KindPut [3] m2 = Some m3" "holds m3 mem_example_entries"
    using Add_holds [OF m2(2) mem_small(3,4), of "[97]" "[0, 0]" "[3]"] r n by (auto simp: ins_kv_def)
  show ?thesis using m1(1) m2(1) m3 by (auto simp: mem_example_def)
qed

theorem memtable_get_newest_witness:
  "\<exists>m. mem_example = Some m \<and> Memtable_Get [97] 2 m = Some (Some ([1], KindPut))"
proof -
  obtain m where m: "mem_example = Some m" "holds m mem_example_entries" using mem_example_holds by blast
  have "newest_visible [97] 2 mem_example_entries = Some ([1], KindPut)" 
    using trailer_enc [OF mem_small(1,4), of "[97]"] trailer_enc [OF mem_small(3,4), of "[97]"] UserKey_enc [of "[98]" 2 KindDelete]
      UserKey_enc [of "[97]" 1 KindPut] UserKey_enc [of "[97]" 3 KindPut]
    by (simp add: newest_visible_def visible_def KindPut_def)
  then show ?thesis using memtable_get_newest [OF m(2) mem_small(2), of "[97]"] m(1) by (intro exI [of _ m]) simp
qed

theorem memtable_scan_witness:
  "\<exists>m. mem_example = Some m
    \<and> (io_First (mem_iterator :: (_, unit) internalIterator) (mem_NewIterator m) \<bind> collect (mem_iterator :: (_, unit) internalIterator) 3)
      = Some mem_example_entries"
proof -
  obtain m where m: "mem_example = Some m" "holds m mem_example_entries" using mem_example_holds by blast
  have "length mem_example_entries = 3" by simp
  then show ?thesis using memtable_scan [OF m(2) valid_enc refl, where 'e = unit] m(1) by metis
qed

end
