(* ===== verification/SstFormat.thy ===== *)
theory SstFormat
  imports KeyOrder Crc32c
begin

text \<open>
  The on-disk building blocks of a table, \<^verbatim>\<open>src/internal/sstable/format.go\<close>: block handles, the fixed
  footer, and the errors the package reports.  The lemmas give the round trips and show that a footer
  with one damaged byte is refused.
\<close>

section \<open>Errors\<close>

text \<open>
  A region names the damaged part; each call of \<^verbatim>\<open>corruptf\<close> in the package is one constructor, carrying
  the values its message reports.
\<close>

datatype region = FilterRegion | IndexRegion | DataRegion nat

datatype footer_error = ErrBadMagic | ErrBadVersion | ErrBadFooter

datatype sst_error =
    BlockTooShort region | RestartCount region nat | RestartPast region nat | RestartOrder region
  | BadHeader region nat | SharedPrefix region nat nat | EntryOverrun region nat | ShortKey region nat
  | RestartNotFull region nat | BadRestart region nat | RestartKeyRange region nat
  | NoFooter nat | ReadFooter string | FooterError footer_error
  | HandleLength region nat | HandleRange region nat nat | ReadBlock region string | BlockChecksum region
  | IndexNotFull | IndexHandle | IndexHandleRange | IndexOrder | IndexCount nat nat
  | NoEntry nat | EntryKey nat base_error | IndexOutOfSync nat | EmptyBlock nat
  | KeyTooShort bytes | ErrOutOfOrder bytes bytes | ErrBlockOverflow | ErrBloomOverflow | WriteError | AlreadyFinished

section \<open>Definitions\<close>

definition tableMagic :: nat where "tableMagic = 0xba5a17557ab1e000"
definition formatVersion :: nat where "formatVersion = 1"
abbreviation (input) footerLen :: nat where "footerLen \<equiv> 48"
abbreviation (input) blockTrailerLen :: nat where "blockTrailerLen \<equiv> 4"

record blockHandle =
  h_offset :: nat
  h_length :: nat

definition handle_append :: "blockHandle \<Rightarrow> bytes \<Rightarrow> bytes" where
  "handle_append h dst = (dst @ put_uvarint (h_offset h)) @ put_uvarint (h_length h)"

definition decodeBlockHandle :: "bytes \<Rightarrow> (blockHandle \<times> bytes) option" where
  "decodeBlockHandle buf =
     (case uvarint buf of
        None \<Rightarrow> None
      | Some (off, n) \<Rightarrow>
          let buf = drop n buf in
          (case uvarint buf of
             None \<Rightarrow> None
           | Some (len, n) \<Rightarrow> Some (\<lparr>h_offset = off, h_length = len\<rparr>, drop n buf)))"

record footer =
  ft_filter :: blockHandle
  ft_index :: blockHandle

definition footer_head :: "footer \<Rightarrow> bytes" where
  "footer_head f = put_u64 (h_offset (ft_filter f)) @ put_u64 (h_length (ft_filter f))
     @ put_u64 (h_offset (ft_index f)) @ put_u64 (h_length (ft_index f)) @ put_u32 formatVersion"

definition footer_encode :: "footer \<Rightarrow> bytes" where
  "footer_encode f = footer_head f @ put_u32 (unat (crc_checksum (footer_head f))) @ put_u64 tableMagic"

definition decodeFooter :: "bytes \<Rightarrow> footer_error + footer" where
  "decodeFooter buf =
     (if length buf \<noteq> footerLen then Inl ErrBadFooter
      else if get_u64 (drop 40 buf) \<noteq> tableMagic then Inl ErrBadMagic
      else if get_u32 (drop 36 buf) \<noteq> unat (crc_checksum (take 36 buf)) then Inl ErrBadFooter
      else if get_u32 (drop 32 buf) \<noteq> formatVersion then Inl ErrBadVersion
      else Inr \<lparr>ft_filter = \<lparr>h_offset = get_u64 buf, h_length = get_u64 (drop 8 buf)\<rparr>,
                ft_index = \<lparr>h_offset = get_u64 (drop 16 buf), h_length = get_u64 (drop 24 buf)\<rparr>\<rparr>)"

section \<open>Round trips\<close>

definition wf_handle :: "blockHandle \<Rightarrow> bool" where
  "wf_handle h \<longleftrightarrow> h_offset h < 2 ^ 64 \<and> h_length h < 2 ^ 64"

lemma decodeBlockHandle_append [codec_simps]:
  "wf_handle h \<Longrightarrow> decodeBlockHandle (handle_append h [] @ rest) = Some (h, rest)"
  by (simp add: wf_handle_def decodeBlockHandle_def handle_append_def codec_simps)

lemma length_footer_head [simp]: "length (footer_head f) = 36"
  by (simp add: footer_head_def)

lemma length_footer_encode [simp]: "length (footer_encode f) = footerLen"
  by (simp add: footer_encode_def)

lemma magic_less: "tableMagic < 2 ^ 64" "formatVersion < 2 ^ 32"
  by (simp_all add: tableMagic_def formatVersion_def)

lemma sst_crc_less: "unat (crc_checksum p) < 2 ^ 32"
  using unsigned_less [of "crc_checksum p", where 'a = nat] by simp

lemma decodeFooter_encode:
  assumes "wf_handle (ft_filter f)" "wf_handle (ft_index f)"
  shows "decodeFooter (footer_encode f) = Inr f"
proof -
  have d: "drop 40 (footer_encode f) = put_u64 tableMagic"
    "drop 36 (footer_encode f) = put_u32 (unat (crc_checksum (footer_head f))) @ put_u64 tableMagic"
    "take 36 (footer_encode f) = footer_head f"
    "drop 32 (footer_encode f) = put_u32 formatVersion @ drop 36 (footer_encode f)"
    "drop 24 (footer_encode f) = put_u64 (h_length (ft_index f)) @ drop 32 (footer_encode f)"
    "drop 16 (footer_encode f) = put_u64 (h_offset (ft_index f)) @ drop 24 (footer_encode f)"
    "drop 8 (footer_encode f) = put_u64 (h_length (ft_filter f)) @ drop 16 (footer_encode f)"
    "footer_encode f = put_u64 (h_offset (ft_filter f)) @ drop 8 (footer_encode f)"
    by (simp_all add: footer_encode_def footer_head_def)
  have g: "get_u64 (drop 40 (footer_encode f)) = tableMagic" using get_u64_put [of tableMagic "[]"] magic_less d(1) by simp
  have u: "get_u64 (footer_encode f) = h_offset (ft_filter f)" using assms(1) by (subst d(8)) (simp only: get_u64_put wf_handle_def)
  show ?thesis
    unfolding decodeFooter_def g u d(2-7) using assms
    by (simp only: get_u64_put get_u32_put wf_handle_def sst_crc_less magic_less) simp
qed
text \<open>A footer with one byte replaced is never accepted.\<close>

lemma list_update_cases:
  assumes "i < length xs"
  shows "take n (xs[i := b]) = (if i < n then (take n xs)[i := b] else take n xs)"
    "drop n (xs[i := b]) = (if i < n then drop n xs else (drop n xs)[i - n := b])"
  using assms by (auto simp: take_update_swap drop_update_swap list_update_beyond)

lemma le_dec_inj: "length a = length b \<Longrightarrow> le_dec a = le_dec b \<longleftrightarrow> a = b"
  by (metis le_enc_le_dec)

lemma damaged_footer:
  assumes "i < footerLen" "b \<noteq> footer_encode f ! i"
  shows "\<exists>e. decodeFooter ((footer_encode f)[i := b]) = Inl e"
proof -
  let ?F = "footer_encode f" and ?G = "(footer_encode f)[i := b]"
  have ne: "?G \<noteq> ?F" using assms by (metis length_footer_encode nth_list_update_eq)
  have F: "drop 40 ?F = put_u64 tableMagic" "take 4 (drop 36 ?F) = put_u32 (unat (crc_checksum (footer_head f)))"
    "take 36 ?F = footer_head f" by (simp_all add: footer_encode_def)
  consider "i < 36" | "36 \<le> i" "i < 40" | "40 \<le> i" by linarith
  then show ?thesis
  proof cases
    case 1
    have "crc_checksum (take 36 ?G) \<noteq> crc_checksum (take 36 ?F)"
      using 1 assms crc_update_single_byte [of i "take 36 ?F" b 0] by (simp add: crc_checksum_def list_update_cases)
    moreover have "get_u32 (drop 36 ?G) = unat (crc_checksum (take 36 ?F))"
      using 1 F sst_crc_less [of "footer_head f"] by (simp add: list_update_cases le_dec_le_enc)
    ultimately have "get_u32 (drop 36 ?G) \<noteq> unat (crc_checksum (take 36 ?G))" by (metis unsigned_word_eqI)
    then show ?thesis by (simp add: decodeFooter_def)
  next
    case 2
    have "take 4 (drop 36 ?G) \<noteq> take 4 (drop 36 ?F)"
    proof
      assume e: "take 4 (drop 36 ?G) = take 4 (drop 36 ?F)"
      have "drop 4 (drop 36 ?G) = drop 4 (drop 36 ?F)" using 2 by simp
      with e have "drop 36 ?G = drop 36 ?F" by (metis append_take_drop_id)
      moreover have "take 36 ?G = take 36 ?F" using 2 by simp
      ultimately show False using ne by (metis append_take_drop_id)
    qed
    then have "get_u32 (drop 36 ?G) \<noteq> unat (crc_checksum (take 36 ?G))"
      using 2 F sst_crc_less [of "footer_head f"] le_dec_inj [of "take 4 (drop 36 ?G)" "take 4 (drop 36 ?F)"]
      by (simp add: list_update_cases le_dec_le_enc)
    then show ?thesis by (simp add: decodeFooter_def)
  next
    case 3
    have "drop 40 ?G \<noteq> drop 40 ?F"
    proof
      assume "drop 40 ?G = drop 40 ?F"
      moreover have "take 40 ?G = take 40 ?F" using 3 by simp
      ultimately show False using ne by (metis append_take_drop_id)
    qed
    then have "get_u64 (drop 40 ?G) \<noteq> tableMagic"
      using F magic_less le_dec_inj [of "drop 40 ?G" "drop 40 ?F"] by (simp add: le_dec_le_enc)
    then show ?thesis by (simp add: decodeFooter_def)
  qed
qed

end
