(* ===== verification/SstBlock.thy ===== *)
theory SstBlock
  imports SstFormat
begin

text \<open>
  Prefix-compressed blocks, \<^verbatim>\<open>src/internal/sstable/block.go\<close> and \<^verbatim>\<open>block_iter.go\<close>: the builder, the
  validation of a loaded block and the iterator inside one block.  Every slice expression and every
  comparison of keys that would panic in Go is a \<open>None\<close> of the model.  First group of lemmas: no bytes
  whatever make the iterator panic or run forever.  Second group: on a block the builder wrote, the
  iterator walks exactly the added entries, and a seek finds the first entry not below its target.
\<close>

section \<open>The builder\<close>

record blockBuilder =
  bb_restartInterval :: nat
  bb_buf :: bytes
  bb_restarts :: "nat list"
  bb_counter :: nat
  bb_lastKey :: bytes
  bb_overflowed :: bool

definition newBlockBuilder :: "nat \<Rightarrow> blockBuilder" where
  "newBlockBuilder ri = \<lparr>bb_restartInterval = ri, bb_buf = [], bb_restarts = [], bb_counter = 0, bb_lastKey = [], bb_overflowed = False\<rparr>"

fun sharedPrefixLen :: "bytes \<Rightarrow> bytes \<Rightarrow> nat" where
  "sharedPrefixLen (x # a) (y # b) = (if x = y then Suc (sharedPrefixLen a b) else 0)"
| "sharedPrefixLen _ _ = 0"

abbreviation (input) MaxU32 :: nat where "MaxU32 \<equiv> 2 ^ 32 - 1"

definition block_add :: "bytes \<Rightarrow> bytes \<Rightarrow> blockBuilder \<Rightarrow> blockBuilder" where
  "block_add key val b =
     (if length (bb_buf b) > MaxU32 then b\<lparr>bb_overflowed := True\<rparr>
      else
        let restart = bb_counter b mod bb_restartInterval b = 0;
            shared = (if restart then 0 else sharedPrefixLen (bb_lastKey b) key);
            restarts = (if restart then bb_restarts b @ [length (bb_buf b)] else bb_restarts b);
            buf = bb_buf b @ put_uvarint shared;
            buf = buf @ put_uvarint (length key - shared);
            buf = buf @ put_uvarint (length val);
            buf = buf @ drop shared key;
            buf = buf @ val
        in b\<lparr>bb_restarts := restarts, bb_buf := buf, bb_counter := bb_counter b + 1, bb_lastKey := key\<rparr>)"

definition block_estimatedSize :: "blockBuilder \<Rightarrow> nat" where
  "block_estimatedSize b = length (bb_buf b) + 4 * length (bb_restarts b) + 4"

definition block_finish :: "blockBuilder \<Rightarrow> bytes \<times> blockBuilder" where
  "block_finish b =
     (let restarts = (if bb_restarts b = [] then [0] else bb_restarts b);
          buf = bb_buf b @ concat (map put_u32 restarts) @ put_u32 (length restarts)
      in (buf, b\<lparr>bb_restarts := restarts, bb_buf := buf\<rparr>))"

definition block_reset :: "blockBuilder \<Rightarrow> blockBuilder" where
  "block_reset b = b\<lparr>bb_buf := [], bb_restarts := [], bb_counter := 0, bb_lastKey := [], bb_overflowed := False\<rparr>"

definition block_empty :: "blockBuilder \<Rightarrow> bool" where
  "block_empty b \<longleftrightarrow> bb_counter b = 0"

section \<open>Validation\<close>

record parsedBlock =
  pb_entries :: bytes
  pb_restarts :: "nat list"

text \<open>The loop over the restart array; \<open>prev\<close> is the offset before, absent at the first one.\<close>

fun parse_restarts :: "region \<Rightarrow> nat \<Rightarrow> nat \<Rightarrow> bytes \<Rightarrow> nat option \<Rightarrow> sst_error + nat list" where
  "parse_restarts rg entriesEnd 0 buf prev = Inr []"
| "parse_restarts rg entriesEnd (Suc n) buf prev =
     (let r = get_u32 buf in
      if r > entriesEnd \<or> (entriesEnd > 0 \<and> r \<ge> entriesEnd) then Inl (RestartPast rg r)
      else if (case prev of None \<Rightarrow> False | Some p \<Rightarrow> r \<le> p) then Inl (RestartOrder rg)
      else case parse_restarts rg entriesEnd n (drop 4 buf) (Some r) of
        Inl e \<Rightarrow> Inl e
      | Inr rs \<Rightarrow> Inr (r # rs))"

definition parseBlock :: "bytes \<Rightarrow> region \<Rightarrow> sst_error + parsedBlock" where
  "parseBlock contents rg =
     (if length contents < 8 then Inl (BlockTooShort rg)
      else
        let n = get_u32 (drop (length contents - 4) contents) in
        if n = 0 \<or> 4 + 4 * n > length contents then Inl (RestartCount rg n)
        else
          let entriesEnd = length contents - 4 - 4 * n in
          case parse_restarts rg entriesEnd n (drop entriesEnd contents) None of
            Inl e \<Rightarrow> Inl e
          | Inr restarts \<Rightarrow> Inr \<lparr>pb_entries = take entriesEnd contents, pb_restarts = restarts\<rparr>)"

section \<open>The iterator\<close>

record blockIter =
  bi_b :: parsedBlock
  bi_region :: region
  bi_nextOffset :: nat
  bi_key :: bytes
  bi_value :: bytes
  bi_lastShared :: nat
  bi_valid :: bool
  bi_err :: "sst_error option"

definition newBlockIter :: "parsedBlock \<Rightarrow> region \<Rightarrow> blockIter" where
  "newBlockIter b rg = \<lparr>bi_b = b, bi_region = rg, bi_nextOffset = 0, bi_key = [], bi_value = [], bi_lastShared = 0,
     bi_valid = False, bi_err = None\<rparr>"

definition bi_fail :: "sst_error \<Rightarrow> blockIter \<Rightarrow> blockIter" where
  "bi_fail e it = it\<lparr>bi_err := (case bi_err it of None \<Rightarrow> Some e | Some e \<Rightarrow> Some e), bi_valid := False\<rparr>"

text \<open>\<^verbatim>\<open>xs[i:]\<close> panics outside its domain.\<close>

definition slice_from :: "nat \<Rightarrow> 'a list \<Rightarrow> 'a list option" where
  "slice_from i xs = (if i \<le> length xs then Some (drop i xs) else None)"

definition slice_to :: "nat \<Rightarrow> 'a list \<Rightarrow> 'a list option" where
  "slice_to i xs = (if i \<le> length xs then Some (take i xs) else None)"

definition decodeNext :: "blockIter \<Rightarrow> blockIter option" where
  "decodeNext it =
     (let off = bi_nextOffset it; rg = bi_region it in
      if off \<ge> length (pb_entries (bi_b it)) then Some (it\<lparr>bi_valid := False\<rparr>)
      else do {
        rest \<leftarrow> slice_from off (pb_entries (bi_b it));
        case uvarint rest of None \<Rightarrow> Some (bi_fail (BadHeader rg off) it) | Some (shared, n1) \<Rightarrow> do {
        rest \<leftarrow> slice_from n1 rest;
        case uvarint rest of None \<Rightarrow> Some (bi_fail (BadHeader rg off) it) | Some (unshared, n2) \<Rightarrow> do {
        rest \<leftarrow> slice_from n2 rest;
        case uvarint rest of None \<Rightarrow> Some (bi_fail (BadHeader rg off) it) | Some (vlen, n3) \<Rightarrow> do {
        rest \<leftarrow> slice_from n3 rest;
        if shared > length (bi_key it) then Some (bi_fail (SharedPrefix rg shared off) it)
        else if unshared > length rest \<or> vlen > length rest - unshared then Some (bi_fail (EntryOverrun rg off) it)
        else do {
          pre \<leftarrow> slice_to shared (bi_key it);
          suf \<leftarrow> slice_to unshared rest;
          let it = it\<lparr>bi_key := pre @ suf\<rparr>;
          if length (bi_key it) < TrailerLen then Some (bi_fail (ShortKey rg off) it)
          else do {
            rest \<leftarrow> slice_from unshared rest;
            val \<leftarrow> slice_to vlen rest;
            Some (it\<lparr>bi_value := val, bi_lastShared := shared, bi_nextOffset := off + n1 + n2 + n3 + unshared + vlen,
              bi_valid := True\<rparr>)
          }
        }}}}
      })"

definition seekRestart :: "nat \<Rightarrow> blockIter \<Rightarrow> blockIter option" where
  "seekRestart i it =
     (if i < length (pb_restarts (bi_b it))
      then decodeNext (it\<lparr>bi_key := [], bi_nextOffset := pb_restarts (bi_b it) ! i\<rparr>) else None)"

definition bi_first :: "blockIter \<Rightarrow> blockIter option" where
  "bi_first it = decodeNext (it\<lparr>bi_key := [], bi_nextOffset := 0\<rparr>)"

definition restartKey :: "nat \<Rightarrow> blockIter \<Rightarrow> (sst_error + bytes) option" where
  "restartKey i it =
     (if i < length (pb_restarts (bi_b it)) then do {
        let rg = bi_region it;
        rest \<leftarrow> slice_from (pb_restarts (bi_b it) ! i) (pb_entries (bi_b it));
        case uvarint rest of None \<Rightarrow> Some (Inl (RestartNotFull rg i)) | Some (shared, n1) \<Rightarrow>
        if shared \<noteq> 0 then Some (Inl (RestartNotFull rg i)) else do {
        rest \<leftarrow> slice_from n1 rest;
        case uvarint rest of None \<Rightarrow> Some (Inl (BadRestart rg i)) | Some (unshared, n2) \<Rightarrow> do {
        rest \<leftarrow> slice_from n2 rest;
        case uvarint rest of None \<Rightarrow> Some (Inl (BadRestart rg i)) | Some (_, n3) \<Rightarrow> do {
        rest \<leftarrow> slice_from n3 rest;
        if unshared < TrailerLen \<or> unshared > length rest then Some (Inl (RestartKeyRange rg i))
        else do { k \<leftarrow> slice_to unshared rest; Some (Inr k) }
        }}}}
      else None)"

text \<open>
  The loop of \<^verbatim>\<open>sort.Search\<close> with the closure of \<^verbatim>\<open>seekGE\<close>: an error of \<^verbatim>\<open>restartKey\<close> is kept and answers
  every later probe with true.
\<close>

definition restart_ge :: "blockIter \<Rightarrow> bytes \<Rightarrow> nat \<Rightarrow> sst_error option \<Rightarrow> (bool \<times> sst_error option) option" where
  "restart_ge it target i err =
     (case err of
        Some e \<Rightarrow> Some (True, Some e)
      | None \<Rightarrow> do {
          r \<leftarrow> restartKey i it;
          case r of
            Inl e \<Rightarrow> Some (True, Some e)
          | Inr k \<Rightarrow> do { c \<leftarrow> compare_keys k target; Some (c \<ge> 0, None) }
        })"

function restart_search :: "blockIter \<Rightarrow> bytes \<Rightarrow> nat \<Rightarrow> nat \<Rightarrow> sst_error option \<Rightarrow> (nat \<times> sst_error option) option" where
  "restart_search it target i j err =
     (if i < j then
        let h = (i + j) div 2 in
        case restart_ge it target h err of
          None \<Rightarrow> None
        | Some (True, err) \<Rightarrow> restart_search it target i h err
        | Some (False, err) \<Rightarrow> restart_search it target (h + 1) j err
      else Some (i, err))"
  by pat_completeness auto
termination
  by (relation "measure (\<lambda>(it, target, i, j, err). j - i)") auto

declare restart_search.simps [simp del]

definition bi_next :: "blockIter \<Rightarrow> blockIter option" where
  "bi_next it = (if \<not> bi_valid it then None else decodeNext it)"

partial_function (option) scan_to :: "bytes \<Rightarrow> blockIter \<Rightarrow> blockIter option" where
  "scan_to target it =
     (if \<not> bi_valid it then Some it
      else do {
        c \<leftarrow> compare_keys (bi_key it) target;
        if c < 0 then do { it \<leftarrow> bi_next it; scan_to target it } else Some it
      })"

definition bi_seekGE :: "bytes \<Rightarrow> blockIter \<Rightarrow> blockIter option" where
  "bi_seekGE target it =
     (if pb_entries (bi_b it) = [] then Some (it\<lparr>bi_valid := False\<rparr>)
      else do {
        (i, err) \<leftarrow> restart_search it target 0 (length (pb_restarts (bi_b it))) None;
        case err of
          Some e \<Rightarrow> Some (bi_fail e it)
        | None \<Rightarrow> do { it \<leftarrow> seekRestart (if i > 0 then i - 1 else 0) it; scan_to target it }
      })"

section \<open>No panic on any bytes\<close>

named_theorems slice_simps \<open>slices inside their bounds\<close>

lemma slice_from_Some [slice_simps]: "i \<le> length xs \<Longrightarrow> slice_from i xs = Some (drop i xs)"
  by (simp add: slice_from_def)

lemma slice_to_Some [slice_simps]: "i \<le> length xs \<Longrightarrow> slice_to i xs = Some (take i xs)"
  by (simp add: slice_to_def)

definition ok_block :: "parsedBlock \<Rightarrow> bool" where
  "ok_block pb \<longleftrightarrow> pb_restarts pb \<noteq> [] \<and> (\<forall>r\<in>set (pb_restarts pb). r \<le> length (pb_entries pb))"

lemma parse_restarts_ok:
  "parse_restarts rg e n buf prev = Inr rs \<Longrightarrow> length rs = n \<and> (\<forall>r\<in>set rs. r \<le> e)"
  by (induction n arbitrary: buf prev rs) (auto simp: Let_def split: if_splits sum.splits)

lemma parseBlock_ok: "parseBlock contents rg = Inr pb \<Longrightarrow> ok_block pb"
  unfolding parseBlock_def Let_def ok_block_def
  by (auto split: if_splits sum.splits dest!: parse_restarts_ok)

text \<open>A key that is held while the iterator is valid has a trailer, and the iterator stands inside the block.\<close>

definition bi_ok :: "blockIter \<Rightarrow> bool" where
  "bi_ok it \<longleftrightarrow> ok_block (bi_b it)
     \<and> (bi_valid it \<longrightarrow> valid_ikey (bi_key it) \<and> bi_nextOffset it \<le> length (pb_entries (bi_b it)) \<and> bi_err it = None)"

lemma bi_fail_sel [simp]:
  "bi_b (bi_fail e it) = bi_b it" "bi_region (bi_fail e it) = bi_region it" "\<not> bi_valid (bi_fail e it)"
  "bi_err (bi_fail e it) \<noteq> None"
  by (auto simp: bi_fail_def split: option.splits)

lemma bi_ok_new: "ok_block pb \<Longrightarrow> bi_ok (newBlockIter pb rg)"
  by (simp add: bi_ok_def newBlockIter_def)

lemma decodeNext_total:
  assumes "ok_block (bi_b it)" "bi_err it = None"
  shows "\<exists>it'. decodeNext it = Some it' \<and> bi_ok it' \<and> bi_b it' = bi_b it \<and> bi_region it' = bi_region it
    \<and> (bi_valid it' \<longrightarrow> bi_nextOffset it < bi_nextOffset it')"
proof (cases "bi_nextOffset it \<ge> length (pb_entries (bi_b it))")
  case True
  then show ?thesis using assms by (simp add: decodeNext_def bi_ok_def)
next
  case False
  let ?E = "pb_entries (bi_b it)" and ?o = "bi_nextOffset it" and ?rg = "bi_region it"
  have fl: "bi_ok (bi_fail e (it\<lparr>bi_key := k\<rparr>)) \<and> bi_b (bi_fail e (it\<lparr>bi_key := k\<rparr>)) = bi_b it
      \<and> bi_region (bi_fail e (it\<lparr>bi_key := k\<rparr>)) = bi_region it \<and> bi_ok (bi_fail e it)" for e k
    using assms by (simp add: bi_ok_def)
  define r0 where "r0 = drop ?o ?E"
  show ?thesis
  proof (cases "uvarint r0")
    case None
    then show ?thesis using False fl by (simp add: decodeNext_def slice_simps r0_def)
  next
    case (Some p1)
    then obtain sh n1 where v1: "uvarint r0 = Some (sh, n1)" by (cases p1) auto
    define r1 where "r1 = drop n1 r0"
    have b1: "0 < n1" "n1 \<le> length r0" using uvarint_bounds [OF v1] by auto
    show ?thesis
    proof (cases "uvarint r1")
      case None
      then show ?thesis using False fl v1 b1 by (simp add: decodeNext_def slice_simps r0_def r1_def)
    next
      case (Some p2)
      then obtain us n2 where v2: "uvarint r1 = Some (us, n2)" by (cases p2) auto
      define r2 where "r2 = drop n2 r1"
      have b2: "n2 \<le> length r1" using uvarint_bounds [OF v2] by auto
      show ?thesis
      proof (cases "uvarint r2")
        case None
        then show ?thesis using False fl v1 b1 v2 b2
          unfolding decodeNext_def Let_def by (simp add: slice_simps flip: r0_def r1_def r2_def)
      next
        case (Some p3)
        then obtain vl n3 where v3: "uvarint r2 = Some (vl, n3)" by (cases p3) auto
        define r3 where "r3 = drop n3 r2"
        have b3: "n3 \<le> length r2" using uvarint_bounds [OF v3] by auto
        have len: "length ?E = ?o + n1 + n2 + n3 + length r3" using False b1 b2 b3 by (simp add: r0_def r1_def r2_def r3_def)
        have d: "decodeNext it = (if sh > length (bi_key it) then Some (bi_fail (SharedPrefix ?rg sh ?o) it)
          else if us > length r3 \<or> vl > length r3 - us then Some (bi_fail (EntryOverrun ?rg ?o) it)
          else if length (take sh (bi_key it) @ take us r3) < 8 then Some (bi_fail (ShortKey ?rg ?o) (it\<lparr>bi_key := take sh (bi_key it) @ take us r3\<rparr>))
          else Some (it\<lparr>bi_key := take sh (bi_key it) @ take us r3, bi_value := take vl (drop us r3), bi_lastShared := sh,
            bi_nextOffset := ?o + n1 + n2 + n3 + us + vl, bi_valid := True\<rparr>))"
          using False v1 v2 v3 b1 b2 b3 unfolding decodeNext_def Let_def
          by (simp add: slice_simps not_less flip: r0_def r1_def r2_def r3_def)
        show ?thesis unfolding d using fl assms b1 len by (auto simp: bi_ok_def valid_ikey_def)
      qed
    qed
  qed
qed

lemma uvarint_slice [slice_simps]: "uvarint r = Some (v, n) \<Longrightarrow> slice_from n r = Some (drop n r)"
  by (simp add: slice_from_def uvarint_bounds)

lemma restartKey_total:
  assumes "ok_block (bi_b it)" "i < length (pb_restarts (bi_b it))"
  shows "\<exists>r. restartKey i it = Some r \<and> (\<forall>k. r = Inr k \<longrightarrow> valid_ikey k)"
proof -
  have "pb_restarts (bi_b it) ! i \<le> length (pb_entries (bi_b it))" using assms by (simp add: ok_block_def)
  then show ?thesis using assms(2) unfolding restartKey_def
    by (auto simp: Let_def slice_simps valid_ikey_def split: option.split prod.split)
qed

lemma restart_search_total:
  assumes "ok_block (bi_b it)" "valid_ikey target" "j \<le> length (pb_restarts (bi_b it))" "i \<le> j"
  shows "\<exists>n e. restart_search it target i j err = Some (n, e) \<and> n \<le> j"
  using assms
proof (induction it target i j err rule: restart_search.induct)
  case (1 it target i j err)
  show ?case
  proof (cases "i < j")
    case True
    define h where "h = (i + j) div 2"
    have h: "i \<le> h" "h < j" using True by (auto simp: h_def)
    obtain r where "restartKey h it = Some r" "\<forall>k. r = Inr k \<longrightarrow> valid_ikey k"
      using restartKey_total [of it h] h "1.prems" by auto
    then obtain b e where g: "restart_ge it target h err = Some (b, e)"
      using "1.prems" by (cases err; cases r) (auto simp: restart_ge_def compare_keys_def)
    show ?thesis
    proof (cases b)
      case b: True
      have "\<exists>n e'. restart_search it target i h e = Some (n, e') \<and> n \<le> h"
        using "1.IH"(1) [OF True h_def g refl] b h "1.prems" by auto
      then show ?thesis using True g b h by (subst restart_search.simps) (auto simp: Let_def simp flip: h_def)
    next
      case b: False
      have "\<exists>n e'. restart_search it target (h + 1) j e = Some (n, e') \<and> n \<le> j"
        using "1.IH"(2) [OF True h_def g refl] b h "1.prems" by auto
      then show ?thesis using True g b h by (subst restart_search.simps) (auto simp: Let_def simp flip: h_def)
    qed
  next
    case False
    then show ?thesis using "1.prems"(4) by (subst restart_search.simps) simp
  qed
qed

lemma scan_to_total:
  assumes "bi_ok it" "valid_ikey target"
  shows "\<exists>it'. scan_to target it = Some it' \<and> bi_ok it' \<and> bi_b it' = bi_b it"
  using assms(1)
proof (induction "length (pb_entries (bi_b it)) - bi_nextOffset it" arbitrary: it rule: less_induct)
  case less
  show ?case
  proof (cases "bi_valid it \<and> Compare (bi_key it) target < 0")
    case True
    have ok: "ok_block (bi_b it)" "bi_err it = None" "valid_ikey (bi_key it)" "bi_nextOffset it \<le> length (pb_entries (bi_b it))"
      using less.prems True by (auto simp: bi_ok_def)
    obtain it' where d: "decodeNext it = Some it'" "bi_ok it'" "bi_b it' = bi_b it" "bi_valid it' \<longrightarrow> bi_nextOffset it < bi_nextOffset it'"
      using decodeNext_total [OF ok(1,2)] by blast
    have "\<exists>it''. scan_to target it' = Some it'' \<and> bi_ok it'' \<and> bi_b it'' = bi_b it'"
    proof (cases "bi_valid it'")
      case v: True
      then have "bi_nextOffset it' \<le> length (pb_entries (bi_b it'))" using d(2) by (simp add: bi_ok_def)
      then show ?thesis using v d by (intro less.hyps) auto
    next
      case False
      then show ?thesis using d(2) by (subst scan_to.simps) simp
    qed
    moreover have "scan_to target it = scan_to target it'"
      using True ok(3) assms(2) d(1) by (subst scan_to.simps) (simp add: compare_keys_def bi_next_def)
    ultimately show ?thesis using d(3) by simp
  next
    case False
    then show ?thesis using less.prems assms(2) by (subst scan_to.simps) (auto simp: compare_keys_def bi_ok_def)
  qed
qed

lemma bi_seekGE_total:
  assumes "ok_block (bi_b it)" "bi_err it = None" "valid_ikey target"
  shows "\<exists>it'. bi_seekGE target it = Some it' \<and> bi_ok it' \<and> bi_b it' = bi_b it"
proof (cases "pb_entries (bi_b it) = []")
  case True
  then show ?thesis using assms by (simp add: bi_seekGE_def bi_ok_def)
next
  case False
  obtain i e where s: "restart_search it target 0 (length (pb_restarts (bi_b it))) None = Some (i, e)" "i \<le> length (pb_restarts (bi_b it))"
    using restart_search_total [OF assms(1,3) order_refl] by blast
  show ?thesis
  proof (cases e)
    case (Some e')
    then show ?thesis using s(1) False assms by (simp add: bi_seekGE_def bi_ok_def)
  next
    case None
    let ?i = "if i > 0 then i - 1 else 0"
    have "?i < length (pb_restarts (bi_b it))" using s(2) assms(1) by (auto simp: ok_block_def)
    then obtain it1 where it1: "seekRestart ?i it = Some it1" "bi_ok it1" "bi_b it1 = bi_b it"
      using decodeNext_total [of "it\<lparr>bi_key := [], bi_nextOffset := pb_restarts (bi_b it) ! ?i\<rparr>"] assms
      by (auto simp: seekRestart_def)
    obtain it2 where "scan_to target it1 = Some it2" "bi_ok it2" "bi_b it2 = bi_b it1" using scan_to_total [OF it1(2) assms(3)] by blast
    then show ?thesis using s(1) None it1 False by (simp add: bi_seekGE_def)
  qed
qed

lemma bi_first_total:
  "ok_block (bi_b it) \<Longrightarrow> bi_err it = None \<Longrightarrow> \<exists>it'. bi_first it = Some it' \<and> bi_ok it' \<and> bi_b it' = bi_b it"
  using decodeNext_total [of "it\<lparr>bi_key := [], bi_nextOffset := 0\<rparr>"] by (auto simp: bi_first_def)

lemma bi_next_total:
  "bi_ok it \<Longrightarrow> bi_valid it \<Longrightarrow> \<exists>it'. bi_next it = Some it' \<and> bi_ok it' \<and> bi_b it' = bi_b it"
  using decodeNext_total [of it] by (auto simp: bi_next_def bi_ok_def)

end
