(* ===== verification/SstBlockCodec.thy ===== *)
theory SstBlockCodec
  imports SstBlock
begin

text \<open>
  The block format round trip: what the builder of \<^verbatim>\<open>src/internal/sstable/block.go\<close> writes is accepted by
  the validation, walked by the block iterator entry by entry, and searched correctly.
\<close>

section \<open>What the builder writes\<close>

definition entry_bytes :: "nat \<Rightarrow> bytes \<Rightarrow> bytes \<Rightarrow> bytes" where
  "entry_bytes shared k v = put_uvarint shared @ put_uvarint (length k - shared) @ put_uvarint (length v) @ drop shared k @ v"

definition last_key :: "bytes \<Rightarrow> entry list \<Rightarrow> bytes" where
  "last_key prev es = (if es = [] then prev else fst (last es))"

fun pieces :: "nat \<Rightarrow> nat \<Rightarrow> bytes \<Rightarrow> entry list \<Rightarrow> bytes list" where
  "pieces ri i prev [] = []"
| "pieces ri i prev ((k, v) # es) =
     entry_bytes (if i mod ri = 0 then 0 else sharedPrefixLen prev k) k v # pieces ri (Suc i) k es"

definition blk_off :: "nat \<Rightarrow> entry list \<Rightarrow> nat \<Rightarrow> nat" where
  "blk_off ri es j = length (concat (take j (pieces ri 0 [] es)))"

definition blk_restarts :: "nat \<Rightarrow> entry list \<Rightarrow> nat list" where
  "blk_restarts ri es = map (\<lambda>i. blk_off ri es (i * ri)) [0..<(length es + ri - 1) div ri]"

definition blk :: "nat \<Rightarrow> entry list \<Rightarrow> parsedBlock" where
  "blk ri es = \<lparr>pb_entries = concat (pieces ri 0 [] es), pb_restarts = (if es = [] then [0] else blk_restarts ri es)\<rparr>"

definition blk_bytes :: "nat \<Rightarrow> entry list \<Rightarrow> bytes" where
  "blk_bytes ri es = pb_entries (blk ri es) @ concat (map put_u32 (pb_restarts (blk ri es))) @ put_u32 (length (pb_restarts (blk ri es)))"

definition built :: "nat \<Rightarrow> entry list \<Rightarrow> blockBuilder \<Rightarrow> bool" where
  "built ri es b \<longleftrightarrow> bb_restartInterval b = ri \<and> bb_buf b = concat (pieces ri 0 [] es) \<and> bb_restarts b = blk_restarts ri es
     \<and> bb_counter b = length es \<and> bb_lastKey b = last_key [] es \<and> \<not> bb_overflowed b"

lemma length_pieces [simp]: "length (pieces ri i prev es) = length es"
  by (induction es arbitrary: i prev) auto

lemma last_key_simps [simp]: "last_key prev [] = prev" "last_key prev (es @ [e]) = fst e" "last_key prev (e # es) = last_key (fst e) es"
  by (auto simp: last_key_def)

lemma pieces_append: "pieces ri i prev (xs @ ys) = pieces ri i prev xs @ pieces ri (i + length xs) (last_key prev xs) ys"
  by (induction xs arbitrary: i prev) auto

lemma blk_off_append: "j \<le> length es \<Longrightarrow> blk_off ri (es @ fs) j = blk_off ri es j"
  by (simp add: blk_off_def pieces_append)

lemma blk_off_all: "blk_off ri es (length es) = length (concat (pieces ri 0 [] es))"
  by (simp add: blk_off_def)

lemma ceil_div_Suc:
  assumes "0 < ri"
  shows "(Suc n + ri - 1) div ri = (if n mod ri = 0 then Suc ((n + ri - 1) div ri) else (n + ri - 1) div ri)"
    "n mod ri = 0 \<Longrightarrow> (n + ri - 1) div ri * ri = n" "n mod ri = 0 \<Longrightarrow> (n + ri - 1) div ri = n div ri"
    "i < (n + ri - 1) div ri \<Longrightarrow> i * ri < n"
proof -
  let ?q = "n div ri" and ?r = "n mod ri"
  have n: "n = ?q * ri + ?r" "?r < ri" using assms by auto
  have a: "(n + ri) div ri = Suc ?q" using assms by (simp add: div_add_self2)
  have dv: "(q * ri + r) div ri = q" if "r < ri" for q r using that by simp
  have b: "(n + ri - 1) div ri = (if ?r = 0 then ?q else Suc ?q)"
  proof (cases "?r = 0")
    case True
    then have "n + ri - 1 = ?q * ri + (ri - 1)" using n assms by linarith
    then show ?thesis using True assms dv [of "ri - 1" ?q] by (simp only: if_True) simp
  next
    case False
    then have "n + ri - 1 = Suc ?q * ri + (?r - 1)" using n(1) unfolding mult_Suc by linarith
    moreover have "?r - 1 < ri" using n(2) by simp
    ultimately show ?thesis using False dv [of "?r - 1" "Suc ?q"] by (simp only: if_False)
  qed
  show "(Suc n + ri - 1) div ri = (if n mod ri = 0 then Suc ((n + ri - 1) div ri) else (n + ri - 1) div ri)" using a b by simp
  show "n mod ri = 0 \<Longrightarrow> (n + ri - 1) div ri * ri = n" "n mod ri = 0 \<Longrightarrow> (n + ri - 1) div ri = n div ri" using b n(1) by simp_all
  show "i * ri < n" if "i < (n + ri - 1) div ri"
  proof (cases "?r = 0")
    case True
    then show ?thesis using that b n assms by (metis add.right_neutral mult_less_mono1)
  next
    case False
    then have "i \<le> ?q" using that b by simp
    then have "i * ri \<le> ?q * ri" by simp
    then show ?thesis using False n by linarith
  qed
qed

lemma blk_restarts_snoc:
  assumes "0 < ri"
  shows "blk_restarts ri (es @ [e]) = (if length es mod ri = 0 then blk_restarts ri es @ [blk_off ri es (length es)] else blk_restarts ri es)"
proof -
  let ?m = "(length es + ri - 1) div ri"
  have o: "map (\<lambda>i. blk_off ri (es @ [e]) (i * ri)) [0..<?m] = map (\<lambda>i. blk_off ri es (i * ri)) [0..<?m]"
    using ceil_div_Suc(4) [OF assms] by (auto intro!: blk_off_append less_imp_le)
  have l: "(length (es @ [e]) + ri - 1) div ri = (if length es mod ri = 0 then Suc ?m else ?m)"
    using ceil_div_Suc(1) [OF assms] by simp
  show ?thesis
  proof (cases "length es mod ri = 0")
    case True
    then have "?m * ri = length es" using ceil_div_Suc(2) [OF assms] by simp
    then show ?thesis unfolding blk_restarts_def l using True o by (simp add: blk_off_append)
  next
    case False
    then show ?thesis unfolding blk_restarts_def l using o by simp
  qed
qed

lemma built_new: "0 < ri \<Longrightarrow> built ri [] (newBlockBuilder ri)"
  by (simp add: built_def newBlockBuilder_def blk_restarts_def)

lemma built_reset: "built ri es b \<Longrightarrow> 0 < ri \<Longrightarrow> built ri [] (block_reset b)"
  by (simp add: built_def block_reset_def blk_restarts_def)

lemma built_add:
  assumes "built ri es b" "0 < ri" "length (bb_buf b) \<le> MaxU32"
  shows "built ri (es @ [(k, v)]) (block_add k v b)"
  using assms unfolding built_def block_add_def
  by (simp add: Let_def pieces_append blk_restarts_snoc entry_bytes_def blk_off_all)

lemma blk_restarts_Nil: "0 < ri \<Longrightarrow> blk_restarts ri es = [] \<longleftrightarrow> es = []"
proof -
  assume "0 < ri"
  then have "0 < (length es + ri - 1) div ri \<longleftrightarrow> es \<noteq> []" by (cases es) (auto simp: div_greater_zero_iff)
  then show ?thesis unfolding blk_restarts_def by (metis Nil_is_map_conv less_irrefl list.size(3) length_upt map_eq_conv upt_eq_Nil_conv minus_nat.diff_0 gr_zeroI zero_le)
qed

lemma built_finish: "built ri es b \<Longrightarrow> 0 < ri \<Longrightarrow> fst (block_finish b) = blk_bytes ri es"
  by (simp add: built_def block_finish_def blk_bytes_def blk_def Let_def blk_restarts_Nil)

lemma built_empty: "built ri es b \<Longrightarrow> block_empty b \<longleftrightarrow> es = []"
  by (simp add: built_def block_empty_def)

section \<open>Validation accepts it\<close>

text \<open>Keys carry a trailer and the whole block stays within the 32-bit offsets.\<close>

definition good_blk :: "nat \<Rightarrow> entry list \<Rightarrow> bool" where
  "good_blk ri es \<longleftrightarrow> 0 < ri \<and> (\<forall>e\<in>set es. valid_ikey (fst e)) \<and> length (blk_bytes ri es) < 2 ^ 32"

lemma parse_restarts_put:
  assumes "sorted_wrt (<) rs" "\<forall>r\<in>set rs. r \<le> en \<and> (0 < en \<longrightarrow> r < en) \<and> r < 2 ^ 32" "\<forall>p r. prev = Some p \<longrightarrow> r \<in> set rs \<longrightarrow> p < r"
  shows "parse_restarts rg en (length rs) (concat (map put_u32 rs) @ sf) prev = Inr rs"
  using assms
proof (induction rs arbitrary: prev)
  case (Cons r rs)
  have g: "get_u32 (concat (map put_u32 (r # rs)) @ sf) = r" using Cons.prems(2) get_u32_put [of r "concat (map put_u32 rs) @ sf"] by simp
  have d: "drop 4 (concat (map put_u32 (r # rs)) @ sf) = concat (map put_u32 rs) @ sf" by simp
  have ih: "parse_restarts rg en (length rs) (concat (map put_u32 rs) @ sf) (Some r) = Inr rs" using Cons by simp
  show ?case unfolding list.size(4) One_nat_def add_Suc_right add_0_right parse_restarts.simps Let_def g d ih
    using Cons.prems(2,3) by (auto split: option.split)
qed simp

lemma pieces_pos: "p \<in> set (pieces ri i prev es) \<Longrightarrow> p \<noteq> []"
  by (induction es arbitrary: i prev) (auto simp: entry_bytes_def split: if_splits)

lemma concat_take_less:
  assumes "\<forall>p\<in>set ps. p \<noteq> []" "i < j" "j \<le> length ps"
  shows "length (concat (take i ps)) < length (concat (take j ps))"
proof -
  have "take j ps = take i ps @ take (j - i) (drop i ps)" using assms(2) by (metis less_imp_le le_add_diff_inverse take_add)
  moreover have "take (j - i) (drop i ps) \<noteq> []" using assms(2,3) by simp
  moreover have "\<forall>p\<in>set (take (j - i) (drop i ps)). p \<noteq> []" using assms(1) by (meson in_set_dropD in_set_takeD)
  ultimately show ?thesis by (cases "take (j - i) (drop i ps)") auto
qed

lemma blk_off_less: "i < j \<Longrightarrow> j \<le> length es \<Longrightarrow> blk_off ri es i < blk_off ri es j"
  unfolding blk_off_def using concat_take_less [of "pieces ri 0 [] es" i j] pieces_pos by (metis length_pieces)

lemma blk_restarts_sorted: "0 < ri \<Longrightarrow> sorted_wrt (<) (blk_restarts ri es) \<and> (\<forall>r\<in>set (blk_restarts ri es). r < blk_off ri es (length es))"
  unfolding blk_restarts_def sorted_wrt_map
  by (auto simp: ceil_div_Suc(4) intro!: blk_off_less sorted_wrt_mono_rel [OF _ sorted_wrt_upt] dest: ceil_div_Suc(4) less_imp_le)

lemma length_concat_put_u32: "length (concat (map put_u32 rs)) = 4 * length rs"
  by (induction rs) auto

lemma parseBlock_bytes:
  assumes "good_blk ri es"
  shows "parseBlock (blk_bytes ri es) rg = Inr (blk ri es)"
proof -
  let ?E = "pb_entries (blk ri es)" and ?R = "pb_restarts (blk ri es)" and ?B = "blk_bytes ri es"
  have ri: "0 < ri" and lt: "length ?B < 2 ^ 32" using assms by (auto simp: good_blk_def)
  have len: "length ?B = length ?E + 4 * length ?R + 4" by (simp add: blk_bytes_def length_concat_put_u32)
  have E: "length ?E = blk_off ri es (length es)" by (simp add: blk_def blk_off_all)
  have R: "?R \<noteq> []" using ri by (simp add: blk_def blk_restarts_Nil)
  have so: "sorted_wrt (<) ?R" "\<forall>r\<in>set ?R. r \<le> length ?E \<and> (0 < length ?E \<longrightarrow> r < length ?E) \<and> r < 2 ^ 32"
    using blk_restarts_sorted [OF ri, of es] lt len E by (auto simp: blk_def)
  have n: "get_u32 (drop (length ?B - 4) ?B) = length ?R"
  proof -
    have "drop (length ?B - 4) ?B = put_u32 (length ?R)" by (simp add: blk_bytes_def)
    moreover have "length ?R < 2 ^ 32" using lt len by linarith
    ultimately show ?thesis using get_u32_put [of "length ?R" "[]"] by simp
  qed
  have e: "length ?B - 4 - 4 * length ?R = length ?E" using len by simp
  have "drop (length ?E) ?B = concat (map put_u32 ?R) @ put_u32 (length ?R)" "take (length ?E) ?B = ?E" by (simp_all add: blk_bytes_def)
  moreover have "8 \<le> length ?B" using R len by (cases ?R) auto
  ultimately show ?thesis unfolding parseBlock_def Let_def n e using parse_restarts_put [OF so, of None rg] R len by simp
qed

section \<open>The iterator walks the entries\<close>

lemma sharedPrefixLen_le: "sharedPrefixLen a b \<le> length a \<and> sharedPrefixLen a b \<le> length b \<and> take (sharedPrefixLen a b) a = take (sharedPrefixLen a b) b"
  by (induction a b rule: sharedPrefixLen.induct) auto

lemma decode_block_entry:
  assumes "pb_entries (bi_b it) = A @ entry_bytes sh k v @ B" "bi_nextOffset it = length A" "sh \<le> length (bi_key it)" "sh \<le> length k"
    "take sh (bi_key it) = take sh k" "valid_ikey k" "length k < 2 ^ 64" "length v < 2 ^ 64"
  shows "decodeNext it = Some (it\<lparr>bi_key := k, bi_value := v, bi_lastShared := sh,
    bi_nextOffset := length A + length (entry_bytes sh k v), bi_valid := True\<rparr>)"
proof -
  let ?s1 = "put_uvarint sh" and ?s2 = "put_uvarint (length k - sh)" and ?s3 = "put_uvarint (length v)"
  have e: "entry_bytes sh k v = ?s1 @ ?s2 @ ?s3 @ drop sh k @ v" by (simp add: entry_bytes_def)
  have lt: "\<not> length A \<ge> length (A @ (?s1 @ ?s2 @ ?s3 @ drop sh k @ v) @ B)" by simp
  have sh: "sh < 2 ^ 64" "length k - sh < 2 ^ 64" using assms(4,7) by simp_all
  note uv = uvarint_put [OF sh(1)] uvarint_put [OF sh(2)] uvarint_put [OF assms(8)]
  have k: "take sh (bi_key it) @ drop sh k = k" using assms(5) by simp
  show ?thesis
    unfolding decodeNext_def Let_def assms(1,2) e using lt uv assms(3,6) k
    by (simp add: slice_simps valid_ikey_def)
qed

definition bi_over :: "nat \<Rightarrow> entry list \<Rightarrow> blockIter \<Rightarrow> entry list \<Rightarrow> bool" where
  "bi_over ri es it rest \<longleftrightarrow> bi_b it = blk ri es \<and> bi_err it = None \<and> suffix rest es
     \<and> (case rest of [] \<Rightarrow> \<not> bi_valid it
        | e # post \<Rightarrow> bi_valid it \<and> bi_key it = fst e \<and> bi_value it = snd e \<and> bi_nextOffset it = blk_off ri es (length es - length post)
            \<and> (ri = 1 \<longrightarrow> bi_lastShared it = 0))"

lemma last_key_le: "length (last_key prev es) \<le> length prev + length (concat (pieces ri i prev es))"
proof (induction es arbitrary: i prev)
  case (Cons e es)
  obtain k v where e: "e = (k, v)" by (cases e)
  let ?sh = "if i mod ri = 0 then 0 else sharedPrefixLen prev k"
  have "length k \<le> length prev + length (entry_bytes ?sh k v)" using sharedPrefixLen_le [of prev k] by (auto simp: entry_bytes_def)
  then show ?case using Cons [of k "Suc i"] by (simp add: e)
qed simp

lemma entry_sizes:
  assumes "good_blk ri es" "es = pre @ (k, v) # post"
  shows "length k < 2 ^ 64 \<and> length v < 2 ^ 64 \<and> valid_ikey k"
proof -
  let ?sh = "if length pre mod ri = 0 then 0 else sharedPrefixLen (last_key [] pre) k"
  have "concat (pieces ri 0 [] (pre @ [(k, v)])) @ concat (pieces ri (Suc (length pre)) k post) = pb_entries (blk ri es)"
    by (simp add: blk_def assms(2) pieces_append)
  then have "length (concat (pieces ri 0 [] (pre @ [(k, v)]))) \<le> length (pb_entries (blk ri es))" by (metis length_append le_add1)
  moreover have "length (pb_entries (blk ri es)) < 2 ^ 32" using assms(1) by (simp add: good_blk_def blk_bytes_def)
  moreover have "length k \<le> length (concat (pieces ri 0 [] (pre @ [(k, v)])))" using last_key_le [of "[]" "pre @ [(k, v)]" ri 0] by simp
  moreover have "length v \<le> length (concat (pieces ri 0 [] (pre @ [(k, v)])))" by (simp add: pieces_append entry_bytes_def)
  ultimately have "length k < 2 ^ 32" "length v < 2 ^ 32" by linarith+
  then have "length k < 2 ^ 64" "length v < 2 ^ 64" by simp_all
  then show ?thesis using assms by (simp add: good_blk_def)
qed

lemma decode_at:
  assumes "good_blk ri es" "es = pre @ e # post" "bi_b it = blk ri es" "bi_err it = None" "bi_nextOffset it = blk_off ri es (length pre)"
    "bi_key it = last_key [] pre \<or> length pre mod ri = 0"
  shows "\<exists>it'. decodeNext it = Some it' \<and> bi_over ri es it' (e # post)"
proof -
  obtain k v where e: "e = (k, v)" by (cases e)
  let ?A = "concat (pieces ri 0 [] pre)" and ?sh = "if length pre mod ri = 0 then 0 else sharedPrefixLen (last_key [] pre) k"
  have E: "pb_entries (bi_b it) = ?A @ entry_bytes ?sh k v @ concat (pieces ri (Suc (length pre)) k post)"
    by (simp add: assms(3) blk_def assms(2) e pieces_append)
  have o: "bi_nextOffset it = length ?A" using assms(2,5) by (simp add: blk_off_def pieces_append)
  have sh: "?sh \<le> length (bi_key it)" "?sh \<le> length k" "take ?sh (bi_key it) = take ?sh k"
    using assms(6) sharedPrefixLen_le [of "last_key [] pre" k] by auto
  note sz = entry_sizes [OF assms(1) assms(2) [unfolded e]]
  have d: "decodeNext it = Some (it\<lparr>bi_key := k, bi_value := v, bi_lastShared := ?sh,
    bi_nextOffset := length ?A + length (entry_bytes ?sh k v), bi_valid := True\<rparr>)"
    using decode_block_entry [OF E o sh] sz by blast
  have "blk_off ri es (length es - length post) = length ?A + length (entry_bytes ?sh k v)"
    by (simp add: blk_off_def assms(2) e pieces_append)
  then show ?thesis unfolding d using assms(2,3,4) by (simp add: bi_over_def suffix_def e)
qed

lemma decode_end:
  assumes "bi_b it = blk ri es" "bi_err it = None" "bi_nextOffset it = blk_off ri es (length es)"
  shows "\<exists>it'. decodeNext it = Some it' \<and> bi_over ri es it' []"
  using assms by (simp add: decodeNext_def blk_def blk_off_all bi_over_def)

lemma decode_rest:
  assumes "good_blk ri es" "es = pre @ rest" "bi_b it = blk ri es" "bi_err it = None" "bi_nextOffset it = blk_off ri es (length pre)"
    "bi_key it = last_key [] pre \<or> length pre mod ri = 0"
  shows "\<exists>it'. decodeNext it = Some it' \<and> bi_over ri es it' rest"
proof (cases rest)
  case Nil
  then show ?thesis using decode_end [OF assms(3,4)] assms(2,5) by simp
next
  case (Cons e post)
  then show ?thesis using decode_at [OF assms(1) _ assms(3-6)] assms(2) by simp
qed

lemma bi_over_new: "bi_over ri es (newBlockIter (blk ri es) rg) []"
  by (simp add: bi_over_def newBlockIter_def)

lemma bi_first_over:
  assumes "good_blk ri es" "bi_over ri es it rest"
  shows "\<exists>it'. bi_first it = Some it' \<and> bi_over ri es it' es"
  unfolding bi_first_def using assms by (intro decode_rest [OF assms(1), of "[]"]) (auto simp: bi_over_def blk_off_def)

lemma bi_next_over:
  assumes "good_blk ri es" "bi_over ri es it (e # rest)"
  shows "\<exists>it'. bi_next it = Some it' \<and> bi_over ri es it' rest"
proof -
  obtain pre where pre: "es = pre @ e # rest" using assms(2) by (auto simp: bi_over_def suffix_def)
  then have "length es - length rest = length (pre @ [e])" by simp
  then have "\<exists>it'. decodeNext it = Some it' \<and> bi_over ri es it' rest"
    using assms(2) pre by (intro decode_rest [OF assms(1), of "pre @ [e]"]) (simp_all add: bi_over_def)
  then show ?thesis using assms(2) by (simp add: bi_next_def bi_over_def)
qed

section \<open>Seeking\<close>

lemma restart_nth:
  assumes "0 < ri" "i < length (blk_restarts ri es)"
  shows "blk_restarts ri es ! i = blk_off ri es (i * ri) \<and> i * ri < length es"
  using assms ceil_div_Suc(4) [OF assms(1)] by (simp add: blk_restarts_def)

lemma restartKey_blk:
  assumes "good_blk ri es" "bi_b it = blk ri es" "es \<noteq> []" "i < length (blk_restarts ri es)"
  shows "restartKey i it = Some (Inr (fst (es ! (i * ri))))"
proof -
  have ri: "0 < ri" using assms(1) by (simp add: good_blk_def)
  note n = restart_nth [OF ri assms(4)]
  obtain k v where kv: "es ! (i * ri) = (k, v)" by fastforce
  let ?pre = "take (i * ri) es" and ?post = "drop (Suc (i * ri)) es"
  have es: "es = ?pre @ (k, v) # ?post" using n kv by (metis id_take_nth_drop)
  let ?A = "concat (pieces ri 0 [] ?pre)"
  have m: "length ?pre mod ri = 0" using n by simp
  have "pieces ri 0 [] es = pieces ri 0 [] (?pre @ (k, v) # ?post)" using es by simp
  also have "\<dots> = pieces ri 0 [] ?pre @ entry_bytes 0 k v # pieces ri (Suc (length ?pre)) k ?post" using m by (simp add: pieces_append)
  finally have p: "pieces ri 0 [] es = pieces ri 0 [] ?pre @ entry_bytes 0 k v # pieces ri (Suc (length ?pre)) k ?post" .
  then have E: "pb_entries (blk ri es) = ?A @ put_uvarint 0 @ put_uvarint (length k) @ put_uvarint (length v) @ k @ v @ concat (pieces ri (Suc (length ?pre)) k ?post)"
    by (simp add: blk_def entry_bytes_def)
  have o: "blk_off ri es (i * ri) = length ?A" using n unfolding blk_off_def p by simp
  have sz: "length k < 2 ^ 64" "length v < 2 ^ 64" "8 \<le> length k" using entry_sizes [OF assms(1) es] by (auto simp: valid_ikey_def)
  have r: "pb_restarts (blk ri es) = blk_restarts ri es" using assms(3) by (simp add: blk_def)
  note uv = uvarint_put [of 0, simplified] uvarint_put [OF sz(1)] uvarint_put [OF sz(2)]
  show ?thesis unfolding restartKey_def Let_def assms(2) r E kv using n assms(4) o uv sz(3)
    by (simp add: slice_simps)
qed

lemma key_sorted_nth: "key_sorted es \<Longrightarrow> i < j \<Longrightarrow> j < length es \<Longrightarrow> ikey_rank (fst (es ! i)) < ikey_rank (fst (es ! j))"
  unfolding key_sorted_def by (rule sorted_wrt_nth_less)

lemma restart_search_blk:
  assumes "good_blk ri es" "bi_b it = blk ri es" "es \<noteq> []" "valid_ikey target" "j \<le> length (blk_restarts ri es)"
  shows "restart_search it target i j None = Some (search_loop (\<lambda>i. \<not> ltk target (es ! (i * ri))) i j, None)"
  using assms(5)
proof (induction "\<lambda>i. \<not> ltk target (es ! (i * ri))" i j rule: search_loop.induct)
  case (1 i j)
  let ?f = "\<lambda>i. \<not> ltk target (es ! (i * ri))"
  show ?case
  proof (cases "i < j")
    case True
    define h where "h = (i + j) div 2"
    have h: "h < length (blk_restarts ri es)" using True "1.prems" by (simp add: h_def)
    have "h * ri < length es" using restart_nth [OF _ h] assms(1) by (simp add: good_blk_def)
    then have vk: "valid_ikey (fst (es ! (h * ri)))" using assms(1) by (simp add: good_blk_def)
    have g: "restart_ge it target h None = Some (?f h, None)"
      using restartKey_blk [OF assms(1-3) h] vk assms(4) by (simp add: restart_ge_def compare_keys_def not_less)
    have ih: "?f h \<Longrightarrow> restart_search it target i h None = Some (search_loop ?f i h, None)"
      "\<not> ?f h \<Longrightarrow> restart_search it target (h + 1) j None = Some (search_loop ?f (h + 1) j, None)"
      using "1.hyps" [OF True h_def] "1.prems" h True by (simp_all add: h_def)
    show ?thesis using True g ih by (subst restart_search.simps, subst search_loop.simps) (auto simp: Let_def simp flip: h_def)
  next
    case False
    then show ?thesis by (subst restart_search.simps, subst search_loop.simps) simp
  qed
qed

lemma scan_to_over:
  assumes "good_blk ri es" "valid_ikey target" "bi_over ri es it rest"
  shows "\<exists>it'. scan_to target it = Some it' \<and> bi_over ri es it' (dropWhile (ltk target) rest)"
  using assms(3)
proof (induction rest arbitrary: it)
  case Nil
  then show ?case by (subst scan_to.simps) (simp add: bi_over_def)
next
  case (Cons e rest)
  have v: "bi_valid it" "bi_key it = fst e" "valid_ikey (fst e)"
    using Cons.prems assms(1) by (auto simp: bi_over_def good_blk_def dest: set_mono_suffix)
  show ?case
  proof (cases "ltk target e")
    case True
    obtain it1 where it1: "bi_next it = Some it1" "bi_over ri es it1 rest" using bi_next_over [OF assms(1) Cons.prems] by blast
    then show ?thesis using Cons.IH [OF it1(2)] True v assms(2) by (subst scan_to.simps) (simp add: compare_keys_def)
  next
    case False
    then show ?thesis using Cons.prems v assms(2) by (subst scan_to.simps) (simp add: compare_keys_def)
  qed
qed

lemma bi_seekGE_over:
  assumes "good_blk ri es" "key_sorted es" "valid_ikey target" "bi_over ri es it rest"
  shows "\<exists>it'. bi_seekGE target it = Some it' \<and> bi_over ri es it' (dropWhile (ltk target) es)"
proof (cases "es = []")
  case True
  then show ?thesis using assms(4) by (simp add: bi_seekGE_def bi_over_def blk_def)
next
  case False
  let ?f = "\<lambda>i. \<not> ltk target (es ! (i * ri))" and ?n = "length (blk_restarts ri es)"
  have ri: "0 < ri" using assms(1) by (simp add: good_blk_def)
  have b: "bi_b it = blk ri es" "bi_err it = None" using assms(4) by (simp_all add: bi_over_def)
  have r: "pb_restarts (blk ri es) = blk_restarts ri es" using False by (simp add: blk_def)
  have E: "pb_entries (blk ri es) \<noteq> []" using False by (cases es) (auto simp: blk_def entry_bytes_def)
  define i where "i = sort_search ?n ?f"
  have s: "restart_search it target 0 (length (pb_restarts (bi_b it))) None = Some (i, None)"
    using restart_search_blk [OF assms(1) b(1) False assms(3) order_refl, of 0] by (simp add: b(1) r i_def sort_search_def)
  have mono: "?f k'" if "k \<le> k'" "k' < ?n" "?f k" for k k'
  proof (cases "k = k'")
    case False
    then have "k * ri < k' * ri" using that(1) ri by simp
    then show ?thesis using that(3) key_sorted_nth [OF assms(2), of "k * ri" "k' * ri"] restart_nth [OF ri that(2)] by auto
  qed (use that in simp)
  have sp: "i \<le> ?n" "\<And>k. k < i \<Longrightarrow> \<not> ?f k" unfolding i_def using sort_search_spec(1,2) [of ?n ?f] mono by blast+
  define st where "st = (if i > 0 then i - 1 else 0)"
  have st: "st < ?n" using sp(1) blk_restarts_Nil [OF ri, of es] False by (auto simp: st_def)
  note sn = restart_nth [OF ri st]
  have drop: "dropWhile (ltk target) es = dropWhile (ltk target) (drop (st * ri) es)"
  proof -
    have "ltk target x" if x: "x \<in> set (take (st * ri) es)" for x
    proof -
      obtain m where m: "m < st * ri" "x = es ! m" using x sn by (auto simp: in_set_conv_nth)
      then have "0 < i" by (cases "i = 0") (auto simp: st_def)
      then have "ltk target (es ! (st * ri))" using sp(2) [of st] by (simp add: st_def)
      moreover have "ikey_rank (fst (es ! m)) < ikey_rank (fst (es ! (st * ri)))" using key_sorted_nth [OF assms(2) m(1)] sn by simp
      ultimately show ?thesis using m(2) by simp
    qed
    then have "dropWhile (ltk target) (take (st * ri) es @ drop (st * ri) es) = dropWhile (ltk target) (drop (st * ri) es)"
      by (rule dropWhile_append2)
    then show ?thesis by simp
  qed
  have "\<exists>it1. decodeNext (it\<lparr>bi_key := [], bi_nextOffset := blk_restarts ri es ! st\<rparr>) = Some it1 \<and> bi_over ri es it1 (drop (st * ri) es)"
    using sn b by (intro decode_rest [OF assms(1), of "take (st * ri) es"]) simp_all
  then obtain it1 where it1: "seekRestart st it = Some it1" "bi_over ri es it1 (drop (st * ri) es)"
    using st by (auto simp: seekRestart_def b(1) r)
  then show ?thesis using scan_to_over [OF assms(1,3) it1(2)] s E drop by (simp add: bi_seekGE_def b(1) r st_def)
qed

end
