(* ===== verification/SstBloom.thy ===== *)
theory SstBloom
  imports Prelude
begin

text \<open>
  The bloom filter of a table, \<^verbatim>\<open>src/internal/sstable/bloom.go\<close>: LevelDB's hash on 32-bit words, the
  filter built over all user-key hashes, and the membership test.  A filter that is built never denies a
  key it was built from, also when the 32-bit bit count wraps, and the test never fails on any bytes.
\<close>

section \<open>Definitions\<close>

definition hash_seed :: "32 word" where "hash_seed = 0xbc9f1d34"
definition hash_m :: "32 word" where "hash_m = 0xc6a4a793"

text \<open>The last one to three bytes; the cases of the switch fall through.\<close>

definition hash_tail :: "32 word \<Rightarrow> bytes \<Rightarrow> 32 word" where
  "hash_tail h d =
     (if d = [] then h
      else
        let h = (if length d = 3 then h + push_bit 16 (ucast (d ! 2)) else h);
            h = (if length d \<ge> 2 then h + push_bit 8 (ucast (d ! 1)) else h);
            h = (h + ucast (d ! 0)) * hash_m
        in h XOR drop_bit 24 h)"

fun hash_loop :: "32 word \<Rightarrow> bytes \<Rightarrow> 32 word" where
  "hash_loop h (a # b # c # d # rest) =
     (let h = (h + of_nat (le_dec [a, b, c, d])) * hash_m in hash_loop (h XOR drop_bit 16 h) rest)"
| "hash_loop h rest = hash_tail h rest"

definition leveldbHash :: "bytes \<Rightarrow> 32 word" where
  "leveldbHash data = hash_loop (hash_seed XOR (of_nat (length data) * hash_m)) data"

text \<open>
  \<^verbatim>\<open>uint32(float64(bitsPerKey) * 0.69)\<close> before its clamp to 1..30: below 44 bits per key no product is
  near an integer, so the truncated product is the exact quotient, and from 44 on it is at least 30.
\<close>

definition probe_count :: "nat \<Rightarrow> nat" where
  "probe_count bitsPerKey = (let k = bitsPerKey * 69 div 100 in if k < 1 then 1 else if k > 30 then 30 else k)"

definition hash_delta :: "32 word \<Rightarrow> 32 word" where
  "hash_delta h = drop_bit 17 h OR push_bit 15 h"

definition set_bit_at :: "nat \<Rightarrow> bytes \<Rightarrow> bytes" where
  "set_bit_at n flt = flt[n div 8 := (flt ! (n div 8)) OR push_bit (n mod 8) 1]"

text \<open>The inner loop of \<^verbatim>\<open>buildBloom\<close>; a modulus that wrapped to zero panics.\<close>

fun probe_set :: "nat \<Rightarrow> nat \<Rightarrow> 32 word \<Rightarrow> 32 word \<Rightarrow> bytes \<Rightarrow> bytes option" where
  "probe_set 0 bits delta h flt = Some flt"
| "probe_set (Suc k) bits delta h flt =
     (if bits = 0 then None else probe_set k bits delta (h + delta) (set_bit_at (unat h mod bits) flt))"

fun add_hashes :: "nat \<Rightarrow> nat \<Rightarrow> 32 word list \<Rightarrow> bytes \<Rightarrow> bytes option" where
  "add_hashes k bits [] flt = Some flt"
| "add_hashes k bits (h # hs) flt = probe_set k bits (hash_delta h) h flt \<bind> add_hashes k bits hs"

definition buildBloom :: "32 word list \<Rightarrow> nat \<Rightarrow> bytes option" where
  "buildBloom hashes bitsPerKey =
     (let k = probe_count bitsPerKey;
          bits = length hashes * bitsPerKey;
          bits = (if bits < 64 then 64 else bits);
          nBytes = (bits + 7) div 8;
          bits = nBytes * 8
      in add_hashes k (bits mod 2 ^ 32) hashes (replicate nBytes 0 @ [of_nat k]))"

fun probe_test :: "nat \<Rightarrow> nat \<Rightarrow> 32 word \<Rightarrow> 32 word \<Rightarrow> bytes \<Rightarrow> bool" where
  "probe_test 0 bits delta h flt = True"
| "probe_test (Suc k) bits delta h flt =
     (let b = unat h mod bits in
      if (flt ! (b div 8)) AND push_bit (b mod 8) 1 = 0 then False
      else probe_test k bits delta (h + delta) flt)"

definition bloomMayContain :: "bytes \<Rightarrow> 32 word \<Rightarrow> bool" where
  "bloomMayContain flt h =
     (if length flt < 2 then True
      else
        let nBytes = length flt - 1;
            bits = nBytes * 8 mod 2 ^ 32;
            k = unat (flt ! nBytes)
        in if bits = 0 \<or> k > 30 then True else probe_test k bits (hash_delta h) h flt)"

section \<open>No false negatives\<close>

definition bit_on :: "bytes \<Rightarrow> nat \<Rightarrow> bool" where
  "bit_on f n \<longleftrightarrow> bit (f ! (n div 8)) (n mod 8)"

lemma length_set_bit_at [simp]: "length (set_bit_at n f) = length f"
  by (simp add: set_bit_at_def)

lemma push_bit_1_byte: "n < 8 \<Longrightarrow> bit (push_bit n 1 :: byte) m \<longleftrightarrow> m = n"
  by (auto simp: bit_exp_iff)

lemma bit_on_set: "n div 8 < length f \<Longrightarrow> bit_on (set_bit_at n f) m \<longleftrightarrow> bit_on f m \<or> m = n"
proof (cases "m div 8 = n div 8")
  case True
  assume "n div 8 < length f"
  moreover have "m mod 8 = n mod 8 \<longleftrightarrow> m = n" using True by (metis div_mod_decomp)
  ultimately show ?thesis using True
    by (simp add: bit_on_def set_bit_at_def bit_or_iff push_bit_1_byte del: push_bit_of_1)
next
  case False
  then show ?thesis by (auto simp: bit_on_def set_bit_at_def)
qed

lemma probe_off_iff: "(b AND push_bit n 1 = 0) \<longleftrightarrow> \<not> bit b n" if "n < 8" for b :: byte
proof -
  have "bit (b AND push_bit n 1) m \<longleftrightarrow> bit b n \<and> m = n" for m
    using that by (auto simp: bit_and_iff push_bit_1_byte simp del: push_bit_of_1)
  then show ?thesis by (metis bit_0_eq bit_eqI bot_apply bot_bool_def)
qed

text \<open>The probed positions of a hash.\<close>

fun probes :: "nat \<Rightarrow> nat \<Rightarrow> 32 word \<Rightarrow> 32 word \<Rightarrow> nat set" where
  "probes 0 bits delta h = {}"
| "probes (Suc k) bits delta h = insert (unat h mod bits) (probes k bits delta (h + delta))"

lemma probe_test_iff: "probe_test k bits delta h f \<longleftrightarrow> (\<forall>n\<in>probes k bits delta h. bit_on f n)"
  by (induction k arbitrary: h) (simp_all add: probe_off_iff bit_on_def Let_def del: push_bit_of_1)

lemma probe_set_spec:
  assumes "probe_set k bits delta h f = Some f'" "bits \<le> 8 * n" "n \<le> length f"
  shows "length f' = length f \<and> (\<forall>m. bit_on f' m \<longleftrightarrow> bit_on f m \<or> m \<in> probes k bits delta h)
    \<and> (\<forall>i. n \<le> i \<longrightarrow> f' ! i = f ! i)"
  using assms
proof (induction k arbitrary: h f)
  case (Suc k)
  let ?n = "unat h mod bits"
  have b: "bits \<noteq> 0" using Suc.prems(1) by (auto split: if_splits)
  then have lt: "?n < bits" by simp
  then have i: "?n div 8 < n" using Suc.prems(2) by (metis less_le_trans less_mult_imp_div_less mult.commute)
  have "probe_set k bits delta (h + delta) (set_bit_at ?n f) = Some f'" using Suc.prems(1) b by simp
  from Suc.IH [OF this] Suc.prems(2,3)
  have "length f' = length f" "\<forall>m. bit_on f' m \<longleftrightarrow> bit_on (set_bit_at ?n f) m \<or> m \<in> probes k bits delta (h + delta)"
    "\<forall>i. n \<le> i \<longrightarrow> f' ! i = set_bit_at ?n f ! i" by auto
  moreover have "bit_on (set_bit_at ?n f) m \<longleftrightarrow> bit_on f m \<or> m = ?n" for m
    using bit_on_set i Suc.prems(3) by simp
  moreover have "set_bit_at ?n f ! i = f ! i" if "n \<le> i" for i using that i by (simp add: set_bit_at_def)
  ultimately show ?case by auto
qed simp

lemma add_hashes_spec:
  assumes "add_hashes k bits hs f = Some f'" "bits \<le> 8 * n" "n \<le> length f"
  shows "length f' = length f \<and> (\<forall>m. bit_on f' m \<longleftrightarrow> bit_on f m \<or> (\<exists>h\<in>set hs. m \<in> probes k bits (hash_delta h) h))
    \<and> (\<forall>i. n \<le> i \<longrightarrow> f' ! i = f ! i)"
  using assms
proof (induction hs arbitrary: f)
  case (Cons h hs)
  obtain g where g: "probe_set k bits (hash_delta h) h f = Some g" "add_hashes k bits hs g = Some f'"
    using Cons.prems(1) by (auto simp: bind_eq_Some_conv)
  show ?case using probe_set_spec [OF g(1) Cons.prems(2,3)] Cons.IH [OF g(2) Cons.prems(2)] Cons.prems(3) by auto
qed simp

lemma probe_count_bounds: "1 \<le> probe_count b \<and> probe_count b \<le> 30"
  by (simp add: probe_count_def Let_def)

lemma buildBloom_contains:
  assumes "buildBloom hs b = Some f" "h \<in> set hs"
  shows "bloomMayContain f h"
proof -
  define n where "n = ((if length hs * b < 64 then 64 else length hs * b) + 7) div 8"
  let ?k = "probe_count b" and ?bits = "n * 8 mod 2 ^ 32"
  have n: "8 \<le> n" unfolding n_def by auto
  have a: "add_hashes ?k ?bits hs (replicate n 0 @ [of_nat ?k]) = Some f"
    using assms(1) by (simp add: buildBloom_def Let_def n_def)
  have "?bits \<le> 8 * n" by (metis mod_less_eq_dividend mult.commute)
  from add_hashes_spec [OF a this]
  have f: "length f = n + 1" "\<forall>m. bit_on f m \<longleftrightarrow> bit_on (replicate n 0 @ [of_nat ?k]) m \<or> (\<exists>h\<in>set hs. m \<in> probes ?k ?bits (hash_delta h) h)"
    "f ! n = of_nat ?k" by (auto simp: nth_append)
  have "?k mod 256 = ?k" using probe_count_bounds [of b] by simp
  then have "unat (f ! n) = ?k" using f(3) by (simp add: unat_of_nat)
  then show ?thesis using f(1,2) n assms(2) by (auto simp: bloomMayContain_def Let_def probe_test_iff)
qed

lemma probe_set_total: "bits \<noteq> 0 \<Longrightarrow> \<exists>f'. probe_set k bits delta h f = Some f'"
  by (induction k arbitrary: h f) auto

lemma add_hashes_total: "bits \<noteq> 0 \<Longrightarrow> \<exists>f'. add_hashes k bits hs f = Some f'"
proof (induction hs arbitrary: f)
  case (Cons h hs)
  obtain g where "probe_set k bits (hash_delta h) h f = Some g" using probe_set_total [OF Cons.prems] by blast
  then show ?case using Cons by auto
qed simp

text \<open>Under the writer's guard on the rounded bit count the filter is always built.\<close>

lemma buildBloom_total:
  assumes "(length hs * b + 7) div 8 * 8 < 2 ^ 32"
  shows "\<exists>f. buildBloom hs b = Some f"
proof -
  have "(((if length hs * b < 64 then 64 else length hs * b) + 7) div 8) * 8 mod 2 ^ 32 \<noteq> 0"
    using assms by (auto simp: mod_eq_0_iff_dvd dest!: dvd_imp_le)
  then show ?thesis unfolding buildBloom_def Let_def using add_hashes_total by blast
qed

lemma buildBloom_length:
  "buildBloom hs b = Some f \<Longrightarrow> length f = ((if length hs * b < 64 then 64 else length hs * b) + 7) div 8 + 1"
  unfolding buildBloom_def Let_def by (drule add_hashes_spec [of _ _ _ _ _ "((if length hs * b < 64 then 64 else length hs * b) + 7) div 8"])
    (auto simp: mult.commute[of _ 8])

end
