(* ===== verification/SstWriter.thy ===== *)
theory SstWriter
  imports SstBlockCodec SstBloom
begin

text \<open>
  The streaming table writer, \<^verbatim>\<open>src/internal/sstable/writer.go\<close>.  The destination is the bytes it has
  accepted so far; the outcome of its \<open>n\<close>-th write is an input: success, or a failure after some prefix
  of the buffer was written.  The lemmas track which blocks are on disk, which entries are pending and
  what the index says, up to the bytes of a finished table, and show that a failed writer stays failed.
  Byte and entry counters are bounded by the file and do not wrap.
\<close>

section \<open>Options and state\<close>

record WriterOptions =
  wo_BlockSize :: int
  wo_RestartInterval :: int
  wo_BitsPerKey :: int

definition writer_defaults :: "WriterOptions \<Rightarrow> WriterOptions" where
  "writer_defaults o' =
     (let o1 = (if wo_BlockSize o' \<le> 0 then o'\<lparr>wo_BlockSize := 4096\<rparr> else o');
          o2 = (if wo_BlockSize o1 > 2 ^ 30 then o1\<lparr>wo_BlockSize := 2 ^ 30\<rparr> else o1);
          o3 = (if wo_RestartInterval o2 \<le> 0 then o2\<lparr>wo_RestartInterval := 16\<rparr> else o2)
      in if wo_BitsPerKey o3 \<le> 0 then o3\<lparr>wo_BitsPerKey := 10\<rparr> else o3)"

record Properties =
  NumEntries :: nat
  Smallest :: "bytes option"
  Largest :: "bytes option"
  FileSize :: nat

record sst_Writer =
  sw_out :: bytes
  sw_calls :: nat
  sw_opts :: WriterOptions
  sw_data :: blockBuilder
  sw_index :: blockBuilder
  sw_offset :: nat
  sw_hashes :: "32 word list"
  sw_props :: Properties
  sw_lastKey :: bytes
  sw_err :: "sst_error option"
  sw_done :: bool

type_synonym writes = "nat \<Rightarrow> nat option"

definition NewWriter :: "WriterOptions \<Rightarrow> sst_Writer" where
  "NewWriter opts =
     (let opts = writer_defaults opts in
      \<lparr>sw_out = [], sw_calls = 0, sw_opts = opts, sw_data = newBlockBuilder (nat (wo_RestartInterval opts)),
       sw_index = newBlockBuilder 1, sw_offset = 0, sw_hashes = [],
       sw_props = \<lparr>NumEntries = 0, Smallest = None, Largest = None, FileSize = 0\<rparr>, sw_lastKey = [], sw_err = None, sw_done = False\<rparr>)"

section \<open>Operations\<close>

text \<open>\<^verbatim>\<open>dst.Write\<close>.\<close>

definition dst_write :: "writes \<Rightarrow> bytes \<Rightarrow> sst_Writer \<Rightarrow> bool \<times> sst_Writer" where
  "dst_write io buf w =
     (case io (sw_calls w) of
        None \<Rightarrow> (True, w\<lparr>sw_out := sw_out w @ buf, sw_calls := sw_calls w + 1\<rparr>)
      | Some n \<Rightarrow> (False, w\<lparr>sw_out := sw_out w @ take n buf, sw_calls := sw_calls w + 1\<rparr>))"

definition sw_fail :: "sst_error \<Rightarrow> sst_Writer \<Rightarrow> (sst_error + 'a) \<times> sst_Writer" where
  "sw_fail e w = (Inl e, w\<lparr>sw_err := (case sw_err w of None \<Rightarrow> Some e | Some e' \<Rightarrow> Some e')\<rparr>)"

definition writeBlock :: "writes \<Rightarrow> bytes \<Rightarrow> sst_Writer \<Rightarrow> (sst_error + blockHandle) \<times> sst_Writer" where
  "writeBlock io contents w =
     (let h = \<lparr>h_offset = sw_offset w, h_length = length contents\<rparr>;
          (ok, w) = dst_write io contents w
      in if \<not> ok then (Inl WriteError, w)
         else
           let (ok, w) = dst_write io (put_u32 (unat (crc_checksum contents))) w in
           if \<not> ok then (Inl WriteError, w)
           else (Inr h, w\<lparr>sw_offset := sw_offset w + length contents + blockTrailerLen\<rparr>))"

definition flushDataBlock :: "writes \<Rightarrow> sst_Writer \<Rightarrow> (sst_error + unit) \<times> sst_Writer" where
  "flushDataBlock io w =
     (if block_empty (sw_data w) then (Inr (), w)
      else
        let (contents, data) = block_finish (sw_data w) in
        case writeBlock io contents (w\<lparr>sw_data := data\<rparr>) of
          (Inl e, w) \<Rightarrow> sw_fail e w
        | (Inr h, w) \<Rightarrow>
            let w = w\<lparr>sw_index := block_add (sw_lastKey w) (handle_append h []) (sw_index w)\<rparr> in
            if bb_overflowed (sw_index w) then sw_fail ErrBlockOverflow w
            else (Inr (), w\<lparr>sw_data := block_reset (sw_data w)\<rparr>))"

definition Writer_Add :: "writes \<Rightarrow> bytes \<Rightarrow> bytes \<Rightarrow> sst_Writer \<Rightarrow> (sst_error + unit) \<times> sst_Writer" where
  "Writer_Add io key val w =
     (case sw_err w of
        Some e \<Rightarrow> (Inl e, w)
      | None \<Rightarrow>
          if sw_done w then (Inl AlreadyFinished, w)
          else if length key < TrailerLen then sw_fail (KeyTooShort key) w
          else if NumEntries (sw_props w) > 0 \<and> Compare key (sw_lastKey w) \<le> 0 then sw_fail (ErrOutOfOrder key (sw_lastKey w)) w
          else
            let w = (if NumEntries (sw_props w) = 0 then w\<lparr>sw_props := (sw_props w)\<lparr>Smallest := Some key\<rparr>\<rparr> else w);
                w = w\<lparr>sw_lastKey := key, sw_hashes := sw_hashes w @ [leveldbHash (UserKey key)], sw_data := block_add key val (sw_data w)\<rparr>
            in if bb_overflowed (sw_data w) then sw_fail ErrBlockOverflow w
               else
                 let w = w\<lparr>sw_props := (sw_props w)\<lparr>NumEntries := NumEntries (sw_props w) + 1\<rparr>\<rparr> in
                 if int (block_estimatedSize (sw_data w)) \<ge> wo_BlockSize (sw_opts w) then flushDataBlock io w else (Inr (), w))"

definition EstimatedSize :: "sst_Writer \<Rightarrow> nat" where
  "EstimatedSize w = sw_offset w + block_estimatedSize (sw_data w) + block_estimatedSize (sw_index w)"

text \<open>\<open>None\<close> is the division by zero inside \<^verbatim>\<open>buildBloom\<close> that the guard before it excludes.\<close>

definition Finish :: "writes \<Rightarrow> sst_Writer \<Rightarrow> ((sst_error + Properties) \<times> sst_Writer) option" where
  "Finish io w =
     (case sw_err w of
        Some e \<Rightarrow> Some (Inl e, w)
      | None \<Rightarrow>
          if sw_done w then Some (Inl AlreadyFinished, w)
          else
            case flushDataBlock io (w\<lparr>sw_done := True\<rparr>) of
              (Inl e, w) \<Rightarrow> Some (Inl e, w)
            | (Inr _, w) \<Rightarrow>
                let bits = length (sw_hashes w) * nat (wo_BitsPerKey (sw_opts w)) in
                if (bits + 7) div 8 * 8 \<ge> 2 ^ 32 then Some (sw_fail ErrBloomOverflow w)
                else do {
                  bloom \<leftarrow> buildBloom (sw_hashes w) (nat (wo_BitsPerKey (sw_opts w)));
                  case writeBlock io bloom w of
                    (Inl e, w) \<Rightarrow> Some (sw_fail e w)
                  | (Inr filterHandle, w) \<Rightarrow>
                      let (contents, index) = block_finish (sw_index w) in
                      case writeBlock io contents (w\<lparr>sw_index := index\<rparr>) of
                        (Inl e, w) \<Rightarrow> Some (sw_fail e w)
                      | (Inr indexHandle, w) \<Rightarrow>
                          let (ok, w) = dst_write io (footer_encode \<lparr>ft_filter = filterHandle, ft_index = indexHandle\<rparr>) w in
                          if \<not> ok then Some (sw_fail WriteError w)
                          else
                            let w = w\<lparr>sw_offset := sw_offset w + footerLen\<rparr>;
                                p = sw_props w;
                                p = (if NumEntries p > 0 then p\<lparr>Largest := Some (sw_lastKey w)\<rparr> else p);
                                p = p\<lparr>FileSize := sw_offset w\<rparr>
                            in Some (Inr p, w\<lparr>sw_props := p\<rparr>)
                })"

text \<open>A caller's loop: add the entries in order, stop at the first error, then finish.\<close>

fun add_all :: "writes \<Rightarrow> entry list \<Rightarrow> sst_Writer \<Rightarrow> (sst_error + unit) \<times> sst_Writer" where
  "add_all io [] w = (Inr (), w)"
| "add_all io ((k, v) # es) w =
     (case Writer_Add io k v w of (Inl e, w) \<Rightarrow> (Inl e, w) | (Inr _, w) \<Rightarrow> add_all io es w)"

definition write_table :: "writes \<Rightarrow> WriterOptions \<Rightarrow> entry list \<Rightarrow> ((sst_error + Properties) \<times> sst_Writer) option" where
  "write_table io opts es =
     (case add_all io es (NewWriter opts) of (Inl e, w) \<Rightarrow> Some (Inl e, w) | (Inr _, w) \<Rightarrow> Finish io w)"

section \<open>The bytes of a table\<close>

definition framed :: "bytes \<Rightarrow> bytes" where
  "framed c = c @ put_u32 (unat (crc_checksum c))"

lemma length_framed [simp]: "length (framed c) = length c + 4"
  by (simp add: framed_def)

definition data_bytes :: "nat \<Rightarrow> entry list list \<Rightarrow> bytes" where
  "data_bytes ri blks = concat (map (\<lambda>b. framed (blk_bytes ri b)) blks)"

fun handles :: "nat \<Rightarrow> nat \<Rightarrow> entry list list \<Rightarrow> blockHandle list" where
  "handles ri off [] = []"
| "handles ri off (b # bs) = \<lparr>h_offset = off, h_length = length (blk_bytes ri b)\<rparr> # handles ri (off + length (framed (blk_bytes ri b))) bs"

definition block_index :: "nat \<Rightarrow> entry list list \<Rightarrow> entry list" where
  "block_index ri blks = map2 (\<lambda>b h. (fst (last b), handle_append h [])) blks (handles ri 0 blks)"

definition table_bytes :: "nat \<Rightarrow> bytes \<Rightarrow> entry list list \<Rightarrow> bytes" where
  "table_bytes ri bloom blks =
     (let D = data_bytes ri blks; I = blk_bytes 1 (block_index ri blks) in
      D @ framed bloom @ framed I @ footer_encode
        \<lparr>ft_filter = \<lparr>h_offset = length D, h_length = length bloom\<rparr>,
         ft_index = \<lparr>h_offset = length (D @ framed bloom), h_length = length I\<rparr>\<rparr>)"

lemma length_handles [simp]: "length (handles ri off bs) = length bs"
  by (induction bs arbitrary: off) auto

lemma handles_append: "handles ri off (xs @ ys) = handles ri off xs @ handles ri (off + length (data_bytes ri xs)) ys"
  by (induction xs arbitrary: off) (auto simp: data_bytes_def ac_simps)

lemma block_index_snoc: "block_index ri (blks @ [b])
    = block_index ri blks @ [(fst (last b), handle_append \<lparr>h_offset = length (data_bytes ri blks), h_length = length (blk_bytes ri b)\<rparr> [])]"
  by (simp add: block_index_def handles_append)

lemma data_bytes_snoc: "data_bytes ri (blks @ [b]) = data_bytes ri blks @ framed (blk_bytes ri b)"
  by (simp add: data_bytes_def)

section \<open>The invariant of a healthy writer\<close>

text \<open>\<open>blks\<close> are the blocks on disk, \<open>pend\<close> the entries of the pending block.\<close>

definition wr_inv :: "sst_Writer \<Rightarrow> entry list list \<Rightarrow> entry list \<Rightarrow> bool" where
  "wr_inv w blks pend \<longleftrightarrow> (let ri = nat (wo_RestartInterval (sw_opts w)); es = concat blks @ pend in
     0 < ri \<and> sw_err w = None \<and> built ri pend (sw_data w) \<and> built 1 (block_index ri blks) (sw_index w)
     \<and> sw_out w = data_bytes ri blks \<and> sw_offset w = length (sw_out w) \<and> sw_hashes w = map (\<lambda>e. leveldbHash (UserKey (fst e))) es
     \<and> NumEntries (sw_props w) = length es \<and> Smallest (sw_props w) = map_option fst (hdo es) \<and> Largest (sw_props w) = None
     \<and> sw_lastKey w = last_key [] es \<and> key_sorted es \<and> (\<forall>e\<in>set es. valid_ikey (fst e)) \<and> [] \<notin> set blks)"

lemma writer_defaults_pos:
  "0 < wo_RestartInterval (writer_defaults opts)" "0 < wo_BitsPerKey (writer_defaults opts)"
  "0 < wo_BlockSize (writer_defaults opts) \<and> wo_BlockSize (writer_defaults opts) \<le> 2 ^ 30"
  by (simp_all add: writer_defaults_def Let_def)

lemma wr_inv_new: "wr_inv (NewWriter opts) [] []"
  using writer_defaults_pos(1) [of opts]
  by (simp add: wr_inv_def NewWriter_def Let_def built_new block_index_def data_bytes_def hdo_def)

lemma writeBlock_Inr:
  assumes "writeBlock io c w = (Inr h, w')"
  shows "h = \<lparr>h_offset = sw_offset w, h_length = length c\<rparr>
    \<and> w' = w\<lparr>sw_out := sw_out w @ framed c, sw_calls := sw_calls w + 2, sw_offset := sw_offset w + length c + 4\<rparr>"
  using assms by (auto simp: writeBlock_def dst_write_def framed_def Let_def split: option.splits if_splits)

lemma writeBlock_cases:
  obtains (ok) h w' where "writeBlock io c w = (Inr h, w')" | (err) e w' where "writeBlock io c w = (Inl e, w')"
  by (cases "writeBlock io c w") (metis sum.exhaust)

lemma block_add_overflow: "bb_overflowed (block_add k v b) \<longleftrightarrow> bb_overflowed b \<or> length (bb_buf b) > MaxU32"
  by (simp add: block_add_def Let_def)

lemma flush_inv:
  assumes "wr_inv w blks pend" "flushDataBlock io w = (Inr (), w')"
  shows "wr_inv w' (if pend = [] then blks else blks @ [pend]) [] \<and> sw_opts w' = sw_opts w \<and> sw_done w' = sw_done w"
proof (cases "pend = []")
  case True
  then have "block_empty (sw_data w)" using assms(1) built_empty [of _ pend "sw_data w"] by (auto simp: wr_inv_def Let_def)
  then show ?thesis using assms True by (simp add: flushDataBlock_def)
next
  case False
  let ?ri = "nat (wo_RestartInterval (sw_opts w))"
  have i: "0 < ?ri" "built ?ri pend (sw_data w)" "built 1 (block_index ?ri blks) (sw_index w)" "sw_out w = data_bytes ?ri blks"
    "sw_offset w = length (sw_out w)" "sw_lastKey w = fst (last pend)" using assms(1) False by (auto simp: wr_inv_def Let_def last_key_def)
  obtain d where f: "block_finish (sw_data w) = (blk_bytes ?ri pend, d)" using built_finish [OF i(2,1)] by (metis prod.collapse)
  have d: "block_reset d = block_reset (sw_data w)" using f by (auto simp: block_finish_def block_reset_def Let_def)
  have ne: "\<not> block_empty (sw_data w)" using built_empty [OF i(2)] False by simp
  let ?w1 = "w\<lparr>sw_data := d\<rparr>"
  obtain h w2 where w2: "writeBlock io (blk_bytes ?ri pend) ?w1 = (Inr h, w2)"
    using assms(2) ne f by (cases rule: writeBlock_cases [of io "blk_bytes ?ri pend" ?w1]) (auto simp: flushDataBlock_def sw_fail_def)
  note wb = writeBlock_Inr [OF w2]
  let ?ix = "block_add (sw_lastKey w2) (handle_append h []) (sw_index w2)"
  have ov: "\<not> bb_overflowed ?ix" and w': "w' = w2\<lparr>sw_index := ?ix, sw_data := block_reset d\<rparr>"
    using assms(2) ne f w2 wb by (auto simp: flushDataBlock_def sw_fail_def Let_def split: if_splits)
  have len: "length (bb_buf (sw_index w)) \<le> MaxU32" using ov wb by (simp add: block_add_overflow)
  have ix: "built 1 (block_index ?ri (blks @ [pend])) ?ix"
    using built_add [OF i(3) _ len] wb i by (simp add: block_index_snoc)
  show ?thesis using assms(1) False ix wb i(4,5) d built_reset [OF i(2,1)]
    unfolding wr_inv_def Let_def w' by (simp add: data_bytes_snoc)
qed

lemma key_sorted_snoc:
  assumes "key_sorted es" "es \<noteq> [] \<longrightarrow> ikey_rank (fst (last es)) < ikey_rank (fst e)"
  shows "key_sorted (es @ [e])"
proof (cases es rule: rev_cases)
  case (snoc ys y)
  then show ?thesis using assms by (auto simp: key_sorted_append intro: less_trans)
qed simp

lemma hdo_append: "hdo (xs @ ys) = (if xs = [] then hdo ys else hdo xs)"
  by (cases xs) (auto simp: hdo_def)

text \<open>The state of a writer that has accepted an entry into its pending block.\<close>

definition staged :: "bytes \<Rightarrow> bytes \<Rightarrow> sst_Writer \<Rightarrow> sst_Writer" where
  "staged k v w =
     (let w = (if NumEntries (sw_props w) = 0 then w\<lparr>sw_props := (sw_props w)\<lparr>Smallest := Some k\<rparr>\<rparr> else w);
          w = w\<lparr>sw_lastKey := k, sw_hashes := sw_hashes w @ [leveldbHash (UserKey k)], sw_data := block_add k v (sw_data w)\<rparr>
      in w\<lparr>sw_props := (sw_props w)\<lparr>NumEntries := NumEntries (sw_props w) + 1\<rparr>\<rparr>)"

lemma staged_sel [simp]:
  "sw_opts (staged k v w) = sw_opts w" "sw_done (staged k v w) = sw_done w" "sw_data (staged k v w) = block_add k v (sw_data w)"
  by (simp_all add: staged_def Let_def)

lemma Writer_Add_accepts:
  assumes "sw_err w = None"
  shows "Writer_Add io k v w = (Inr (), w') \<longleftrightarrow> \<not> sw_done w \<and> 8 \<le> length k \<and> \<not> (0 < NumEntries (sw_props w) \<and> Compare k (sw_lastKey w) \<le> 0)
    \<and> \<not> bb_overflowed (block_add k v (sw_data w))
    \<and> (if int (block_estimatedSize (sw_data (staged k v w))) \<ge> wo_BlockSize (sw_opts w) then flushDataBlock io (staged k v w)
       else (Inr (), staged k v w)) = (Inr (), w')"
  using assms unfolding Writer_Add_def staged_def Let_def by (simp add: sw_fail_def not_less split: if_splits)

lemma staged_inv:
  assumes "wr_inv w blks pend" "8 \<le> length k" "\<not> (0 < NumEntries (sw_props w) \<and> Compare k (sw_lastKey w) \<le> 0)"
    "\<not> bb_overflowed (block_add k v (sw_data w))"
  shows "wr_inv (staged k v w) blks (pend @ [(k, v)])"
proof -
  let ?ri = "nat (wo_RestartInterval (sw_opts w))" and ?es = "concat blks @ pend"
  define w0 where "w0 = (if NumEntries (sw_props w) = 0 then w\<lparr>sw_props := (sw_props w)\<lparr>Smallest := Some k\<rparr>\<rparr> else w)"
  have i: "0 < ?ri" "built ?ri pend (sw_data w)" "NumEntries (sw_props w) = length ?es" "sw_lastKey w = last_key [] ?es"
    using assms(1) by (simp_all add: wr_inv_def Let_def)
  have len: "length (bb_buf (sw_data w)) \<le> MaxU32" using assms(4) by (simp add: block_add_overflow)
  have so: "key_sorted (?es @ [(k, v)])"
    using assms(1,3) i(3,4) by (intro key_sorted_snoc) (auto simp: wr_inv_def Let_def last_key_def not_le split: if_splits)
  have hs: "map_option fst (hdo (?es @ [(k, v)])) = (if ?es = [] then Some k else map_option fst (hdo ?es))"
    by (simp only: hdo_append) (simp add: hdo_def)
  have "Smallest (sw_props w) = map_option fst (hdo ?es)" using assms(1) by (simp add: wr_inv_def Let_def)
  then have sm: "Smallest (sw_props w0) = map_option fst (hdo (?es @ [(k, v)]))" unfolding hs w0_def i(3) by simp
  have sl: "Largest (sw_props w0) = None" "NumEntries (sw_props w0) = length ?es"
    "sw_opts w0 = sw_opts w" "sw_err w0 = None" "sw_index w0 = sw_index w" "sw_out w0 = sw_out w" "sw_offset w0 = sw_offset w"
    "sw_hashes w0 = sw_hashes w" "sw_data w0 = sw_data w"
    using assms(1) unfolding wr_inv_def Let_def w0_def by auto
  show ?thesis
    using assms(1) built_add [OF i(2,1) len, of k v] so assms(2) sm sl
    unfolding wr_inv_def Let_def staged_def w0_def [symmetric] by (simp add: valid_ikey_def last_key_def)
qed

lemma add_inv:
  assumes "wr_inv w blks pend" "Writer_Add io k v w = (Inr (), w')"
  shows "\<exists>blks' pend'. wr_inv w' blks' pend' \<and> concat blks' @ pend' = concat blks @ pend @ [(k, v)]
    \<and> sw_opts w' = sw_opts w \<and> sw_done w' = sw_done w"
proof -
  have e: "sw_err w = None" using assms(1) by (simp add: wr_inv_def Let_def)
  note a = assms(2) [unfolded Writer_Add_accepts [OF e]]
  have i: "wr_inv (staged k v w) blks (pend @ [(k, v)])" using a by (intro staged_inv [OF assms(1)]) auto
  show ?thesis
  proof (cases "int (block_estimatedSize (sw_data (staged k v w))) \<ge> wo_BlockSize (sw_opts w)")
    case True
    then have "wr_inv w' (blks @ [pend @ [(k, v)]]) [] \<and> sw_opts w' = sw_opts w \<and> sw_done w' = sw_done w"
      using a flush_inv [OF i, of io w'] by simp
    then show ?thesis by (intro exI [of _ "blks @ [pend @ [(k, v)]]"] exI [of _ "[]"]) simp
  next
    case False
    then have "w' = staged k v w" using a by simp
    then show ?thesis using i by (intro exI [of _ blks] exI [of _ "pend @ [(k, v)]"]) simp
  qed
qed

lemma add_all_inv:
  assumes "wr_inv w blks pend" "add_all io es w = (Inr (), w')"
  shows "\<exists>blks' pend'. wr_inv w' blks' pend' \<and> concat blks' @ pend' = concat blks @ pend @ es \<and> sw_opts w' = sw_opts w \<and> sw_done w' = sw_done w"
  using assms
proof (induction es arbitrary: w blks pend)
  case (Cons e es)
  obtain k v where e: "e = (k, v)" by (cases e)
  obtain w1 where w1: "Writer_Add io k v w = (Inr (), w1)" "add_all io es w1 = (Inr (), w')"
    using Cons.prems(2) by (auto simp: e split: prod.splits sum.splits)
  obtain b1 p1 where i1: "wr_inv w1 b1 p1" "concat b1 @ p1 = concat blks @ pend @ [(k, v)]" "sw_opts w1 = sw_opts w" "sw_done w1 = sw_done w"
    using add_inv [OF Cons.prems(1) w1(1)] by blast
  then show ?case using Cons.IH [OF i1(1) w1(2)] by (simp add: e) (metis append.assoc append_Cons append_Nil)
qed auto

lemma finish_inv:
  assumes "wr_inv w blks pend" "Finish io w = Some (Inr p, w')"
  shows "\<exists>blks' bloom. concat blks' = concat blks @ pend \<and> [] \<notin> set blks'
    \<and> buildBloom (map (\<lambda>e. leveldbHash (UserKey (fst e))) (concat blks')) (nat (wo_BitsPerKey (sw_opts w))) = Some bloom
    \<and> sw_out w' = table_bytes (nat (wo_RestartInterval (sw_opts w))) bloom blks'
    \<and> p = \<lparr>NumEntries = length (concat blks'), Smallest = map_option fst (hdo (concat blks')),
        Largest = (if concat blks' = [] then None else Some (fst (last (concat blks')))), FileSize = length (sw_out w')\<rparr>"
proof -
  let ?ri = "nat (wo_RestartInterval (sw_opts w))" and ?bpk = "nat (wo_BitsPerKey (sw_opts w))"
  define B where "B = (if pend = [] then blks else blks @ [pend])"
  have f0: "sw_err w = None" "\<not> sw_done w" using assms by (auto simp: wr_inv_def Let_def Finish_def split: if_splits)
  have i0: "wr_inv (w\<lparr>sw_done := True\<rparr>) blks pend" using assms(1) by (simp add: wr_inv_def)
  obtain w1 where w1: "flushDataBlock io (w\<lparr>sw_done := True\<rparr>) = (Inr (), w1)"
    using assms(2) f0 by (auto simp: Finish_def split: prod.splits sum.splits)
  have i1: "wr_inv w1 B []" "sw_opts w1 = sw_opts w" using flush_inv [OF i0 w1] by (simp_all add: B_def)
  obtain bloom where bl: "buildBloom (sw_hashes w1) ?bpk = Some bloom" "\<not> (length (sw_hashes w1) * ?bpk + 7) div 8 * 8 \<ge> 2 ^ 32"
    using assms(2) f0 w1 i1(2) by (auto simp: Finish_def Let_def sw_fail_def bind_eq_Some_conv split: if_splits)
  obtain fh w2 where w2: "writeBlock io bloom w1 = (Inr fh, w2)"
    using assms(2) f0 w1 bl i1(2) by (cases rule: writeBlock_cases [of io bloom w1]) (auto simp: Finish_def Let_def sw_fail_def split: if_splits)
  note b2 = writeBlock_Inr [OF w2]
  have ix: "built 1 (block_index ?ri B) (sw_index w2)" using i1 b2 by (simp add: wr_inv_def Let_def)
  obtain d where fin: "block_finish (sw_index w2) = (blk_bytes 1 (block_index ?ri B), d)"
    using built_finish [OF ix] by (metis less_one prod.collapse)
  let ?I = "blk_bytes 1 (block_index ?ri B)"
  obtain ih w3 where w3: "writeBlock io ?I (w2\<lparr>sw_index := d\<rparr>) = (Inr ih, w3)"
    using assms(2) f0 w1 bl i1(2) w2 fin
    by (cases rule: writeBlock_cases [of io ?I "w2\<lparr>sw_index := d\<rparr>"]) (auto simp: Finish_def Let_def sw_fail_def split: if_splits)
  note b3 = writeBlock_Inr [OF w3]
  let ?F = "footer_encode \<lparr>ft_filter = fh, ft_index = ih\<rparr>"
  have io3: "io (sw_calls w3) = None"
    using assms(2) f0 w1 bl i1(2) w2 fin w3 by (auto simp: Finish_def Let_def sw_fail_def dst_write_def split: if_splits option.splits)
  have r: "sw_out w' = sw_out w3 @ ?F \<and> p = (if NumEntries (sw_props w3) > 0 then (sw_props w3)\<lparr>Largest := Some (sw_lastKey w3)\<rparr> else sw_props w3)
      \<lparr>FileSize := sw_offset w3 + 48\<rparr>"
    using assms(2) f0 w1 bl i1(2) w2 fin w3 io3 by (auto simp: Finish_def Let_def dst_write_def split: if_splits)
  have c: "concat B = concat blks @ pend" "[] \<notin> set B" using i0 by (auto simp: wr_inv_def Let_def B_def)
  have o3: "sw_out w3 = data_bytes ?ri B @ framed bloom @ framed ?I" "sw_offset w3 = length (sw_out w3)" "sw_offset w1 = length (data_bytes ?ri B)"
    using i1 b2 b3 by (auto simp: wr_inv_def Let_def)
  have "sw_out w' = table_bytes ?ri bloom B" using r o3 b2 b3 by (simp add: table_bytes_def Let_def add.assoc)
  moreover have "p = \<lparr>NumEntries = length (concat B), Smallest = map_option fst (hdo (concat B)),
        Largest = (if concat B = [] then None else Some (fst (last (concat B)))), FileSize = length (sw_out w')\<rparr>"
  proof -
    have "sw_props w3 = sw_props w1" "sw_lastKey w3 = sw_lastKey w1" using b2 b3 by simp_all
    moreover have "NumEntries (sw_props w1) = length (concat B)" "Smallest (sw_props w1) = map_option fst (hdo (concat B))"
      "Largest (sw_props w1) = None" "sw_lastKey w1 = last_key [] (concat B)" using i1(1) unfolding wr_inv_def Let_def append_Nil2 by blast+
    ultimately show ?thesis using r o3(2) by (simp add: last_key_def)
  qed
  moreover have "sw_hashes w1 = map (\<lambda>e. leveldbHash (UserKey (fst e))) (concat B)" using i1(1) by (simp add: wr_inv_def Let_def)
  ultimately show ?thesis using c bl(1) by (intro exI [of _ B] exI [of _ bloom]) simp
qed

text \<open>What a finished table is, whatever the destination did on the way.\<close>

lemma write_table_Inr:
  assumes "write_table io opts es = Some (Inr p, w)"
  shows "\<exists>blks bloom. concat blks = es \<and> [] \<notin> set blks \<and> key_sorted es \<and> (\<forall>e\<in>set es. valid_ikey (fst e))
    \<and> buildBloom (map (\<lambda>e. leveldbHash (UserKey (fst e))) es) (nat (wo_BitsPerKey (writer_defaults opts))) = Some bloom
    \<and> sw_out w = table_bytes (nat (wo_RestartInterval (writer_defaults opts))) bloom blks
    \<and> p = \<lparr>NumEntries = length es, Smallest = map_option fst (hdo es),
        Largest = (if es = [] then None else Some (fst (last es))), FileSize = length (sw_out w)\<rparr>"
proof -
  obtain w1 where w1: "add_all io es (NewWriter opts) = (Inr (), w1)" "Finish io w1 = Some (Inr p, w)"
    using assms by (auto simp: write_table_def split: prod.splits sum.splits)
  obtain b1 p1 where i: "wr_inv w1 b1 p1" "concat b1 @ p1 = es" "sw_opts w1 = sw_opts (NewWriter opts)"
    using add_all_inv [OF wr_inv_new w1(1)] by auto
  have o: "sw_opts w1 = writer_defaults opts" using i(3) by (simp add: NewWriter_def Let_def)
  have "key_sorted es" "\<forall>e\<in>set es. valid_ikey (fst e)" using i(1,2) by (auto simp: wr_inv_def Let_def)
  then show ?thesis using finish_inv [OF i(1) w1(2)] unfolding i(2) o by metis
qed

section \<open>Success\<close>

text \<open>An upper bound on what an entry adds to a block, to the index and to the file.\<close>

definition table_cost :: "entry list \<Rightarrow> nat" where
  "table_cost es = (\<Sum>e\<leftarrow>es. length (fst e) + length (snd e) + 60)"

lemma table_cost_simps [simp]:
  "table_cost [] = 0" "table_cost (e # es) = length (fst e) + length (snd e) + 60 + table_cost es"
  "table_cost (xs @ ys) = table_cost xs + table_cost ys"
  by (simp_all add: table_cost_def)

lemma length_put_uvarint_le: "x < 2 ^ 64 \<Longrightarrow> length (put_uvarint x) \<le> 10"
  using uvarint_put [of x "[]"] uvarint_bounds [of "put_uvarint x"] by simp

lemma length_entry_bytes:
  assumes "length k < 2 ^ 64" "length v < 2 ^ 64" "sh \<le> length k"
  shows "length (entry_bytes sh k v) \<le> length k + length v + 30"
proof -
  have "length (put_uvarint sh) \<le> 10" "length (put_uvarint (length k - sh)) \<le> 10" "length (put_uvarint (length v)) \<le> 10"
    using assms by (auto intro!: length_put_uvarint_le)
  then show ?thesis by (simp add: entry_bytes_def)
qed

lemma pieces_cost: "table_cost es < 2 ^ 64 \<Longrightarrow> length (concat (pieces ri i prev es)) + 30 * length es \<le> table_cost es"
proof (induction es arbitrary: i prev)
  case (Cons e es)
  obtain k v where e: "e = (k, v)" by (cases e)
  have "length (entry_bytes (if i mod ri = 0 then 0 else sharedPrefixLen prev k) k v) \<le> length k + length v + 30"
    using Cons.prems sharedPrefixLen_le [of prev k] by (intro length_entry_bytes) (auto simp: e)
  then show ?case using Cons.IH [of "Suc i" k] Cons.prems by (simp add: e)
qed simp

lemma length_blk_restarts: "0 < ri \<Longrightarrow> length (blk_restarts ri es) \<le> length es"
proof -
  assume ri: "0 < ri"
  have "(length es + ri - 1) div ri \<le> length es"
  proof (cases es)
    case (Cons e es')
    have "length es + ri - 1 \<le> length es * ri" using ri Cons by (cases ri) auto
    then have "(length es + ri - 1) div ri \<le> length es * ri div ri" by (rule div_le_mono)
    then show ?thesis using ri by simp
  qed (use ri in simp)
  then show ?thesis by (simp add: blk_restarts_def)
qed

lemma framed_cost:
  assumes "0 < ri" "es \<noteq> []" "table_cost es < 2 ^ 64"
  shows "length (framed (blk_bytes ri es)) \<le> table_cost es"
proof -
  have "length (blk_bytes ri es) = length (concat (pieces ri 0 [] es)) + 4 * length (blk_restarts ri es) + 4"
    using assms(2) by (simp add: blk_bytes_def blk_def length_concat_put_u32)
  moreover have "1 \<le> length es" using assms(2) by (cases es) auto
  ultimately show ?thesis using pieces_cost [OF assms(3), of ri 0 "[]"] length_blk_restarts [OF assms(1), of es] by simp
qed

lemma data_cost:
  assumes "0 < ri" "[] \<notin> set blks" "table_cost (concat blks) < 2 ^ 64"
  shows "length (data_bytes ri blks) \<le> table_cost (concat blks)"
  using assms(2,3)
proof (induction blks)
  case (Cons b blks)
  have "length (framed (blk_bytes ri b)) \<le> table_cost b" using Cons.prems by (intro framed_cost [OF assms(1)]) auto
  then show ?case using Cons by (simp add: data_bytes_def)
qed (simp add: data_bytes_def)

lemma index_cost:
  assumes "0 < ri" "[] \<notin> set blks" "off + table_cost (concat blks) < 2 ^ 64"
  shows "table_cost (map2 (\<lambda>b h. (fst (last b), handle_append h [])) blks (handles ri off blks)) \<le> table_cost (concat blks) + 20 * length blks"
  using assms(2,3)
proof (induction blks arbitrary: off)
  case (Cons b blks)
  have f: "length (framed (blk_bytes ri b)) \<le> table_cost b" using Cons.prems by (intro framed_cost [OF assms(1)]) auto
  have "length (put_uvarint off) \<le> 10" "length (put_uvarint (length (blk_bytes ri b))) \<le> 10"
    using Cons.prems f by (auto intro!: length_put_uvarint_le)
  moreover have "length (fst (last b)) + 60 \<le> table_cost b"
  proof (cases b rule: rev_cases)
    case (snoc ys y)
    then show ?thesis by simp
  qed (use Cons.prems in simp)
  ultimately show ?case using Cons.IH [of "off + length (framed (blk_bytes ri b))"] Cons.prems f by (simp add: handle_append_def)
qed simp

lemma index_buf_cost:
  assumes "0 < ri" "[] \<notin> set blks" "table_cost (concat blks) < 2 ^ 32"
  shows "length (concat (pieces 1 0 [] (block_index ri blks))) + 10 * length blks \<le> table_cost (concat blks)"
proof -
  have "length blks \<le> table_cost (concat blks)" using assms(2)
  proof (induction blks)
    case (Cons b blks)
    then have "1 \<le> table_cost b" by (cases b) auto
    then show ?case using Cons by simp
  qed simp
  moreover have ix: "table_cost (block_index ri blks) \<le> table_cost (concat blks) + 20 * length blks"
    using index_cost [OF assms(1,2), of 0] assms(3) by (simp add: block_index_def)
  ultimately have "table_cost (block_index ri blks) < 2 ^ 64" using assms(3) by simp
  moreover have "length (block_index ri blks) = length blks" by (simp add: block_index_def)
  ultimately show ?thesis using pieces_cost [of "block_index ri blks" 1 0 "[]"] ix by simp
qed

definition no_faults :: writes where "no_faults = (\<lambda>_. None)"

lemma writeBlock_no_faults: "\<exists>h w'. writeBlock no_faults c w = (Inr h, w')"
  by (simp add: writeBlock_def dst_write_def no_faults_def Let_def)

lemma flush_succeeds:
  assumes "wr_inv w blks pend" "table_cost (concat blks @ pend) < 2 ^ 32"
  shows "\<exists>w'. flushDataBlock no_faults w = (Inr (), w')"
proof (cases "block_empty (sw_data w)")
  case False
  let ?ri = "nat (wo_RestartInterval (sw_opts w))"
  have i: "0 < ?ri" "built 1 (block_index ?ri blks) (sw_index w)" "[] \<notin> set blks" using assms(1) by (simp_all add: wr_inv_def Let_def)
  obtain c d where f: "block_finish (sw_data w) = (c, d)" by fastforce
  obtain h w1 where w1: "writeBlock no_faults c (w\<lparr>sw_data := d\<rparr>) = (Inr h, w1)" using writeBlock_no_faults by blast
  have "length (concat (pieces 1 0 [] (block_index ?ri blks))) \<le> MaxU32" using index_buf_cost [OF i(1,3)] assms(2) by simp
  then have "\<not> bb_overflowed (block_add k v (sw_index w1))" for k v
    using i(2) writeBlock_Inr [OF w1] by (simp add: block_add_overflow built_def)
  then show ?thesis using False f w1 by (simp add: flushDataBlock_def Let_def)
qed (simp add: flushDataBlock_def)

lemma add_succeeds:
  assumes "wr_inv w blks pend" "\<not> sw_done w" "key_sorted (concat blks @ pend @ [(k, v)])" "valid_ikey k"
    "table_cost (concat blks @ pend @ [(k, v)]) < 2 ^ 32"
  shows "\<exists>w'. Writer_Add no_faults k v w = (Inr (), w')"
proof -
  let ?ri = "nat (wo_RestartInterval (sw_opts w))" and ?es = "concat blks @ pend"
  have e: "sw_err w = None" "NumEntries (sw_props w) = length ?es" "sw_lastKey w = last_key [] ?es" "built ?ri pend (sw_data w)"
    using assms(1) by (simp_all add: wr_inv_def Let_def)
  have k: "8 \<le> length k" using assms(4) by (simp add: valid_ikey_def)
  have c: "\<not> (0 < NumEntries (sw_props w) \<and> Compare k (sw_lastKey w) \<le> 0)"
  proof (cases ?es rule: rev_cases)
    case (snoc ys y)
    have "key_sorted ((concat blks @ pend) @ [(k, v)])" using assms(3) by simp
    then show ?thesis unfolding e(3) snoc by (simp add: key_sorted_append not_le)
  qed (use e in simp)
  have "length (concat (pieces ?ri 0 [] pend)) \<le> MaxU32" using pieces_cost [of pend ?ri 0 "[]"] assms(5) by simp
  then have o: "\<not> bb_overflowed (block_add k v (sw_data w))" using e(4) by (simp add: block_add_overflow built_def)
  have i: "wr_inv (staged k v w) blks (pend @ [(k, v)])" by (rule staged_inv [OF assms(1) k c o])
  obtain w1 where "flushDataBlock no_faults (staged k v w) = (Inr (), w1)" using flush_succeeds [OF i] assms(5) by auto
  then show ?thesis unfolding Writer_Add_accepts [OF e(1)] using assms(2) k c o by auto
qed

lemma add_all_succeeds:
  assumes "wr_inv w blks pend" "\<not> sw_done w" "key_sorted (concat blks @ pend @ es)" "\<forall>e\<in>set es. valid_ikey (fst e)"
    "table_cost (concat blks @ pend @ es) < 2 ^ 32"
  shows "\<exists>w'. add_all no_faults es w = (Inr (), w')"
  using assms
proof (induction es arbitrary: w blks pend)
  case (Cons e es)
  obtain k v where e: "e = (k, v)" by (cases e)
  have s: "key_sorted ((concat blks @ pend @ [(k, v)]) @ es)" using Cons.prems(3) by (simp add: e)
  obtain w1 where w1: "Writer_Add no_faults k v w = (Inr (), w1)"
    using add_succeeds [OF Cons.prems(1,2), of k v] s Cons.prems(4,5) unfolding key_sorted_append e by auto
  obtain b1 p1 where i: "wr_inv w1 b1 p1" "concat b1 @ p1 = concat blks @ pend @ [(k, v)]" "sw_done w1 = sw_done w"
    using add_inv [OF Cons.prems(1) w1] by blast
  have "concat b1 @ p1 @ es = concat blks @ pend @ e # es" using i(2) by (metis append.assoc append_Cons append_Nil e)
  note c = this
  have "\<exists>w'. add_all no_faults es w1 = (Inr (), w')"
  proof (rule Cons.IH [OF i(1)])
    show "\<not> sw_done w1" using i(3) Cons.prems(2) by simp
    show "key_sorted (concat b1 @ p1 @ es)" "table_cost (concat b1 @ p1 @ es) < 2 ^ 32" unfolding c by (fact Cons.prems(3,5))+
  qed (use Cons.prems(4) in simp)
  then show ?case using w1 by (simp add: e)
qed simp

lemma finish_succeeds:
  assumes "wr_inv w blks pend" "\<not> sw_done w" "table_cost (concat blks @ pend) < 2 ^ 32"
    "(length (concat blks @ pend) * nat (wo_BitsPerKey (sw_opts w)) + 7) div 8 * 8 < 2 ^ 32"
  shows "\<exists>p w'. Finish no_faults w = Some (Inr p, w')"
proof -
  have i0: "wr_inv (w\<lparr>sw_done := True\<rparr>) blks pend" "sw_err w = None" using assms(1) by (simp_all add: wr_inv_def Let_def)
  obtain w1 where w1: "flushDataBlock no_faults (w\<lparr>sw_done := True\<rparr>) = (Inr (), w1)" using flush_succeeds [OF i0(1) assms(3)] by blast
  have "length (sw_hashes w1) = length (concat blks @ pend)" "sw_opts w1 = sw_opts w"
    using flush_inv [OF i0(1) w1] by (auto simp: wr_inv_def Let_def split: if_splits)
  then obtain f where f: "buildBloom (sw_hashes w1) (nat (wo_BitsPerKey (sw_opts w1))) = Some f"
    "\<not> (length (sw_hashes w1) * nat (wo_BitsPerKey (sw_opts w1)) + 7) div 8 * 8 \<ge> 2 ^ 32"
    using buildBloom_total assms(4) by (metis not_le)
  obtain h1 w2 where w2: "writeBlock no_faults f w1 = (Inr h1, w2)" using writeBlock_no_faults by blast
  obtain c d where cd: "block_finish (sw_index w2) = (c, d)" by fastforce
  obtain h2 w3 where w3: "writeBlock no_faults c (w2\<lparr>sw_index := d\<rparr>) = (Inr h2, w3)" using writeBlock_no_faults by blast
  show ?thesis unfolding Finish_def Let_def using i0(2) assms(2) w1 f w2 cd w3 by (simp add: dst_write_def no_faults_def)
qed

lemma write_table_succeeds:
  assumes "key_sorted es" "\<forall>e\<in>set es. valid_ikey (fst e)" "table_cost es < 2 ^ 32"
    "(length es * nat (wo_BitsPerKey (writer_defaults opts)) + 7) div 8 * 8 < 2 ^ 32"
  shows "\<exists>p w. write_table no_faults opts es = Some (Inr p, w)"
proof -
  have d: "\<not> sw_done (NewWriter opts)" "sw_opts (NewWriter opts) = writer_defaults opts" by (simp_all add: NewWriter_def Let_def)
  obtain w where w: "add_all no_faults es (NewWriter opts) = (Inr (), w)"
    using add_all_succeeds [OF wr_inv_new d(1)] assms(1-3) by auto
  obtain b p where i: "wr_inv w b p" "concat b @ p = es" "sw_opts w = sw_opts (NewWriter opts)" "sw_done w = sw_done (NewWriter opts)"
    using add_all_inv [OF wr_inv_new w] by auto
  have "\<exists>pr w'. Finish no_faults w = Some (Inr pr, w')"
    using assms(3,4) d i(2-4) by (intro finish_succeeds [OF i(1)]) simp_all
  then show ?thesis using w by (simp add: write_table_def)
qed

section \<open>Failure\<close>

lemma writeBlock_keeps_err: "sw_err (snd (writeBlock io c w)) = sw_err w"
  by (auto simp: writeBlock_def dst_write_def Let_def split: option.splits)

lemma flush_error: "flushDataBlock io w = (Inl e, w') \<Longrightarrow> sw_err w = None \<Longrightarrow> sw_err w' = Some e"
  using writeBlock_keeps_err [of io "fst (block_finish (sw_data w))" "w\<lparr>sw_data := snd (block_finish (sw_data w))\<rparr>"]
  by (auto simp: flushDataBlock_def sw_fail_def Let_def split: prod.splits sum.splits if_splits)

lemma Writer_Add_error:
  assumes "Writer_Add io k v w = (Inl e, w')" "sw_err w = None" "\<not> sw_done w"
  shows "sw_err w' = Some e"
  using assms unfolding Writer_Add_def Let_def by (auto simp: sw_fail_def split: if_splits intro: flush_error)

lemma writer_stuck: "sw_err w = Some e \<Longrightarrow> Writer_Add io k v w = (Inl e, w) \<and> Finish io w = Some (Inl e, w)"
  by (simp add: Writer_Add_def Finish_def)

text \<open>
  C31. The table writer fails stop.  After any entries were accepted, a key without a trailer and a key
  not above the last one are refused with their own errors; and once an addition has failed, for these
  or for any I/O reason, every later addition and the final flush return that same error, write nothing
  and leave the writer as it is, so a damaged table is never finished.
\<close>

theorem writer_fail_stop:
  assumes "add_all io es (NewWriter opts) = (Inr (), w)"
  shows "(length k < 8 \<longrightarrow> fst (Writer_Add io k v w) = Inl (KeyTooShort k))
    \<and> (8 \<le> length k \<and> es \<noteq> [] \<and> \<not> ikey_rank (fst (last es)) < ikey_rank k \<longrightarrow> fst (Writer_Add io k v w) = Inl (ErrOutOfOrder k (fst (last es))))
    \<and> (Writer_Add io k v w = (Inl e, w') \<longrightarrow> Writer_Add io' k' v' w' = (Inl e, w') \<and> Finish io' w' = Some (Inl e, w'))"
proof -
  obtain b p where i: "wr_inv w b p" "concat b @ p = es" "sw_done w = sw_done (NewWriter opts)"
    using add_all_inv [OF wr_inv_new assms] by auto
  have w: "sw_err w = None" "\<not> sw_done w" "NumEntries (sw_props w) = length es" "sw_lastKey w = last_key [] es"
    using i by (auto simp: wr_inv_def Let_def NewWriter_def)
  show ?thesis using w Writer_Add_error [of io k v w e w'] writer_stuck [of w' e]
    by (auto simp: Writer_Add_def sw_fail_def last_key_def not_less)
qed

theorem writer_fail_stop_witness:
  "\<exists>w. Writer_Add no_faults (enc_ikey [97] 1 KindPut) [] (NewWriter \<lparr>wo_BlockSize = 0, wo_RestartInterval = 0, wo_BitsPerKey = 0\<rparr>) = (Inr (), w)
    \<and> fst (Writer_Add no_faults [1] [] w) = Inl (KeyTooShort [1])
    \<and> fst (Writer_Add no_faults (enc_ikey [97] 1 KindPut) [] w) = Inl (ErrOutOfOrder (enc_ikey [97] 1 KindPut) (enc_ikey [97] 1 KindPut))"
proof -
  let ?o = "\<lparr>wo_BlockSize = 0, wo_RestartInterval = 0, wo_BitsPerKey = 0\<rparr>" and ?k = "enc_ikey [97] 1 KindPut"
  obtain w where w: "Writer_Add no_faults ?k [] (NewWriter ?o) = (Inr (), w)"
    using add_succeeds [OF wr_inv_new, of ?o ?k "[]"] by (auto simp: NewWriter_def Let_def valid_ikey_def)
  then have a: "add_all no_faults [(?k, [])] (NewWriter ?o) = (Inr (), w)" by simp
  have "fst (Writer_Add no_faults [1] [] w) = Inl (KeyTooShort [1])"
    by (rule mp [OF conjunct1 [OF writer_fail_stop [OF a, of "[1]" "[]"]]]) simp
  moreover have "fst (Writer_Add no_faults ?k [] w) = Inl (ErrOutOfOrder ?k (fst (last [(?k, [] :: bytes)])))"
    by (rule mp [OF conjunct1 [OF conjunct2 [OF writer_fail_stop [OF a, of ?k "[]"]]]]) simp
  moreover have "fst (last [(?k, [] :: bytes)]) = ?k" by simp
  ultimately show ?thesis using w by (intro exI [of _ w] conjI) (assumption | simp only:)+
qed

end
