(* ===== verification/SstReader.thy ===== *)
theory SstReader
  imports SstBlock SstBloom
begin

text \<open>
  Reading a table, \<^verbatim>\<open>src/internal/sstable/reader.go\<close> and \<^verbatim>\<open>iterator.go\<close>.  The source of bytes is the
  \<^verbatim>\<open>io.ReaderAt\<close> a reader is given, a parameter: from an offset and a length to an error or the bytes
  read.  Opening, point reads and iteration are total on every source that honours that interface, however
  damaged its bytes are: no operation panics or runs forever.
\<close>

section \<open>Opening a table\<close>

type_synonym ReaderAt = "nat \<Rightarrow> nat \<Rightarrow> string + bytes"

record indexEntry =
  ie_lastKey :: bytes
  ie_handle :: blockHandle

record Reader =
  r_src :: ReaderAt
  r_size :: nat
  r_index :: "indexEntry list"
  r_filter :: bytes

definition handle_end :: "blockHandle \<Rightarrow> nat" where
  "handle_end h = (h_offset h + h_length h + blockTrailerLen) mod 2 ^ 64"

definition MaxInt32 :: nat where "MaxInt32 = 2 ^ 31 - 1"

definition readBlock :: "blockHandle \<Rightarrow> region \<Rightarrow> ReaderAt \<Rightarrow> nat \<Rightarrow> sst_error + bytes" where
  "readBlock h rg src sz =
     (if h_length h > MaxInt32 then Inl (HandleLength rg (h_length h))
      else if handle_end h < h_offset h \<or> handle_end h > sz - footerLen then Inl (HandleRange rg (h_offset h) (handle_end h))
      else case src (h_offset h) (h_length h + blockTrailerLen) of
        Inl e \<Rightarrow> Inl (ReadBlock rg e)
      | Inr buf \<Rightarrow>
          let contents = take (h_length h) buf;
              want = get_u32 (drop (h_length h) buf)
          in if unat (crc_checksum contents) \<noteq> want then Inl (BlockChecksum rg) else Inr contents)"

partial_function (option) index_loop :: "nat \<Rightarrow> blockIter \<Rightarrow> indexEntry list \<Rightarrow> (sst_error + (blockIter \<times> indexEntry list)) option" where
  "index_loop sz it acc =
     (if \<not> bi_valid it then Some (Inr (it, acc))
      else if bi_lastShared it \<noteq> 0 then Some (Inl IndexNotFull)
      else case decodeBlockHandle (bi_value it) of
        None \<Rightarrow> Some (Inl IndexHandle)
      | Some (h, rest) \<Rightarrow>
          if rest \<noteq> [] then Some (Inl IndexHandle)
          else if handle_end h < h_offset h \<or> handle_end h > sz - footerLen then Some (Inl IndexHandleRange)
          else do {
            c \<leftarrow> (if acc = [] then Some (-1) else compare_keys (ie_lastKey (last acc)) (bi_key it));
            if c \<ge> 0 then Some (Inl IndexOrder)
            else do {
              it' \<leftarrow> decodeNext it;
              index_loop sz it' (acc @ [\<lparr>ie_lastKey = bi_key it, ie_handle = h\<rparr>])
            }
          })"

definition parseIndexBlock :: "bytes \<Rightarrow> nat \<Rightarrow> (sst_error + indexEntry list) option" where
  "parseIndexBlock contents sz =
     (case parseBlock contents IndexRegion of
        Inl e \<Rightarrow> Some (Inl e)
      | Inr pb \<Rightarrow> do {
          it \<leftarrow> bi_first (newBlockIter pb IndexRegion);
          res \<leftarrow> index_loop sz it [];
          case res of
            Inl e \<Rightarrow> Some (Inl e)
          | Inr (it, index) \<Rightarrow>
              (case bi_err it of
                 Some e \<Rightarrow> Some (Inl e)
               | None \<Rightarrow>
                   let emptyOK = (index = [] \<and> length (pb_restarts pb) = 1) in
                   if length index \<noteq> length (pb_restarts pb) \<and> \<not> emptyOK
                   then Some (Inl (IndexCount (length (pb_restarts pb)) (length index))) else Some (Inr index))
        })"

definition NewReader :: "ReaderAt \<Rightarrow> nat \<Rightarrow> (sst_error + Reader) option" where
  "NewReader src sz =
     (if sz < footerLen then Some (Inl (NoFooter sz))
      else case src (sz - footerLen) footerLen of
        Inl e \<Rightarrow> Some (Inl (ReadFooter e))
      | Inr ftrBuf \<Rightarrow>
          (case decodeFooter ftrBuf of
             Inl e \<Rightarrow> Some (Inl (FooterError e))
           | Inr ftr \<Rightarrow>
               (case readBlock (ft_filter ftr) FilterRegion src sz of
                  Inl e \<Rightarrow> Some (Inl e)
                | Inr flt \<Rightarrow>
                    (case readBlock (ft_index ftr) IndexRegion src sz of
                       Inl e \<Rightarrow> Some (Inl e)
                     | Inr indexContents \<Rightarrow> do {
                         res \<leftarrow> parseIndexBlock indexContents sz;
                         case res of
                           Inl e \<Rightarrow> Some (Inl e)
                         | Inr index \<Rightarrow> Some (Inr \<lparr>r_src = src, r_size = sz, r_index = index, r_filter = flt\<rparr>)
                       }))))"

section \<open>Point reads\<close>

text \<open>\<^verbatim>\<open>sort.Search\<close> with a predicate that may panic.\<close>

function search_opt :: "(nat \<Rightarrow> bool option) \<Rightarrow> nat \<Rightarrow> nat \<Rightarrow> nat option" where
  "search_opt f i j =
     (if i < j then
        let h = (i + j) div 2 in
        case f h of None \<Rightarrow> None | Some True \<Rightarrow> search_opt f i h | Some False \<Rightarrow> search_opt f (h + 1) j
      else Some i)"
  by pat_completeness auto
termination
  by (relation "measure (\<lambda>(f, i, j). j - i)") auto

declare search_opt.simps [simp del]

definition seekIndex :: "bytes \<Rightarrow> Reader \<Rightarrow> nat option" where
  "seekIndex target r =
     search_opt (\<lambda>i. do { c \<leftarrow> compare_keys (ie_lastKey (r_index r ! i)) target; Some (c \<ge> 0) }) 0 (length (r_index r))"

definition loadIter :: "nat \<Rightarrow> Reader \<Rightarrow> sst_error + blockIter" where
  "loadIter i r =
     (case readBlock (ie_handle (r_index r ! i)) (DataRegion i) (r_src r) (r_size r) of
        Inl e \<Rightarrow> Inl e
      | Inr contents \<Rightarrow>
          (case parseBlock contents (DataRegion i) of
             Inl e \<Rightarrow> Inl e
           | Inr pb \<Rightarrow> Inr (newBlockIter pb (DataRegion i))))"

definition Reader_Get :: "bytes \<Rightarrow> nat \<Rightarrow> Reader \<Rightarrow> (sst_error + (bytes \<times> nat) option) option" where
  "Reader_Get userKey seq r =
     (if \<not> bloomMayContain (r_filter r) (leveldbHash userKey) then Some (Inr None)
      else do {
        seek \<leftarrow> AppendSeekKey [] userKey seq;
        i \<leftarrow> seekIndex seek r;
        if i = length (r_index r) then Some (Inr None)
        else case loadIter i r of
          Inl e \<Rightarrow> Some (Inl e)
        | Inr it \<Rightarrow> do {
            it \<leftarrow> bi_seekGE seek it;
            case bi_err it of
              Some e \<Rightarrow> Some (Inl e)
            | None \<Rightarrow>
                if \<not> bi_valid it then Some (Inl (NoEntry i))
                else case DecodeInternalKey (bi_key it) of
                  Inl e \<Rightarrow> Some (Inl (EntryKey i e))
                | Inr ik \<Rightarrow>
                    if ik_UserKey ik \<noteq> userKey then Some (Inr None) else Some (Inr (Some (bi_value it, ik_Kind ik)))
          }
      })"

section \<open>Iteration\<close>

record sst_Iterator =
  si_r :: Reader
  si_blockIdx :: int
  si_bi :: "blockIter option"
  si_err :: "sst_error option"

definition sst_NewIterator :: "Reader \<Rightarrow> sst_Iterator" where
  "sst_NewIterator r = \<lparr>si_r = r, si_blockIdx = -1, si_bi = None, si_err = None\<rparr>"

definition si_fail :: "sst_error \<Rightarrow> sst_Iterator \<Rightarrow> sst_Iterator" where
  "si_fail e it = it\<lparr>si_err := (case si_err it of None \<Rightarrow> Some e | Some e \<Rightarrow> Some e), si_bi := None\<rparr>"

text \<open>\<open>None\<close> is an index out of range; the block iterator is absent when loading failed.\<close>

definition loadBlock :: "nat \<Rightarrow> sst_Iterator \<Rightarrow> (blockIter option \<times> sst_Iterator) option" where
  "loadBlock i it =
     (if i < length (r_index (si_r it))
      then case loadIter i (si_r it) of
        Inl e \<Rightarrow> Some (None, si_fail e it)
      | Inr bi \<Rightarrow> Some (Some bi, it\<lparr>si_blockIdx := int i\<rparr>)
      else None)"

definition settle :: "blockIter \<Rightarrow> sst_Iterator \<Rightarrow> sst_Iterator option" where
  "settle bi it =
     (case bi_err bi of
        Some e \<Rightarrow> Some (si_fail e it)
      | None \<Rightarrow>
          if bi_valid bi then Some (it\<lparr>si_bi := Some bi\<rparr>)
          else if si_blockIdx it + 1 \<ge> int (length (r_index (si_r it))) then Some (it\<lparr>si_bi := None\<rparr>)
          else do {
            (b, it) \<leftarrow> loadBlock (nat (si_blockIdx it + 1)) it;
            case b of
              None \<Rightarrow> Some it
            | Some next \<Rightarrow> do {
                next \<leftarrow> bi_first next;
                case bi_err next of
                  Some e \<Rightarrow> Some (si_fail e it)
                | None \<Rightarrow>
                    if \<not> bi_valid next then Some (si_fail (EmptyBlock (nat (si_blockIdx it))) it)
                    else Some (it\<lparr>si_bi := Some next\<rparr>)
              }
          })"

definition si_First :: "sst_Iterator \<Rightarrow> sst_Iterator option" where
  "si_First it =
     (if si_err it \<noteq> None then Some it
      else
        let it = it\<lparr>si_bi := None\<rparr> in
        if r_index (si_r it) = [] then Some it
        else do {
          (b, it) \<leftarrow> loadBlock 0 it;
          case b of None \<Rightarrow> Some it | Some bi \<Rightarrow> do { bi \<leftarrow> bi_first bi; settle bi it }
        })"

definition si_Valid :: "sst_Iterator \<Rightarrow> bool" where
  "si_Valid it \<longleftrightarrow> si_err it = None \<and> (case si_bi it of None \<Rightarrow> False | Some bi \<Rightarrow> bi_valid bi)"

definition si_SeekGE :: "bytes \<Rightarrow> sst_Iterator \<Rightarrow> sst_Iterator option" where
  "si_SeekGE key it =
     (if si_err it \<noteq> None then Some it
      else do {
        let it = it\<lparr>si_bi := None\<rparr>;
        i \<leftarrow> seekIndex key (si_r it);
        if i = length (r_index (si_r it)) then Some it
        else do {
          (b, it) \<leftarrow> loadBlock i it;
          case b of
            None \<Rightarrow> Some it
          | Some bi \<Rightarrow> do {
              bi \<leftarrow> bi_seekGE key bi;
              it \<leftarrow> settle bi it;
              if si_Valid it then do {
                bi \<leftarrow> si_bi it;
                c \<leftarrow> compare_keys (bi_key bi) key;
                if c < 0 then Some (si_fail (IndexOutOfSync (nat (si_blockIdx it))) it) else Some it
              } else Some it
            }
        }
      })"

definition si_Next :: "sst_Iterator \<Rightarrow> sst_Iterator option" where
  "si_Next it = do { bi \<leftarrow> si_bi it; bi \<leftarrow> bi_next bi; settle bi it }"

definition sst_iterator :: "(sst_Iterator, sst_error) internalIterator" where
  "sst_iterator = \<lparr>io_First = si_First, io_SeekGE = si_SeekGE, io_Next = si_Next, io_Valid = si_Valid,
     io_Key = \<lambda>it. map_option bi_key (si_bi it), io_Value = \<lambda>it. map_option bi_value (si_bi it), io_Error = si_err\<rparr>"

section \<open>No panic on any source\<close>

lemma search_opt_eq:
  assumes "\<And>k. k < j \<Longrightarrow> f k = Some (g k)"
  shows "search_opt f i j = Some (search_loop g i j)"
  using assms
proof (induction f i j rule: search_opt.induct)
  case (1 f i j)
  show ?case
  proof (cases "i < j")
    case True
    define h where "h = (i + j) div 2"
    have h: "h < j" using True by (simp add: h_def)
    then have fh: "f h = Some (g h)" using "1.prems" by simp
    have "g h \<Longrightarrow> search_opt f i h = Some (search_loop g i h)" "\<not> g h \<Longrightarrow> search_opt f (h + 1) j = Some (search_loop g (h + 1) j)"
      using "1.IH" [OF True h_def] fh "1.prems" h by auto
    then show ?thesis using True fh by (subst search_opt.simps, subst search_loop.simps) (auto simp: Let_def simp flip: h_def)
  qed (subst search_opt.simps, subst search_loop.simps, simp)
qed

lemma search_loop_le: "i \<le> j \<Longrightarrow> search_loop f i j \<le> j"
proof (induction f i j rule: search_loop.induct)
  case (1 f i j)
  show ?case
  proof (cases "i < j")
    case True
    define h where "h = (i + j) div 2"
    have h: "i \<le> h" "h < j" using True by (auto simp: h_def)
    show ?thesis using True h "1.IH" [OF True h_def]
      by (subst search_loop.simps) (auto simp: Let_def simp flip: h_def)
  next
    case False
    then show ?thesis using "1.prems" by (subst search_loop.simps) simp
  qed
qed

definition reader_ok :: "Reader \<Rightarrow> bool" where
  "reader_ok r \<longleftrightarrow> (\<forall>e\<in>set (r_index r). valid_ikey (ie_lastKey e))"

lemma index_loop_total:
  assumes "bi_ok it" "\<forall>e\<in>set acc. valid_ikey (ie_lastKey e)"
  shows "\<exists>res. index_loop sz it acc = Some res \<and> (\<forall>it' ix. res = Inr (it', ix) \<longrightarrow> (\<forall>e\<in>set ix. valid_ikey (ie_lastKey e)))"
  using assms
proof (induction "length (pb_entries (bi_b it)) - bi_nextOffset it" arbitrary: it acc rule: less_induct)
  case less
  show ?case
  proof (cases "bi_valid it \<and> bi_lastShared it = 0 \<and> (\<exists>h. decodeBlockHandle (bi_value it) = Some (h, [])
      \<and> \<not> (handle_end h < h_offset h \<or> handle_end h > sz - 48))")
    case True
    then obtain h where h: "decodeBlockHandle (bi_value it) = Some (h, [])" "\<not> (handle_end h < h_offset h \<or> handle_end h > sz - 48)" by blast
    have v: "bi_valid it" "valid_ikey (bi_key it)" "ok_block (bi_b it)" "bi_err it = None" "bi_nextOffset it \<le> length (pb_entries (bi_b it))"
      using True less.prems(1) by (auto simp: bi_ok_def)
    obtain c where c: "(if acc = [] then Some (-1) else compare_keys (ie_lastKey (last acc)) (bi_key it)) = Some c"
      using v(2) less.prems(2) by (cases "acc = []") (auto simp: compare_keys_def)
    obtain it' where d: "decodeNext it = Some it'" "bi_ok it'" "bi_b it' = bi_b it" "bi_valid it' \<longrightarrow> bi_nextOffset it < bi_nextOffset it'"
      using decodeNext_total [OF v(3,4)] by blast
    let ?acc = "acc @ [\<lparr>ie_lastKey = bi_key it, ie_handle = h\<rparr>]"
    have acc: "\<forall>e\<in>set ?acc. valid_ikey (ie_lastKey e)" using less.prems(2) v(2) by auto
    have "\<exists>res. index_loop sz it' ?acc = Some res \<and> (\<forall>it'' ix. res = Inr (it'', ix) \<longrightarrow> (\<forall>e\<in>set ix. valid_ikey (ie_lastKey e)))"
    proof (cases "bi_valid it'")
      case v': True
      then have "bi_nextOffset it' \<le> length (pb_entries (bi_b it'))" using d(2) by (simp add: bi_ok_def)
      then show ?thesis using v' d acc by (intro less.hyps) auto
    next
      case False
      then show ?thesis using acc by (subst index_loop.simps) auto
    qed
    then show ?thesis using True h c d(1) by (subst index_loop.simps) auto
  next
    case False
    then show ?thesis using less.prems(2) by (subst index_loop.simps) (auto split: option.splits)
  qed
qed

lemma parseIndexBlock_total:
  "\<exists>res. parseIndexBlock c sz = Some res \<and> (\<forall>ix. res = Inr ix \<longrightarrow> (\<forall>e\<in>set ix. valid_ikey (ie_lastKey e)))"
proof (cases "parseBlock c IndexRegion")
  case (Inr pb)
  have ok: "ok_block pb" by (rule parseBlock_ok [OF Inr])
  obtain it where it: "bi_first (newBlockIter pb IndexRegion) = Some it" "bi_ok it"
    using bi_first_total [of "newBlockIter pb IndexRegion"] ok by (auto simp: newBlockIter_def)
  obtain res where "index_loop sz it [] = Some res" "\<forall>it' ix. res = Inr (it', ix) \<longrightarrow> (\<forall>e\<in>set ix. valid_ikey (ie_lastKey e))"
    using index_loop_total [OF it(2), of "[]" sz] by auto
  then show ?thesis using Inr it(1) by (auto simp: parseIndexBlock_def Let_def split: sum.splits option.splits)
qed (simp add: parseIndexBlock_def)

lemma NewReader_total: "\<exists>res. NewReader src sz = Some res \<and> (\<forall>r. res = Inr r \<longrightarrow> reader_ok r)"
proof -
  have "\<exists>res'. (do { res \<leftarrow> parseIndexBlock c sz;
      case res of Inl e \<Rightarrow> Some (Inl e) | Inr index \<Rightarrow> Some (Inr \<lparr>r_src = src, r_size = sz, r_index = index, r_filter = flt\<rparr>) }) = Some res'
    \<and> (\<forall>r. res' = Inr r \<longrightarrow> reader_ok r)" for c flt
  proof -
    obtain res where "parseIndexBlock c sz = Some res" "\<forall>ix. res = Inr ix \<longrightarrow> (\<forall>e\<in>set ix. valid_ikey (ie_lastKey e))"
      using parseIndexBlock_total by blast
    then show ?thesis by (cases res) (auto simp: reader_ok_def)
  qed
  then show ?thesis unfolding NewReader_def by (auto split: sum.split)
qed

lemma seekIndex_total:
  assumes "reader_ok r" "valid_ikey target"
  shows "seekIndex target r = Some (sort_search (length (r_index r)) (\<lambda>i. \<not> ltk target (ie_lastKey (r_index r ! i), [])))"
    "sort_search (length (r_index r)) (\<lambda>i. \<not> ltk target (ie_lastKey (r_index r ! i), [])) \<le> length (r_index r)"
  using assms search_loop_le [of 0 "length (r_index r)"] unfolding seekIndex_def sort_search_def
  by (auto intro!: search_opt_eq simp: compare_keys_def reader_ok_def not_less)

lemma loadIter_ok: "loadIter i r = Inr bi \<Longrightarrow> ok_block (bi_b bi) \<and> bi_err bi = None \<and> \<not> bi_valid bi"
  by (auto simp: loadIter_def newBlockIter_def split: sum.splits dest: parseBlock_ok)

lemma Reader_Get_total:
  assumes "reader_ok r" "seq \<le> MaxSeq"
  shows "\<exists>res. Reader_Get uk seq r = Some res"
proof -
  let ?k = "enc_ikey uk seq maxKind"
  have k: "AppendSeekKey [] uk seq = Some ?k" "valid_ikey ?k"
    using AppendInternalKey_Some [OF assms(2), of maxKind "[]" uk] by (simp_all add: AppendSeekKey_def)
  show ?thesis
  proof (cases "\<exists>i bi. seekIndex ?k r = Some i \<and> i \<noteq> length (r_index r) \<and> loadIter i r = Inr bi")
    case True
    then obtain i bi where i: "seekIndex ?k r = Some i" "i \<noteq> length (r_index r)" "loadIter i r = Inr bi" by blast
    obtain bi' where "bi_seekGE ?k bi = Some bi'" using bi_seekGE_total [OF _ _ k(2)] loadIter_ok [OF i(3)] by blast
    then show ?thesis using k(1) i by (auto simp: Reader_Get_def split: option.split sum.split)
  next
    case False
    then show ?thesis using k seekIndex_total [OF assms(1) k(2)] by (auto simp: Reader_Get_def split: sum.split)
  qed
qed

text \<open>An iterator holds a block iterator only while that is valid, and stands at a block of the index.\<close>

definition si_ok :: "sst_Iterator \<Rightarrow> bool" where
  "si_ok it \<longleftrightarrow> reader_ok (si_r it) \<and> -1 \<le> si_blockIdx it
     \<and> (case si_bi it of None \<Rightarrow> True | Some bi \<Rightarrow> bi_ok bi \<and> bi_valid bi)"

lemma si_ok_new: "reader_ok r \<Longrightarrow> si_ok (sst_NewIterator r)"
  by (simp add: si_ok_def sst_NewIterator_def)

lemma si_fail_ok [simp]: "reader_ok (si_r it) \<Longrightarrow> -1 \<le> si_blockIdx it \<Longrightarrow> si_ok (si_fail e it)" "si_r (si_fail e it) = si_r it"
  "si_bi (si_fail e it) = None" "si_blockIdx (si_fail e it) = si_blockIdx it" "si_err (si_fail e it) \<noteq> None"
  by (auto simp: si_ok_def si_fail_def split: option.splits)

lemma loadBlock_total:
  assumes "i < length (r_index (si_r it))" "reader_ok (si_r it)" "-1 \<le> si_blockIdx it"
  shows "(\<exists>e. loadBlock i it = Some (None, si_fail e it))
    \<or> (\<exists>bi. loadBlock i it = Some (Some bi, it\<lparr>si_blockIdx := int i\<rparr>) \<and> ok_block (bi_b bi) \<and> bi_err bi = None \<and> \<not> bi_valid bi)"
  using assms loadIter_ok by (auto simp: loadBlock_def split: sum.split)

lemma settle_total:
  assumes "bi_ok bi" "reader_ok (si_r it)" "-1 \<le> si_blockIdx it"
  shows "\<exists>it'. settle bi it = Some it' \<and> si_ok it' \<and> si_r it' = si_r it"
proof (cases "bi_err bi = None \<and> \<not> bi_valid bi \<and> \<not> si_blockIdx it + 1 \<ge> int (length (r_index (si_r it)))")
  case True
  let ?i = "nat (si_blockIdx it + 1)"
  have i: "?i < length (r_index (si_r it))" using True assms(3) by linarith
  consider e where "loadBlock ?i it = Some (None, si_fail e it)"
    | b where "loadBlock ?i it = Some (Some b, it\<lparr>si_blockIdx := int ?i\<rparr>)" "ok_block (bi_b b)" "bi_err b = None"
    using loadBlock_total [OF i assms(2,3)] by blast
  then show ?thesis
  proof cases
    case 1
    then show ?thesis using True assms by (simp add: settle_def)
  next
    case 2
    obtain b' where b': "bi_first b = Some b'" "bi_ok b'" using bi_first_total [OF 2(2,3)] by blast
    define it1 where "it1 = it\<lparr>si_blockIdx := int ?i\<rparr>"
    have it1: "reader_ok (si_r it1)" "-1 \<le> si_blockIdx it1" "si_r it1 = si_r it" using assms(2) by (simp_all add: it1_def)
    have "settle bi it = (case bi_err b' of Some e \<Rightarrow> Some (si_fail e it1)
        | None \<Rightarrow> if \<not> bi_valid b' then Some (si_fail (EmptyBlock (nat (si_blockIdx it1))) it1) else Some (it1\<lparr>si_bi := Some b'\<rparr>))"
      using True 2(1) b'(1) unfolding settle_def it1_def [symmetric] by simp
    moreover have "bi_valid b' \<Longrightarrow> si_ok (it1\<lparr>si_bi := Some b'\<rparr>)" using it1 b'(2) by (simp add: si_ok_def)
    ultimately show ?thesis using it1 by (cases "bi_err b'") auto
  qed
next
  case False
  then show ?thesis using assms by (auto simp: settle_def si_ok_def split: option.splits)
qed

lemma si_First_total:
  assumes "si_ok it"
  shows "\<exists>it'. si_First it = Some it' \<and> si_ok it' \<and> si_r it' = si_r it"
proof (cases "si_err it \<noteq> None \<or> r_index (si_r it) = []")
  case True
  then show ?thesis using assms by (auto simp: si_First_def si_ok_def)
next
  case False
  let ?it = "it\<lparr>si_bi := None\<rparr>"
  have ok: "reader_ok (si_r ?it)" "-1 \<le> si_blockIdx ?it" "0 < length (r_index (si_r ?it))" using assms False by (auto simp: si_ok_def)
  consider e where "loadBlock 0 ?it = Some (None, si_fail e ?it)"
    | b where "loadBlock 0 ?it = Some (Some b, ?it\<lparr>si_blockIdx := int 0\<rparr>)" "ok_block (bi_b b)" "bi_err b = None"
    using loadBlock_total [OF ok(3,1,2)] by blast
  then show ?thesis
  proof cases
    case 1
    then show ?thesis using False ok by (simp add: si_First_def Let_def)
  next
    case 2
    obtain b' where b: "bi_first b = Some b'" "bi_ok b'" using bi_first_total [OF 2(2,3)] by blast
    obtain it' where "settle b' (?it\<lparr>si_blockIdx := int 0\<rparr>) = Some it'" "si_ok it'" "si_r it' = si_r it"
      using settle_total [OF b(2), of "?it\<lparr>si_blockIdx := int 0\<rparr>"] ok by auto
    then show ?thesis using 2(1) b(1) False by (simp add: si_First_def Let_def)
  qed
qed

lemma si_SeekGE_total:
  assumes "si_ok it" "valid_ikey key"
  shows "\<exists>it'. si_SeekGE key it = Some it' \<and> si_ok it' \<and> si_r it' = si_r it"
proof (cases "si_err it")
  case (Some e)
  then show ?thesis using assms by (simp add: si_SeekGE_def)
next
  case None
  let ?it = "it\<lparr>si_bi := None\<rparr>"
  have ok: "reader_ok (si_r ?it)" "-1 \<le> si_blockIdx ?it" using assms by (auto simp: si_ok_def)
  obtain i where i: "seekIndex key (si_r it) = Some i" "i \<le> length (r_index (si_r it))"
    using seekIndex_total [OF _ assms(2), of "si_r it"] ok by auto
  show ?thesis
  proof (cases "i = length (r_index (si_r it))")
    case True
    then show ?thesis using None i ok by (simp add: si_SeekGE_def Let_def si_ok_def)
  next
    case False
    then have lt: "i < length (r_index (si_r ?it))" using i(2) by simp
    consider e where "loadBlock i ?it = Some (None, si_fail e ?it)"
      | b where "loadBlock i ?it = Some (Some b, ?it\<lparr>si_blockIdx := int i\<rparr>)" "ok_block (bi_b b)" "bi_err b = None"
      using loadBlock_total [OF lt ok] by blast
    then show ?thesis
    proof cases
      case 1
      then show ?thesis using None i False ok by (simp add: si_SeekGE_def Let_def)
    next
      case 2
      obtain b' where b: "bi_seekGE key b = Some b'" "bi_ok b'" using bi_seekGE_total [OF 2(2,3) assms(2)] by blast
      obtain it' where s: "settle b' (?it\<lparr>si_blockIdx := int i\<rparr>) = Some it'" "si_ok it'" "si_r it' = si_r it"
        using settle_total [OF b(2), of "?it\<lparr>si_blockIdx := int i\<rparr>"] ok by auto
      show ?thesis
      proof (cases "si_Valid it'")
        case True
        then obtain b2 where b2: "si_bi it' = Some b2" "bi_valid b2" by (auto simp: si_Valid_def split: option.splits)
        then have "valid_ikey (bi_key b2)" using s(2) by (simp add: si_ok_def bi_ok_def)
        then show ?thesis using None i(1) False 2(1) b(1) s b2(1) True assms(2)
          by (auto simp: si_SeekGE_def Let_def compare_keys_def si_ok_def si_fail_def)
      next
        case v: False
        then show ?thesis using None i(1) False 2(1) b(1) s by (simp add: si_SeekGE_def Let_def)
      qed
    qed
  qed
qed

lemma si_Next_total:
  assumes "si_ok it" "si_Valid it"
  shows "\<exists>it'. si_Next it = Some it' \<and> si_ok it' \<and> si_r it' = si_r it"
proof -
  obtain b where b: "si_bi it = Some b" "bi_ok b" "bi_valid b" using assms by (auto simp: si_Valid_def si_ok_def split: option.splits)
  obtain b' where "bi_next b = Some b'" "bi_ok b'" using bi_next_total [OF b(2,3)] by blast
  then show ?thesis using settle_total [of b' it] b(1) assms(1) by (auto simp: si_Next_def si_ok_def)
qed

text \<open>Any use of an iterator: positioning calls in any order, \<^verbatim>\<open>Next\<close> only while it is valid.\<close>

datatype iter_call = CallFirst | CallSeek bytes | CallNext

fun run_calls :: "iter_call list \<Rightarrow> sst_Iterator \<Rightarrow> sst_Iterator option" where
  "run_calls [] it = Some it"
| "run_calls (CallFirst # cs) it = si_First it \<bind> run_calls cs"
| "run_calls (CallSeek k # cs) it = si_SeekGE k it \<bind> run_calls cs"
| "run_calls (CallNext # cs) it = (if si_Valid it then si_Next it \<bind> run_calls cs else run_calls cs it)"

lemma run_calls_total:
  assumes "si_ok it" "\<forall>k. CallSeek k \<in> set cs \<longrightarrow> valid_ikey k"
  shows "\<exists>it'. run_calls cs it = Some it' \<and> si_ok it'"
  using assms
proof (induction cs it rule: run_calls.induct)
  case (2 cs it)
  obtain it' where "si_First it = Some it'" "si_ok it'" using si_First_total [OF "2.prems"(1)] by blast
  then show ?case using "2.IH" "2.prems"(2) by simp
next
  case (3 k cs it)
  obtain it' where "si_SeekGE k it = Some it'" "si_ok it'" using si_SeekGE_total [OF "3.prems"(1)] "3.prems"(2) by auto
  then show ?case using "3.IH" "3.prems"(2) by simp
next
  case (4 cs it)
  show ?case
  proof (cases "si_Valid it")
    case True
    then obtain it' where "si_Next it = Some it'" "si_ok it'" using si_Next_total [OF "4.prems"(1)] by blast
    then show ?thesis using True "4.IH"(1) [OF True] "4.prems"(2) by simp
  qed (use 4 in simp)
qed simp

text \<open>
  C30. A damaged table cannot crash the reader.  Whatever bytes or errors the file returns, opening it,
  reading any key from it and iterating over it in any order of calls always end with a result or an
  error: no index out of range, no endless loop, no comparison of a key without a trailer; and the key
  and value of a valid iterator can always be read.
\<close>

theorem table_reader_never_panics:
  assumes "seq \<le> MaxSeq" "\<forall>k. CallSeek k \<in> set cs \<longrightarrow> valid_ikey k"
  shows "\<exists>res. NewReader src sz = Some res
    \<and> (\<forall>r. res = Inr r \<longrightarrow> Reader_Get uk seq r \<noteq> None
        \<and> (\<exists>it. run_calls cs (sst_NewIterator r) = Some it \<and> (si_Valid it \<longrightarrow> io_Key sst_iterator it \<noteq> None \<and> io_Value sst_iterator it \<noteq> None)))"
proof -
  obtain res where res: "NewReader src sz = Some res" "\<And>r. res = Inr r \<Longrightarrow> reader_ok r" using NewReader_total by blast
  have "Reader_Get uk seq r \<noteq> None \<and> (\<exists>it. run_calls cs (sst_NewIterator r) = Some it
      \<and> (si_Valid it \<longrightarrow> io_Key sst_iterator it \<noteq> None \<and> io_Value sst_iterator it \<noteq> None))" if "res = Inr r" for r
  proof -
    have ok: "reader_ok r" by (rule res(2) [OF that])
    obtain it where "run_calls cs (sst_NewIterator r) = Some it" using run_calls_total [OF si_ok_new [OF ok] assms(2)] by blast
    then show ?thesis using Reader_Get_total [OF ok assms(1), of uk] by (auto simp: sst_iterator_def si_Valid_def split: option.splits)
  qed
  then show ?thesis using res(1) by blast
qed

end
