(* ===== verification/Sstable.thy ===== *)
theory Sstable
  imports SstWriter SstReader
begin

text \<open>
  The table format as a whole: what \<^verbatim>\<open>writer.go\<close> writes, \<^verbatim>\<open>reader.go\<close> and \<^verbatim>\<open>iterator.go\<close> read back.
  \<open>tbl_reader\<close> says what a reader opened on a finished table knows; the table iterator is shown to meet
  the iterator interface, point reads to return the newest visible version, and a table with an oversized
  value to be written but never read.
\<close>

section \<open>Opening a finished table\<close>

text \<open>The documented behaviour of \<^verbatim>\<open>io.ReaderAt\<close> on an intact file.\<close>

definition serves :: "ReaderAt \<Rightarrow> bytes \<Rightarrow> bool" where
  "serves src file \<longleftrightarrow> (\<forall>off n. off + n \<le> length file \<longrightarrow> src off n = Inr (take n (drop off file)))"

definition file_src :: "bytes \<Rightarrow> ReaderAt" where
  "file_src file off n = (if off + n \<le> length file then Inr (take n (drop off file)) else Inl ''EOF'')"

lemma serves_file_src: "serves (file_src file) file"
  by (simp add: serves_def file_src_def)

lemma readBlock_framed:
  assumes "serves src file" "file = A @ framed c @ B" "48 \<le> length B" "length file < 2 ^ 63" "length c \<le> MaxInt32"
  shows "readBlock \<lparr>h_offset = length A, h_length = length c\<rparr> rg src (length file) = Inr c"
proof -
  let ?h = "\<lparr>h_offset = length A, h_length = length c\<rparr>"
  have len: "length file = length A + length c + 4 + length B" using assms(2) by simp
  then have e: "handle_end ?h = length A + length c + 4" using assms(4) by (simp add: handle_end_def)
  have "src (length A) (length c + 4) = Inr (framed c)" using assms(1,2) len by (simp add: serves_def framed_def)
  moreover have "get_u32 (drop (length c) (framed c)) = unat (crc_checksum c)"
    using get_u32_put [OF sst_crc_less, of c "[]"] by (simp add: framed_def)
  ultimately show ?thesis using e len assms(3,5) by (simp add: readBlock_def Let_def framed_def)
qed

definition index_of :: "nat \<Rightarrow> entry list list \<Rightarrow> nat \<Rightarrow> indexEntry list" where
  "index_of ri blks off = map2 (\<lambda>b h. \<lparr>ie_lastKey = fst (last b), ie_handle = h\<rparr>) blks (handles ri off blks)"

definition ientries :: "nat \<Rightarrow> entry list list \<Rightarrow> nat \<Rightarrow> entry list" where
  "ientries ri blks off = map2 (\<lambda>b h. (fst (last b), handle_append h [])) blks (handles ri off blks)"

lemma index_loop_over:
  assumes "good_blk 1 es" "bi_over 1 es it (ientries ri blks off)" "off + length (data_bytes ri blks) + 48 \<le> sz" "sz < 2 ^ 63"
    "\<forall>e\<in>set acc. valid_ikey (ie_lastKey e)" "\<forall>b\<in>set blks. valid_ikey (fst (last b))"
    "sorted_wrt (\<lambda>a b. ikey_rank a < ikey_rank b) (map ie_lastKey acc @ map (\<lambda>b. fst (last b)) blks)"
  shows "\<exists>it'. index_loop sz it acc = Some (Inr (it', acc @ index_of ri blks off)) \<and> bi_over 1 es it' []"
  using assms(2,3,5-7)
proof (induction blks arbitrary: it off acc)
  case Nil
  then show ?case by (subst index_loop.simps) (simp add: bi_over_def ientries_def index_of_def)
next
  case (Cons b blks)
  let ?h = "\<lparr>h_offset = off, h_length = length (blk_bytes ri b)\<rparr>" and ?off = "off + length (framed (blk_bytes ri b))"
  let ?ie = "\<lparr>ie_lastKey = fst (last b), ie_handle = ?h\<rparr>"
  have o: "bi_over 1 es it ((fst (last b), handle_append ?h []) # ientries ri blks ?off)" using Cons.prems(1) by (simp add: ientries_def)
  then have v: "bi_valid it" "bi_lastShared it = 0" "bi_key it = fst (last b)" "bi_value it = handle_append ?h []" by (simp_all add: bi_over_def)
  have sz: "off + length (blk_bytes ri b) + 4 + length (data_bytes ri blks) + 48 \<le> sz" using Cons.prems(2) by (simp add: data_bytes_def)
  then have e: "handle_end ?h = off + length (blk_bytes ri b) + 4" using assms(4) by (simp add: handle_end_def)
  have rg: "\<not> sz - 48 < off + length (blk_bytes ri b) + 4" using sz by linarith
  have "wf_handle ?h" using sz assms(4) by (simp add: wf_handle_def)
  then have h: "decodeBlockHandle (bi_value it) = Some (?h, [])" using decodeBlockHandle_append [of ?h "[]"] v(4) by simp
  have c: "(if acc = [] then Some (-1) else compare_keys (ie_lastKey (last acc)) (bi_key it)) = Some (-1)
      \<or> (\<exists>c<0. (if acc = [] then Some (-1) else compare_keys (ie_lastKey (last acc)) (bi_key it)) = Some c)"
  proof (cases acc rule: rev_cases)
    case (snoc ys y)
    then have "ikey_rank (ie_lastKey y) < ikey_rank (fst (last b))" using Cons.prems(5) by (simp add: sorted_wrt_append)
    then have "Compare (ie_lastKey y) (fst (last b)) < 0" by simp
    then show ?thesis using snoc v(3) Cons.prems(3,4) by (simp add: compare_keys_def)
  qed simp
  then obtain c where c: "c < 0" "(if acc = [] then Some (-1) else compare_keys (ie_lastKey (last acc)) (bi_key it)) = Some c" by fastforce
  obtain it1 where it1: "decodeNext it = Some it1" "bi_over 1 es it1 (ientries ri blks ?off)"
    using bi_next_over [OF assms(1) o] v(1) by (auto simp: bi_next_def)
  have "\<exists>it'. index_loop sz it1 (acc @ [?ie]) = Some (Inr (it', (acc @ [?ie]) @ index_of ri blks ?off)) \<and> bi_over 1 es it' []"
    using Cons.prems(2-5) it1(2) by (intro Cons.IH) (auto simp: data_bytes_def)
  moreover have "index_loop sz it acc = index_loop sz it1 (acc @ [?ie])"
    using v(1-3) h e rg c it1(1) by (subst index_loop.simps) simp
  ultimately show ?case by (simp add: index_of_def)
qed
text \<open>What a reader of a finished table knows of its blocks.\<close>

definition tbl_reader :: "nat \<Rightarrow> entry list list \<Rightarrow> Reader \<Rightarrow> bool" where
  "tbl_reader ri blks r \<longleftrightarrow> length (r_index r) = length blks \<and> [] \<notin> set blks
     \<and> (\<forall>i<length blks. ie_lastKey (r_index r ! i) = fst (last (blks ! i))
          \<and> loadIter i r = Inr (newBlockIter (blk ri (blks ! i)) (DataRegion i)))
     \<and> (\<forall>b\<in>set blks. good_blk ri b) \<and> key_sorted (concat blks)
     \<and> (\<forall>e\<in>set (concat blks). valid_ikey (fst e) \<and> bloomMayContain (r_filter r) (leveldbHash (UserKey (fst e))))"

lemma handles_nth:
  "i < length blks \<Longrightarrow> handles ri off blks ! i = \<lparr>h_offset = off + length (data_bytes ri (take i blks)), h_length = length (blk_bytes ri (blks ! i))\<rparr>"
proof (induction blks arbitrary: off i)
  case (Cons b blks)
  then show ?case by (cases i) (auto simp: data_bytes_def)
qed simp

lemma data_bytes_split:
  assumes "i < length blks"
  shows "data_bytes ri blks = data_bytes ri (take i blks) @ framed (blk_bytes ri (blks ! i)) @ data_bytes ri (drop (Suc i) blks)"
proof -
  have "blks = take i blks @ blks ! i # drop (Suc i) blks" using assms by (rule id_take_nth_drop)
  then have "data_bytes ri blks = data_bytes ri (take i blks @ blks ! i # drop (Suc i) blks)" by simp
  then show ?thesis by (simp add: data_bytes_def)
qed

lemma last_keys_sorted:
  "key_sorted (concat blks) \<Longrightarrow> [] \<notin> set blks \<Longrightarrow> sorted_wrt (\<lambda>a b. ikey_rank a < ikey_rank b) (map (\<lambda>b. fst (last b)) blks)"
proof (induction blks)
  case (Cons b blks)
  have "ikey_rank (fst (last b)) < ikey_rank (fst (last b'))" if "b' \<in> set blks" for b'
  proof -
    have "b \<noteq> []" "b' \<noteq> []" using Cons.prems(2) that by auto
    then have "last b \<in> set b" "last b' \<in> set b'" by simp_all
    then show ?thesis using Cons.prems(1) that unfolding concat.simps key_sorted_append by auto
  qed
  then show ?case using Cons by (simp add: key_sorted_append)
qed simp

lemma block_in_table:
  assumes "b \<in> set blks" "length (data_bytes ri blks) < n"
  shows "length (blk_bytes ri b) < n"
proof -
  obtain i where i: "i < length blks" "b = blks ! i" using assms(1) by (auto simp: in_set_conv_nth)
  have "length (blk_bytes ri b) \<le> length (data_bytes ri blks)" unfolding data_bytes_split [OF i(1)] i(2) by simp
  then show ?thesis using assms(2) by simp
qed

lemma parseIndex_table:
  assumes "good_blk 1 (block_index ri blks)" "length (data_bytes ri blks) + 48 \<le> sz" "sz < 2 ^ 63"
    "key_sorted (concat blks)" "[] \<notin> set blks" "\<forall>e\<in>set (concat blks). valid_ikey (fst e)"
  shows "parseIndexBlock (blk_bytes 1 (block_index ri blks)) sz = Some (Inr (index_of ri blks 0))"
proof -
  let ?es = "block_index ri blks"
  have ie: "?es = ientries ri blks 0" by (simp add: block_index_def ientries_def)
  obtain it where it: "bi_first (newBlockIter (blk 1 ?es) IndexRegion) = Some it" "bi_over 1 ?es it ?es"
    using bi_first_over [OF assms(1) bi_over_new] by blast
  have it2: "bi_over 1 ?es it (ientries ri blks 0)" using it(2) by (simp add: ie)
  have lk: "\<forall>b\<in>set blks. valid_ikey (fst (last b))"
  proof
    fix b assume b: "b \<in> set blks"
    then have "last b \<in> set b" using assms(5) by (intro last_in_set) auto
    then show "valid_ikey (fst (last b))" using assms(6) b by auto
  qed
  obtain it' where it': "index_loop sz it [] = Some (Inr (it', index_of ri blks 0))" "bi_over 1 ?es it' []"
    using index_loop_over [OF assms(1) it2, of sz "[]"] assms(2,3) lk last_keys_sorted [OF assms(4,5)]
    by auto
  have "length (index_of ri blks 0) = length blks" "length ?es = length blks" by (simp_all add: index_of_def block_index_def)
  moreover have "length (pb_restarts (blk 1 ?es)) = (if ?es = [] then 1 else length ?es)" by (simp add: blk_def blk_restarts_def)
  ultimately have n: "\<not> (length (index_of ri blks 0) \<noteq> length (pb_restarts (blk 1 ?es))
      \<and> \<not> (index_of ri blks 0 = [] \<and> length (pb_restarts (blk 1 ?es)) = 1))" by auto
  show ?thesis unfolding parseIndexBlock_def parseBlock_bytes [OF assms(1)] Let_def using it(1) it' n by (simp add: bi_over_def)
qed

lemma index_good:
  assumes "length (blk_bytes 1 (block_index ri blks)) < 2 ^ 32" "[] \<notin> set blks" "\<forall>e\<in>set (concat blks). valid_ikey (fst e)"
  shows "good_blk 1 (block_index ri blks)"
proof -
  have "valid_ikey (fst e)" if e: "e \<in> set (block_index ri blks)" for e
  proof -
    obtain b where "b \<in> set blks" "fst e = fst (last b)" using e by (auto simp: block_index_def dest: set_zip_leftD)
    moreover then have "last b \<in> set b" using assms(2) by (intro last_in_set) auto
    ultimately show ?thesis using assms(3) by force
  qed
  then show ?thesis using assms(1) by (simp add: good_blk_def)
qed

lemma NewReader_opens:
  assumes "serves src file" "file = table_bytes ri bloom blks" "length file < 2 ^ 63" "length bloom \<le> MaxInt32"
    "length (blk_bytes 1 (block_index ri blks)) \<le> MaxInt32"
    "key_sorted (concat blks)" "[] \<notin> set blks" "\<forall>e\<in>set (concat blks). valid_ikey (fst e)"
  shows "NewReader src (length file) = Some (Inr \<lparr>r_src = src, r_size = length file, r_index = index_of ri blks 0, r_filter = bloom\<rparr>)"
proof -
  let ?D = "data_bytes ri blks" and ?I = "blk_bytes 1 (block_index ri blks)"
  let ?f = "\<lparr>ft_filter = \<lparr>h_offset = length ?D, h_length = length bloom\<rparr>, ft_index = \<lparr>h_offset = length (?D @ framed bloom), h_length = length ?I\<rparr>\<rparr>"
  have fe: "file = ?D @ framed bloom @ framed ?I @ footer_encode ?f" using assms(2) by (simp add: table_bytes_def Let_def)
  have len: "length file = length ?D + length bloom + length ?I + 56" unfolding fe by simp
  have ft: "src (length file - 48) 48 = Inr (footer_encode ?f)"
  proof -
    have "length file - 48 = length (?D @ framed bloom @ framed ?I)" using len by simp
    then have "drop (length file - 48) file = footer_encode ?f" by (subst fe) simp
    moreover have "length file - 48 + 48 \<le> length file" using len by simp
    ultimately show ?thesis using assms(1) by (simp add: serves_def)
  qed
  have fd: "decodeFooter (footer_encode ?f) = Inr ?f" using len assms(3) by (intro decodeFooter_encode) (simp_all add: wf_handle_def)
  have fl: "readBlock (ft_filter ?f) FilterRegion src (length file) = Inr bloom"
    using readBlock_framed [OF assms(1) fe _ assms(3,4)] by simp
  have ix: "readBlock (ft_index ?f) IndexRegion src (length file) = Inr ?I"
    using readBlock_framed [OF assms(1) _ _ assms(3,5), of "?D @ framed bloom" "footer_encode ?f"] fe by simp
  have "good_blk 1 (block_index ri blks)" using assms(5) by (intro index_good [OF _ assms(7,8)]) (simp add: MaxInt32_def)
  from parseIndex_table [OF this _ assms(3,6-8)] len
  have "parseIndexBlock ?I (length file) = Some (Inr (index_of ri blks 0))" by simp
  then show ?thesis using len ft fd fl ix by (simp add: NewReader_def)
qed

lemma blk_good:
  assumes "0 < ri" "b \<in> set blks" "\<forall>e\<in>set (concat blks). valid_ikey (fst e)" "length (blk_bytes ri b) < 2 ^ 32"
  shows "good_blk ri b"
  using assms by (auto simp: good_blk_def)

lemma NewReader_table:
  assumes "serves src file" "file = table_bytes ri bloom blks" "0 < ri" "length file < 2 ^ 31"
    "key_sorted (concat blks)" "[] \<notin> set blks" "\<forall>e\<in>set (concat blks). valid_ikey (fst e)"
    "\<forall>e\<in>set (concat blks). bloomMayContain bloom (leveldbHash (UserKey (fst e)))"
  shows "\<exists>r. NewReader src (length file) = Some (Inr r) \<and> tbl_reader ri blks r"
proof -
  let ?D = "data_bytes ri blks" and ?I = "blk_bytes 1 (block_index ri blks)"
  let ?r = "\<lparr>r_src = src, r_size = length file, r_index = index_of ri blks 0, r_filter = bloom\<rparr>"
  obtain F where F: "file = ?D @ framed bloom @ framed ?I @ F" "48 \<le> length F"
    using assms(2) by (simp add: table_bytes_def Let_def)
  have len: "length ?D < 2 ^ 31" "length bloom \<le> MaxInt32" "length ?I \<le> MaxInt32" "length file < 2 ^ 63"
    using assms(4) F by (simp_all add: MaxInt32_def)
  have li: "loadIter i ?r = Inr (newBlockIter (blk ri (blks ! i)) (DataRegion i))" "ie_lastKey (r_index ?r ! i) = fst (last (blks ! i))"
    if i: "i < length blks" for i
  proof -
    let ?c = "blk_bytes ri (blks ! i)" and ?A = "data_bytes ri (take i blks)"
    have b: "blks ! i \<in> set blks" using i by simp
    have c: "length ?c < 2 ^ 31" by (rule block_in_table [OF b len(1)])
    have ie: "index_of ri blks 0 ! i = \<lparr>ie_lastKey = fst (last (blks ! i)), ie_handle = \<lparr>h_offset = length ?A, h_length = length ?c\<rparr>\<rparr>"
      using i by (simp add: index_of_def handles_nth)
    have "file = ?A @ framed ?c @ data_bytes ri (drop (Suc i) blks) @ framed bloom @ framed ?I @ F"
      using F(1) data_bytes_split [OF i, of ri] by simp
    from readBlock_framed [OF assms(1) this _ len(4)] c F(2)
    have "readBlock \<lparr>h_offset = length ?A, h_length = length ?c\<rparr> (DataRegion i) src (length file) = Inr ?c" by (simp add: MaxInt32_def)
    moreover have "good_blk ri (blks ! i)" using c by (intro blk_good [OF assms(3) b assms(7)]) simp
    ultimately show "loadIter i ?r = Inr (newBlockIter (blk ri (blks ! i)) (DataRegion i))"
      by (simp add: loadIter_def ie parseBlock_bytes)
    show "ie_lastKey (r_index ?r ! i) = fst (last (blks ! i))" using ie by simp
  qed
  have "length ?D < 2 ^ 32" using len(1) by simp
  then have "\<forall>b\<in>set blks. good_blk ri b"
    using block_in_table by (intro ballI blk_good [OF assms(3) _ assms(7)]) blast+
  then have "tbl_reader ri blks ?r" using li assms(5-8) by (simp add: tbl_reader_def index_of_def)
  then show ?thesis using NewReader_opens [OF assms(1,2) len(4,2,3) assms(5-7)] by blast
qed

section \<open>The table iterator meets the interface\<close>

definition tbl_over :: "nat \<Rightarrow> entry list list \<Rightarrow> sst_Iterator \<Rightarrow> entry list \<Rightarrow> bool" where
  "tbl_over ri blks it rest \<longleftrightarrow> tbl_reader ri blks (si_r it) \<and> si_err it = None
     \<and> (case si_bi it of
          None \<Rightarrow> rest = []
        | Some bi \<Rightarrow> \<exists>i brest. i < length blks \<and> si_blockIdx it = int i \<and> bi_over ri (blks ! i) bi brest \<and> brest \<noteq> []
            \<and> rest = brest @ concat (drop (Suc i) blks))"

definition sst_over :: "sst_Iterator \<Rightarrow> entry list \<Rightarrow> entry list \<Rightarrow> bool" where
  "sst_over it es rest \<longleftrightarrow> (\<exists>ri blks. es = concat blks \<and> tbl_over ri blks it rest)"

lemma tbl_facts:
  assumes "tbl_reader ri blks r" "i < length blks"
  shows "loadIter i r = Inr (newBlockIter (blk ri (blks ! i)) (DataRegion i))" "good_blk ri (blks ! i)" "blks ! i \<noteq> []"
    "i < length (r_index r)" "key_sorted (blks ! i)"
proof -
  have b: "blks ! i \<in> set blks" using assms(2) by simp
  show "loadIter i r = Inr (newBlockIter (blk ri (blks ! i)) (DataRegion i))" "good_blk ri (blks ! i)" "i < length (r_index r)"
    using assms b by (auto simp: tbl_reader_def)
  show "blks ! i \<noteq> []" using assms(1) b unfolding tbl_reader_def by metis
  have "key_sorted (concat (take i blks @ blks ! i # drop (Suc i) blks))" using assms id_take_nth_drop [OF assms(2)] by (simp add: tbl_reader_def)
  then show "key_sorted (blks ! i)" by (simp add: key_sorted_append)
qed

lemma first_block:
  assumes "tbl_reader ri blks r" "i < length blks"
  shows "\<exists>bi bi'. loadIter i r = Inr bi \<and> bi_first bi = Some bi' \<and> bi_over ri (blks ! i) bi' (blks ! i)"
  using tbl_facts [OF assms] bi_first_over [OF _ bi_over_new] by blast

lemma bi_over_sel: "bi_over ri es bi rest \<Longrightarrow> bi_err bi = None \<and> (bi_valid bi \<longleftrightarrow> rest \<noteq> [])"
  by (cases rest) (auto simp: bi_over_def)

lemma settle_over:
  assumes "tbl_reader ri blks (si_r it)" "si_err it = None" "i < length blks" "si_blockIdx it = int i" "bi_over ri (blks ! i) bi brest"
  shows "\<exists>it'. settle bi it = Some it' \<and> tbl_over ri blks it' (brest @ concat (drop (Suc i) blks)) \<and> si_r it' = si_r it"
proof -
  note sel = bi_over_sel [OF assms(5)]
  have n: "length (r_index (si_r it)) = length blks" using assms(1) by (simp add: tbl_reader_def)
  consider "brest \<noteq> []" | "brest = []" "Suc i = length blks" | "brest = []" "Suc i < length blks" using assms(3) by linarith
  then show ?thesis
  proof cases
    case 1
    then show ?thesis using assms sel by (auto simp: settle_def tbl_over_def)
  next
    case 2
    then show ?thesis using assms sel n by (auto simp: settle_def tbl_over_def)
  next
    case 3
    obtain b b' where b: "loadIter (Suc i) (si_r it) = Inr b" "bi_first b = Some b'" "bi_over ri (blks ! Suc i) b' (blks ! Suc i)"
      using first_block [OF assms(1) 3(2)] by blast
    note ne = tbl_facts(3) [OF assms(1) 3(2)]
    let ?it = "it\<lparr>si_blockIdx := int (Suc i), si_bi := Some b'\<rparr>"
    have "loadBlock (nat (si_blockIdx it + 1)) it = Some (Some b, it\<lparr>si_blockIdx := int (Suc i)\<rparr>)"
      using b(1) 3(2) n assms(4) by (simp add: loadBlock_def nat_add_distrib)
    then have "settle bi it = Some ?it"
      using sel 3 n assms(4) b(2) bi_over_sel [OF b(3)] ne by (simp add: settle_def)
    moreover have "tbl_over ri blks ?it (concat (drop (Suc i) blks))"
      unfolding tbl_over_def using assms(1,2) 3(2) b(3) ne
      by (auto simp: Cons_nth_drop_Suc [symmetric] intro!: exI [of _ "Suc i"] exI [of _ "blks ! Suc i"])
    ultimately show ?thesis using 3(1) by simp
  qed
qed

lemma block_below:
  assumes "key_sorted b" "b \<noteq> []" "ltk key (fst (last b), [])"
  shows "\<forall>e\<in>set b. ltk key e"
proof (cases b rule: rev_cases)
  case (snoc ys y)
  then show ?thesis using assms by (auto simp: key_sorted_append intro: less_trans)
qed simp

lemma seek_blocks:
  fixes key :: bytes
  assumes "tbl_reader ri blks r"
  defines "i \<equiv> sort_search (length (r_index r)) (\<lambda>i. \<not> ltk key (ie_lastKey (r_index r ! i), []))"
  shows "i = length blks \<Longrightarrow> dropWhile (ltk key) (concat blks) = []"
    "i < length blks \<Longrightarrow> dropWhile (ltk key) (concat blks) = dropWhile (ltk key) (blks ! i) @ concat (drop (Suc i) blks)
      \<and> dropWhile (ltk key) (blks ! i) \<noteq> []"
proof -
  let ?f = "\<lambda>i. \<not> ltk key (ie_lastKey (r_index r ! i), [])"
  have n: "length (r_index r) = length blks" and lk: "\<And>j. j < length blks \<Longrightarrow> ie_lastKey (r_index r ! j) = fst (last (blks ! j))"
    using assms(1) by (auto simp: tbl_reader_def)
  have so: "sorted_wrt (\<lambda>a b. ikey_rank a < ikey_rank b) (map (\<lambda>b. fst (last b)) blks)"
    using assms(1) by (intro last_keys_sorted) (simp_all add: tbl_reader_def)
  have mono: "?f k'" if "k \<le> k'" "k' < length (r_index r)" "?f k" for k k'
  proof (cases "k = k'")
    case False
    then have "ikey_rank (fst (last (blks ! k))) < ikey_rank (fst (last (blks ! k')))"
      using sorted_wrt_nth_less [OF so, of k k'] that(1,2) n by simp
    then show ?thesis using that n lk by auto
  qed (use that in simp)
  have sp: "\<And>k. k < i \<Longrightarrow> \<not> ?f k" "\<And>k. i \<le> k \<Longrightarrow> k < length (r_index r) \<Longrightarrow> ?f k"
    unfolding i_def using sort_search_spec(2,3) [of "length (r_index r)" ?f] mono by blast+
  have below: "\<forall>e\<in>set (blks ! k). ltk key e" if "k < i" "k < length blks" for k
    using sp(1) [OF that(1)] lk [OF that(2)] by (intro block_below tbl_facts(3,5) [OF assms(1) that(2)]) simp
  have pre: "\<forall>e\<in>set (concat (take i blks)). ltk key e"
  proof
    fix e assume "e \<in> set (concat (take i blks))"
    then obtain b where b: "b \<in> set (take i blks)" "e \<in> set b" by auto
    then obtain k where "k < i" "k < length blks" "b = blks ! k" by (auto simp: in_set_conv_nth)
    then show "ltk key e" using below b(2) by blast
  qed
  show "dropWhile (ltk key) (concat blks) = []" if "i = length blks" using pre that by simp
  show "dropWhile (ltk key) (concat blks) = dropWhile (ltk key) (blks ! i) @ concat (drop (Suc i) blks) \<and> dropWhile (ltk key) (blks ! i) \<noteq> []"
    if i: "i < length blks"
  proof -
    have l: "\<not> ltk key (last (blks ! i))" using sp(2) [of i] i n lk by simp
    have m: "last (blks ! i) \<in> set (blks ! i)" using tbl_facts(3) [OF assms(1) i] by simp
    have "concat blks = concat (take i blks) @ blks ! i @ concat (drop (Suc i) blks)"
      using arg_cong [OF id_take_nth_drop [OF i], of concat] by simp
    then have "dropWhile (ltk key) (concat blks) = dropWhile (ltk key) (blks ! i @ concat (drop (Suc i) blks))"
      using dropWhile_append2 [of "concat (take i blks)" "ltk key"] pre by metis
    also have "\<dots> = dropWhile (ltk key) (blks ! i) @ concat (drop (Suc i) blks)" using m l by (rule dropWhile_append1)
    finally show ?thesis using m l by (auto simp: dropWhile_eq_Nil_conv)
  qed
qed

lemma tbl_valid_keys: "tbl_reader ri blks r \<Longrightarrow> reader_ok r"
  unfolding reader_ok_def
proof
  fix e assume t: "tbl_reader ri blks r" and e: "e \<in> set (r_index r)"
  then obtain i where i: "i < length blks" "e = r_index r ! i" by (auto simp: in_set_conv_nth tbl_reader_def)
  have "last (blks ! i) \<in> set (concat blks)" using i(1) tbl_facts(3) [OF t i(1)] by (auto intro!: bexI [of _ "blks ! i"])
  then show "valid_ikey (ie_lastKey e)" using t i unfolding tbl_reader_def by auto
qed

lemma si_First_over:
  assumes "tbl_over ri blks it rest"
  shows "\<exists>it'. si_First it = Some it' \<and> tbl_over ri blks it' (concat blks)"
proof (cases "blks = []")
  case True
  then show ?thesis using assms by (auto simp: si_First_def tbl_over_def tbl_reader_def)
next
  case False
  have t: "tbl_reader ri blks (si_r it)" "si_err it = None" "length (r_index (si_r it)) = length blks" "0 < length blks"
    using assms False by (auto simp: tbl_over_def tbl_reader_def)
  obtain b b' where b: "loadIter 0 (si_r it) = Inr b" "bi_first b = Some b'" "bi_over ri (blks ! 0) b' (blks ! 0)"
    using first_block [OF t(1,4)] by blast
  let ?it = "it\<lparr>si_bi := None, si_blockIdx := int 0\<rparr>"
  obtain it' where it': "settle b' ?it = Some it'" "tbl_over ri blks it' (blks ! 0 @ concat (drop (Suc 0) blks))"
    using settle_over [of ri blks ?it 0 b' "blks ! 0"] t b(3) by auto
  have "blks ! 0 @ concat (drop (Suc 0) blks) = concat blks" using False by (cases blks) auto
  then show ?thesis using it' b t False by (auto simp: si_First_def Let_def loadBlock_def)
qed

lemma si_SeekGE_over:
  assumes "tbl_over ri blks it rest" "valid_ikey key"
  shows "\<exists>it'. si_SeekGE key it = Some it' \<and> tbl_over ri blks it' (dropWhile (ltk key) (concat blks))"
proof -
  have t: "tbl_reader ri blks (si_r it)" "si_err it = None" "length (r_index (si_r it)) = length blks"
    using assms(1) by (auto simp: tbl_over_def tbl_reader_def)
  define i where "i = sort_search (length (r_index (si_r it))) (\<lambda>i. \<not> ltk key (ie_lastKey (r_index (si_r it) ! i), []))"
  have si: "seekIndex key (si_r it) = Some i" "i \<le> length blks"
    using seekIndex_total [OF tbl_valid_keys [OF t(1)] assms(2)] t(3) by (simp_all add: i_def)
  show ?thesis
  proof (cases "i = length blks")
    case True
    then show ?thesis using t si seek_blocks(1) [OF t(1), of key] by (auto simp: si_SeekGE_def Let_def tbl_over_def i_def)
  next
    case False
    then have lt: "i < length blks" using si(2) by simp
    let ?dw = "dropWhile (ltk key) (blks ! i)"
    have dw: "dropWhile (ltk key) (concat blks) = ?dw @ concat (drop (Suc i) blks)" "?dw \<noteq> []"
      using seek_blocks(2) [OF t(1), of key] lt by (simp_all add: i_def)
    obtain b' where b': "bi_seekGE key (newBlockIter (blk ri (blks ! i)) (DataRegion i)) = Some b'" "bi_over ri (blks ! i) b' ?dw"
      using bi_seekGE_over [OF tbl_facts(2,5) [OF t(1) lt] assms(2) bi_over_new] by blast
    have se: "settle b' (it\<lparr>si_bi := None, si_blockIdx := int i\<rparr>) = Some (it\<lparr>si_bi := Some b', si_blockIdx := int i\<rparr>)"
      using bi_over_sel [OF b'(2)] dw(2) by (simp add: settle_def)
    obtain e r where e: "?dw = e # r" using dw(2) by (cases ?dw) auto
    have "\<not> ltk key e" using e by (metis hd_dropWhile list.sel(1) list.distinct(1))
    moreover have "bi_valid b'" "bi_key b' = fst e" using b'(2) e by (simp_all add: bi_over_def)
    moreover have "valid_ikey (fst e)"
    proof -
      have "e \<in> set (blks ! i)" using e by (metis list.set_intros(1) set_dropWhileD)
      then show ?thesis using tbl_facts(2) [OF t(1) lt] by (simp add: good_blk_def)
    qed
    ultimately have "si_SeekGE key it = Some (it\<lparr>si_bi := Some b', si_blockIdx := int i\<rparr>)"
      using t si(1) lt se b'(1) tbl_facts(1,4) [OF t(1) lt] assms(2)
      by (simp add: si_SeekGE_def Let_def loadBlock_def si_Valid_def compare_keys_def)
    moreover have "tbl_over ri blks (it\<lparr>si_bi := Some b', si_blockIdx := int i\<rparr>) (?dw @ concat (drop (Suc i) blks))"
      using t lt b'(2) dw(2) by (auto simp: tbl_over_def)
    ultimately show ?thesis using dw(1) by simp
  qed
qed

lemma si_Next_over:
  assumes "tbl_over ri blks it (e # rest)"
  shows "\<exists>it'. si_Next it = Some it' \<and> tbl_over ri blks it' rest"
proof -
  obtain bi i brest where b: "si_bi it = Some bi" "i < length blks" "si_blockIdx it = int i" "bi_over ri (blks ! i) bi brest" "brest \<noteq> []"
    "e # rest = brest @ concat (drop (Suc i) blks)" and t: "tbl_reader ri blks (si_r it)" "si_err it = None"
    using assms unfolding tbl_over_def by (auto split: option.splits)
  obtain br where br: "brest = e # br" "rest = br @ concat (drop (Suc i) blks)" using b(5,6) by (cases brest) auto
  obtain bi' where bi': "bi_next bi = Some bi'" "bi_over ri (blks ! i) bi' br"
    using bi_next_over [OF tbl_facts(2) [OF t(1) b(2)]] b(4) br(1) by blast
  then show ?thesis using settle_over [OF t b(2,3) bi'(2)] b(1) br(2) by (auto simp: si_Next_def)
qed

lemma tbl_over_current:
  assumes "tbl_over ri blks it rest"
  shows "si_err it = None" "si_Valid it \<longleftrightarrow> rest \<noteq> []" "key_sorted (concat blks)" "suffix rest (concat blks)"
    "rest = e # r \<Longrightarrow> io_Key sst_iterator it = Some (fst e) \<and> io_Value sst_iterator it = Some (snd e)"
proof -
  show "si_err it = None" "key_sorted (concat blks)" using assms by (auto simp: tbl_over_def tbl_reader_def)
  show "si_Valid it \<longleftrightarrow> rest \<noteq> []" using assms bi_over_sel by (fastforce simp: si_Valid_def tbl_over_def split: option.splits)
  show "suffix rest (concat blks)"
  proof (cases "si_bi it")
    case (Some bi)
    then obtain i brest where b: "i < length blks" "bi_over ri (blks ! i) bi brest" "rest = brest @ concat (drop (Suc i) blks)"
      using assms by (auto simp: tbl_over_def)
    have "concat blks = concat (take i blks) @ blks ! i @ concat (drop (Suc i) blks)"
      using arg_cong [OF id_take_nth_drop [OF b(1)], of concat] by simp
    moreover obtain pre where "blks ! i = pre @ brest" using b(2) by (auto simp: bi_over_def suffix_def)
    ultimately show ?thesis unfolding b(3) suffix_def by (metis append.assoc)
  qed (use assms in \<open>simp add: tbl_over_def\<close>)
  show "io_Key sst_iterator it = Some (fst e) \<and> io_Value sst_iterator it = Some (snd e)" if r: "rest = e # r"
  proof -
    obtain bi i brest where b: "si_bi it = Some bi" "bi_over ri (blks ! i) bi brest" "brest \<noteq> []" "e # r = brest @ concat (drop (Suc i) blks)"
      using assms r unfolding tbl_over_def by (auto split: option.splits)
    then obtain br where "brest = e # br" by (cases brest) auto
    then show ?thesis using b by (simp add: sst_iterator_def bi_over_def)
  qed
qed

interpretation sst: internal_iterator sst_iterator sst_over
proof
  fix s es rest assume o: "sst_over s es rest"
  then obtain ri blks where t: "es = concat blks" "tbl_over ri blks s rest" by (auto simp: sst_over_def)
  show "key_sorted es \<and> suffix rest es" using tbl_over_current [OF t(2)] t(1) by simp
  show "\<exists>s'. io_First sst_iterator s = Some s' \<and> sst_over s' es es"
    using si_First_over [OF t(2)] t(1) by (auto simp: sst_iterator_def sst_over_def)
  show "\<exists>s'. io_SeekGE sst_iterator key s = Some s' \<and> sst_over s' es (dropWhile (ltk key) es)" if "valid_ikey key" for key
    using si_SeekGE_over [OF t(2) that] t(1) by (auto simp: sst_iterator_def sst_over_def)
  show "io_Valid sst_iterator s \<longleftrightarrow> rest \<noteq> []" using tbl_over_current(2) [OF t(2)] by (simp add: sst_iterator_def)
  show "io_Error sst_iterator s = None" using tbl_over_current(1) [OF t(2)] by (simp add: sst_iterator_def)
next
  fix s es e rest assume o: "sst_over s es (e # rest)"
  then obtain ri blks where t: "es = concat blks" "tbl_over ri blks s (e # rest)" by (auto simp: sst_over_def)
  show "\<exists>s'. io_Next sst_iterator s = Some s' \<and> sst_over s' es rest"
    using si_Next_over [OF t(2)] t(1) by (auto simp: sst_iterator_def sst_over_def)
  show "io_Key sst_iterator s = Some (fst e) \<and> io_Value sst_iterator s = Some (snd e)" using tbl_over_current(5) [OF t(2) refl] .
qed

lemma sst_over_new: "tbl_reader ri blks r \<Longrightarrow> sst_over (sst_NewIterator r) (concat blks) []"
  by (auto simp: sst_over_def tbl_over_def sst_NewIterator_def)

section \<open>Point reads\<close>

lemma Reader_Get_newest:
  assumes "tbl_reader ri blks r" "\<forall>e\<in>set (concat blks). wf_key (fst e)" "seq \<le> MaxSeq"
  shows "Reader_Get uk seq r = Some (Inr (newest_visible uk seq (concat blks)))"
proof (cases "bloomMayContain (r_filter r) (leveldbHash uk)")
  case False
  have "\<not> visible uk seq e" if "e \<in> set (concat blks)" for e
    using assms(1) that False unfolding tbl_reader_def visible_def by metis
  then have "newest_visible uk seq (concat blks) = None" by (simp add: newest_visible_def filter_False)
  then show ?thesis using False by (simp add: Reader_Get_def)
next
  case bloom: True
  let ?k = "enc_ikey uk seq maxKind"
  have k: "AppendSeekKey [] uk seq = Some ?k" "valid_ikey ?k"
    using AppendInternalKey_Some [OF assms(3), of maxKind "[]" uk] by (simp_all add: AppendSeekKey_def)
  have so: "sorted_wrt (\<lambda>a b. ikey_rank (fst a) < ikey_rank (fst b)) (concat blks)" using assms(1) by (simp add: tbl_reader_def key_sorted_def)
  note nv = newest_visible_seek [OF so assms(2,3), of uk]
  define i where "i = sort_search (length (r_index r)) (\<lambda>i. \<not> ltk ?k (ie_lastKey (r_index r ! i), []))"
  have n: "length (r_index r) = length blks" using assms(1) by (simp add: tbl_reader_def)
  have si: "seekIndex ?k r = Some i" "i \<le> length blks"
    using seekIndex_total [OF tbl_valid_keys [OF assms(1)] k(2)] n by (simp_all add: i_def)
  show ?thesis
  proof (cases "i = length blks")
    case True
    then have "dropWhile (ltk ?k) (concat blks) = []" using seek_blocks(1) [OF assms(1), of ?k] by (simp add: i_def)
    note d = this
    have "newest_visible uk seq (concat blks) = None" unfolding nv d by (simp add: hdo_def)
    then show ?thesis using bloom k(1) si(1) n True unfolding Reader_Get_def by simp
  next
    case False
    then have lt: "i < length blks" using si(2) by simp
    let ?dw = "dropWhile (ltk ?k) (blks ! i)"
    have dw: "dropWhile (ltk ?k) (concat blks) = ?dw @ concat (drop (Suc i) blks)" "?dw \<noteq> []"
      using seek_blocks(2) [OF assms(1), of ?k] lt by (simp_all add: i_def)
    obtain e rs where e: "?dw = e # rs" using dw(2) by (cases ?dw) auto
    have "e \<in> set (blks ! i)" using e by (metis list.set_intros(1) set_dropWhileD)
    then have wf: "wf_key (fst e)" using assms(2) nth_mem [OF lt] by auto
    obtain b' where b': "bi_seekGE ?k (newBlockIter (blk ri (blks ! i)) (DataRegion i)) = Some b'" "bi_over ri (blks ! i) b' ?dw"
      using bi_seekGE_over [OF tbl_facts(2,5) [OF assms(1) lt] k(2) bi_over_new] by blast
    have b: "bi_valid b'" "bi_key b' = fst e" "bi_value b' = snd e" "bi_err b' = None" using b'(2) e by (simp_all add: bi_over_def)
    have "newest_visible uk seq (concat blks) = (if UserKey (fst e) = uk then Some (snd e, trailer_of (fst e) mod 256) else None)"
      unfolding nv dw(1) e by (simp add: hdo_def)
    then show ?thesis using bloom k(1) si(1) n False tbl_facts(1) [OF assms(1) lt] b'(1) b DecodeInternalKey_wf [OF wf]
      unfolding Reader_Get_def by simp
  qed
qed

section \<open>Correctness\<close>

lemma table_length:
  assumes "0 < ri" "[] \<notin> set blks" "table_cost (concat blks) < 2 ^ 32"
  shows "length (table_bytes ri bloom blks) \<le> 2 * table_cost (concat blks) + length bloom + 64"
proof -
  have "length (block_index ri blks) = length blks" by (simp add: block_index_def)
  then have "length (blk_bytes 1 (block_index ri blks)) \<le> length (concat (pieces 1 0 [] (block_index ri blks))) + 4 * length blks + 8"
    by (simp add: blk_bytes_def blk_def length_concat_put_u32 blk_restarts_def)
  then have "length (blk_bytes 1 (block_index ri blks)) \<le> table_cost (concat blks) + 8" using index_buf_cost [OF assms] by linarith
  moreover have "length (data_bytes ri blks) \<le> table_cost (concat blks)" using data_cost [OF assms(1,2)] assms(3) by simp
  ultimately show ?thesis unfolding table_bytes_def Let_def length_append length_framed length_footer_encode by linarith
qed

lemma open_written:
  assumes "write_table io opts es = Some (Inr p, w)" "length (sw_out w) < 2 ^ 31" "serves src (sw_out w)"
  shows "\<exists>r ri blks. NewReader src (FileSize p) = Some (Inr r) \<and> tbl_reader ri blks r \<and> concat blks = es
    \<and> p = \<lparr>NumEntries = length es, Smallest = map_option fst (hdo es), Largest = (if es = [] then None else Some (fst (last es))),
        FileSize = length (sw_out w)\<rparr>"
proof -
  let ?ri = "nat (wo_RestartInterval (writer_defaults opts))"
  obtain blks bloom where t: "concat blks = es" "[] \<notin> set blks" "key_sorted es" "\<forall>e\<in>set es. valid_ikey (fst e)"
    "buildBloom (map (\<lambda>e. leveldbHash (UserKey (fst e))) es) (nat (wo_BitsPerKey (writer_defaults opts))) = Some bloom"
    "sw_out w = table_bytes ?ri bloom blks"
    "p = \<lparr>NumEntries = length es, Smallest = map_option fst (hdo es), Largest = (if es = [] then None else Some (fst (last es))),
        FileSize = length (sw_out w)\<rparr>"
    using write_table_Inr [OF assms(1)] by blast
  have ri: "0 < ?ri" using writer_defaults_pos(1) [of opts] by simp
  have "\<forall>e\<in>set (concat blks). bloomMayContain bloom (leveldbHash (UserKey (fst e)))"
    using buildBloom_contains [OF t(5)] t(1) by auto
  then obtain r where "NewReader src (length (sw_out w)) = Some (Inr r)" "tbl_reader ?ri blks r"
    using NewReader_table [OF assms(3) t(6) ri assms(2)] t by blast
  moreover have "FileSize p = length (sw_out w)" using t(7) by simp
  ultimately show ?thesis using t(1,7) by metis
qed

text \<open>
  C28. Tables round trip.  Whatever the disk does while a table is written, if the writer reports success
  and the file is under 2 GiB, the file opens, iterating over it from the start or from any key yields
  exactly the added entries from there on, in order, and the reported properties are those of the entries.
\<close>

theorem table_round_trip:
  assumes "write_table io opts es = Some (Inr p, w)" "length (sw_out w) < 2 ^ 31" "serves src (sw_out w)" "valid_ikey key"
  shows "\<exists>r. NewReader src (FileSize p) = Some (Inr r)
    \<and> (io_First sst_iterator (sst_NewIterator r) \<bind> collect sst_iterator (length es)) = Some es
    \<and> (io_SeekGE sst_iterator key (sst_NewIterator r) \<bind> collect sst_iterator (length es)) = Some (filter (\<lambda>e. \<not> ltk key e) es)
    \<and> NumEntries p = length es \<and> Smallest p = map_option fst (hdo es) \<and> (es \<noteq> [] \<longrightarrow> Largest p = Some (fst (last es)))"
proof -
  obtain r ri blks where r: "NewReader src (FileSize p) = Some (Inr r)" "tbl_reader ri blks r" "concat blks = es"
    and p: "p = \<lparr>NumEntries = length es, Smallest = map_option fst (hdo es), Largest = (if es = [] then None else Some (fst (last es))),
        FileSize = length (sw_out w)\<rparr>"
    using open_written [OF assms(1-3)] by blast
  have o: "sst_over (sst_NewIterator r) es []" using sst_over_new [OF r(2)] r(3) by simp
  show ?thesis
  proof (intro exI [of _ r] conjI)
    show "NewReader src (FileSize p) = Some (Inr r)" by (rule r(1))
    show "(io_First sst_iterator (sst_NewIterator r) \<bind> collect sst_iterator (length es)) = Some es" by (rule sst.scan_all [OF o])
    show "(io_SeekGE sst_iterator key (sst_NewIterator r) \<bind> collect sst_iterator (length es)) = Some (filter (\<lambda>e. \<not> ltk key e) es)"
      by (rule sst.seek_all [OF o assms(4)])
  qed (simp_all add: p)
qed

text \<open>
  C29. Point reads of a table.  A get at a sequence number returns the newest version of the user key
  visible there, tombstones included, whether or not the bloom filter, the index or the block search
  decides it, and reports absence exactly when there is none.
\<close>

theorem table_get_newest:
  assumes "write_table io opts es = Some (Inr p, w)" "length (sw_out w) < 2 ^ 31" "serves src (sw_out w)"
    "\<forall>e\<in>set es. wf_key (fst e)" "seq \<le> MaxSeq"
  shows "\<exists>r. NewReader src (FileSize p) = Some (Inr r) \<and> Reader_Get uk seq r = Some (Inr (newest_visible uk seq es))"
proof -
  obtain r ri blks where r: "NewReader src (FileSize p) = Some (Inr r)" "tbl_reader ri blks r" "concat blks = es"
    using open_written [OF assms(1-3)] by blast
  then show ?thesis using Reader_Get_newest [OF r(2) _ assms(5), of uk] assms(4) by auto
qed

section \<open>Oversized values\<close>

definition default_options :: WriterOptions where
  "default_options = \<lparr>wo_BlockSize = 0, wo_RestartInterval = 0, wo_BitsPerKey = 0\<rparr>"

lemma default_options_sel [simp]:
  "wo_BitsPerKey (writer_defaults default_options) = 10" "wo_RestartInterval (writer_defaults default_options) = 16"
  by (simp_all add: default_options_def writer_defaults_def)

lemma concat_singleton: "concat blks = [x] \<Longrightarrow> [] \<notin> set blks \<Longrightarrow> blks = [[x]]"
  by (cases blks; cases "tl blks") (auto simp: append_eq_Cons_conv)

lemma one_block_sizes:
  assumes "length k + length v + 60 < 2 ^ 32" "2 ^ 31 \<le> length v"
  shows "length (blk_bytes 1 (block_index 16 [[(k, v)]])) \<le> MaxInt32" "\<not> length (blk_bytes 16 [(k, v)]) \<le> MaxInt32"
proof -
  let ?h = "\<lparr>h_offset = 0, h_length = length (blk_bytes 16 [(k, v)])\<rparr>"
  have c: "table_cost [(k, v)] < 2 ^ 64" using assms(1) by simp
  have f: "length (framed (blk_bytes 16 [(k, v)])) \<le> table_cost [(k, v)]" by (rule framed_cost [OF _ _ c]) simp_all
  have "length (put_uvarint (0 :: nat)) \<le> 10" "length (put_uvarint (length (blk_bytes 16 [(k, v)]))) \<le> 10"
    using f c by (auto intro!: length_put_uvarint_le)
  then have h: "length (handle_append ?h []) \<le> 20" by (simp add: handle_append_def)
  have i: "block_index 16 [[(k, v)]] = [(k, handle_append ?h [])]" by (simp add: block_index_def)
  have "length (entry_bytes 0 k (handle_append ?h [])) \<le> length k + 50"
    using length_entry_bytes [of k "handle_append ?h []" 0] h assms(1) by simp
  then show "length (blk_bytes 1 (block_index 16 [[(k, v)]])) \<le> MaxInt32"
    using assms unfolding i by (simp add: blk_bytes_def blk_def blk_restarts_def MaxInt32_def)
  have "length v \<le> length (blk_bytes 16 [(k, v)])" by (simp add: blk_bytes_def blk_def entry_bytes_def)
  then show "\<not> length (blk_bytes 16 [(k, v)]) \<le> MaxInt32" using assms(2) by (simp add: MaxInt32_def)
qed

text \<open>
  C32. Oversized values are written but cannot be read.  The writer bounds a block by the 32-bit offsets
  only, the reader refuses every block past 2 GiB: a table with one value of at least 2 GiB is finished
  successfully and opens, and every read of its key fails.
\<close>

theorem huge_value_unreadable:
  assumes "wf_key k" "2 ^ 31 \<le> length v" "length k + length v + 60 < 2 ^ 32"
  shows "\<exists>p w r. write_table no_faults default_options [(k, v)] = Some (Inr p, w)
    \<and> NewReader (file_src (sw_out w)) (FileSize p) = Some (Inr r)
    \<and> Reader_Get (UserKey k) MaxSeq r = Some (Inl (HandleLength (DataRegion 0) (length (blk_bytes 16 [(k, v)]))))"
proof -
  let ?es = "[(k, v)]" and ?seek = "enc_ikey (UserKey k) MaxSeq maxKind"
  have vk: "valid_ikey k" by (rule wf_key_valid [OF assms(1)])
  obtain p w where w: "write_table no_faults default_options ?es = Some (Inr p, w)"
    using write_table_succeeds [of ?es default_options] vk assms(3) by auto
  obtain blks bloom where t: "concat blks = ?es" "[] \<notin> set blks"
    "buildBloom (map (\<lambda>e. leveldbHash (UserKey (fst e))) ?es) 10 = Some bloom" "sw_out w = table_bytes 16 bloom blks" "FileSize p = length (sw_out w)"
    using write_table_Inr [OF w] by auto
  have b: "blks = [?es]" by (rule concat_singleton [OF t(1,2)])
  have bl: "length bloom = 9" using buildBloom_length [OF t(3)] by simp
  have fl: "length (sw_out w) < 2 ^ 63" using table_length [of 16 blks bloom] t b assms(3) bl by simp
  let ?r = "\<lparr>r_src = file_src (sw_out w), r_size = length (sw_out w), r_index = index_of 16 blks 0, r_filter = bloom\<rparr>"
  have o: "NewReader (file_src (sw_out w)) (length (sw_out w)) = Some (Inr ?r)"
    using one_block_sizes(1) [OF assms(3,2)] bl b vk
    by (intro NewReader_opens [OF serves_file_src t(4) fl]) (simp_all add: MaxInt32_def)
  have ix: "r_index ?r = [\<lparr>ie_lastKey = k, ie_handle = \<lparr>h_offset = 0, h_length = length (blk_bytes 16 ?es)\<rparr>\<rparr>]"
    by (simp add: index_of_def b)
  have sk: "AppendSeekKey [] (UserKey k) MaxSeq = Some ?seek" using AppendInternalKey_Some [of MaxSeq maxKind "[]" "UserKey k"] by (simp add: AppendSeekKey_def)
  have "trailer_of k div 256 \<le> MaxSeq" using trailer_less [of k] by (simp add: MaxSeq_def)
  then have "\<not> ikey_rank k < ikey_rank ?seek" using seek_rank [OF assms(1) order_refl, of "UserKey k"] by simp
  then have "seekIndex ?seek ?r = Some 0"
    unfolding seekIndex_def ix using vk by (simp add: search_opt.simps compare_keys_def not_less Let_def)
  moreover have "loadIter 0 ?r = Inl (HandleLength (DataRegion 0) (length (blk_bytes 16 ?es)))"
    using one_block_sizes(2) [OF assms(3,2)] unfolding loadIter_def ix by (simp add: readBlock_def)
  moreover have "bloomMayContain bloom (leveldbHash (UserKey k))" using buildBloom_contains [OF t(3)] by simp
  ultimately have "Reader_Get (UserKey k) MaxSeq ?r = Some (Inl (HandleLength (DataRegion 0) (length (blk_bytes 16 ?es))))"
    unfolding Reader_Get_def using sk ix by simp
  then show ?thesis using w o t(5) by (intro exI [of _ p] exI [of _ w] exI [of _ ?r]) simp
qed

section \<open>Examples\<close>

abbreviation sst_example :: "entry list" where
  "sst_example \<equiv> [(enc_ikey [97] 3 KindPut, [3]), (enc_ikey [97] 1 KindPut, [1]), (enc_ikey [98] 2 KindDelete, [])]"

lemma sst_small: "1 \<le> MaxSeq" "2 \<le> MaxSeq" "3 \<le> MaxSeq" "KindPut \<le> maxKind" "KindDelete \<le> maxKind"
  by (simp_all add: MaxSeq_def KindPut_def KindDelete_def maxKind_def)

lemma sst_example_ok: "key_sorted sst_example" "\<forall>e\<in>set sst_example. wf_key (fst e)"
proof -
  have "ikey_rank (enc_ikey [97] 3 KindPut) < ikey_rank (enc_ikey [97] 1 KindPut)"
    "ikey_rank (enc_ikey [97] 1 KindPut) < ikey_rank (enc_ikey [98] 2 KindDelete)"
    "ikey_rank (enc_ikey [97] 3 KindPut) < ikey_rank (enc_ikey [98] 2 KindDelete)"
    using rank_enc_less [OF sst_small(3,4,1,4), of "[97]" "[97]"] rank_enc_less [OF sst_small(1,4,2,5), of "[97]" "[98]"]
      rank_enc_less [OF sst_small(3,4,2,5), of "[97]" "[98]"] by simp_all
  then show "key_sorted sst_example" by simp
  have "wf_key (enc_ikey [97] 3 KindPut)" "wf_key (enc_ikey [97] 1 KindPut)" "wf_key (enc_ikey [98] 2 KindDelete)"
    unfolding wf_key_def using sst_small by blast+
  then show "\<forall>e\<in>set sst_example. wf_key (fst e)" by simp
qed

lemma sst_example_written:
  "\<exists>p w. write_table no_faults default_options sst_example = Some (Inr p, w) \<and> length (sw_out w) < 2 ^ 31"
proof -
  have v: "\<forall>e\<in>set sst_example. valid_ikey (fst e)" using sst_example_ok(2) wf_key_valid by blast
  have c: "table_cost sst_example < 300" by simp
  obtain p w where w: "write_table no_faults default_options sst_example = Some (Inr p, w)"
    using write_table_succeeds [OF sst_example_ok(1) v, of default_options] c by auto
  obtain blks bloom where t: "concat blks = sst_example" "[] \<notin> set blks" "sw_out w = table_bytes 16 bloom blks"
    "buildBloom (map (\<lambda>e. leveldbHash (UserKey (fst e))) sst_example) 10 = Some bloom"
    using write_table_Inr [OF w] by auto
  have "length bloom = 9" using buildBloom_length [OF t(4)] by simp
  then have "length (sw_out w) < 2 ^ 31" using table_length [of 16 blks bloom] t(1-3) c by simp
  then show ?thesis using w by blast
qed

theorem table_round_trip_witness:
  "\<exists>p w r. write_table no_faults default_options sst_example = Some (Inr p, w)
    \<and> NewReader (file_src (sw_out w)) (FileSize p) = Some (Inr r)
    \<and> (io_First sst_iterator (sst_NewIterator r) \<bind> collect sst_iterator (length sst_example)) = Some sst_example"
proof -
  obtain p w where w: "write_table no_faults default_options sst_example = Some (Inr p, w)" "length (sw_out w) < 2 ^ 31"
    using sst_example_written by blast
  show ?thesis using table_round_trip [OF w serves_file_src valid_enc] w(1) by blast
qed

theorem table_get_newest_witness:
  "\<exists>p w r. write_table no_faults default_options sst_example = Some (Inr p, w)
    \<and> NewReader (file_src (sw_out w)) (FileSize p) = Some (Inr r)
    \<and> Reader_Get [97] 2 r = Some (Inr (Some ([1], KindPut)))"
proof -
  obtain p w where w: "write_table no_faults default_options sst_example = Some (Inr p, w)" "length (sw_out w) < 2 ^ 31"
    using sst_example_written by blast
  have "newest_visible [97] 2 sst_example = Some ([1], KindPut)"
    using trailer_enc [OF sst_small(1,4), of "[97]"] trailer_enc [OF sst_small(3,4), of "[97]"] UserKey_enc [of "[98]" 2 KindDelete]
      UserKey_enc [of "[97]" 1 KindPut] UserKey_enc [of "[97]" 3 KindPut]
    by (simp add: newest_visible_def visible_def KindPut_def)
  then show ?thesis using table_get_newest [OF w serves_file_src sst_example_ok(2) sst_small(2), of "[97]"] w(1) by metis
qed

theorem huge_value_unreadable_witness:
  "\<exists>p w r. write_table no_faults default_options [(enc_ikey [97] 1 KindPut, replicate (2 ^ 31) 0)] = Some (Inr p, w)
    \<and> NewReader (file_src (sw_out w)) (FileSize p) = Some (Inr r)
    \<and> Reader_Get (UserKey (enc_ikey [97] 1 KindPut)) MaxSeq r
        = Some (Inl (HandleLength (DataRegion 0) (length (blk_bytes 16 [(enc_ikey [97] 1 KindPut, replicate (2 ^ 31) 0)]))))"
proof (rule huge_value_unreadable)
  show "wf_key (enc_ikey [97] 1 KindPut)" unfolding wf_key_def using sst_small by blast
  show "2 ^ 31 \<le> length (replicate (2 ^ 31) (0 :: byte))" "length (enc_ikey [97] 1 KindPut) + length (replicate (2 ^ 31) (0 :: byte)) + 60 < 2 ^ 32"
    by simp_all
qed

theorem table_reader_never_panics_witness:
  "\<exists>p w r it. write_table no_faults default_options sst_example = Some (Inr p, w)
    \<and> NewReader (file_src (sw_out w)) (FileSize p) = Some (Inr r) \<and> Reader_Get [99] 7 r \<noteq> None
    \<and> run_calls [CallFirst, CallNext, CallSeek (enc_ikey [98] 9 KindPut)] (sst_NewIterator r) = Some it"
proof -
  obtain p w where w: "write_table no_faults default_options sst_example = Some (Inr p, w)" "length (sw_out w) < 2 ^ 31"
    using sst_example_written by blast
  obtain r where r: "NewReader (file_src (sw_out w)) (FileSize p) = Some (Inr r)" using open_written [OF w serves_file_src] by blast
  have s: "7 \<le> MaxSeq" "\<forall>k. CallSeek k \<in> set [CallFirst, CallNext, CallSeek (enc_ikey [98] 9 KindPut)] \<longrightarrow> valid_ikey k"
    by (simp_all add: MaxSeq_def valid_ikey_def)
  obtain res where res: "NewReader (file_src (sw_out w)) (FileSize p) = Some res"
    "\<forall>r. res = Inr r \<longrightarrow> Reader_Get [99] 7 r \<noteq> None
        \<and> (\<exists>it. run_calls [CallFirst, CallNext, CallSeek (enc_ikey [98] 9 KindPut)] (sst_NewIterator r) = Some it
          \<and> (si_Valid it \<longrightarrow> io_Key sst_iterator it \<noteq> None \<and> io_Value sst_iterator it \<noteq> None))"
    using table_reader_never_panics [OF s, of "file_src (sw_out w)" "FileSize p" "[99]"] by blast
  have "res = Inr r" using r res(1) by simp
  then show ?thesis using w(1) r res(2) by blast
qed

end
