(* ===== verification/ContainerHeap.thy ===== *)
theory ContainerHeap
  imports Prelude "HOL-Library.Multiset"
begin

text \<open>
  Go's \<^verbatim>\<open>container/heap\<close> on a slice, as \<^verbatim>\<open>src/merge.go\<close> uses it: the sift-down loop, \<^verbatim>\<open>Init\<close>, \<^verbatim>\<open>Fix\<close> and
  \<^verbatim>\<open>Pop\<close>.  The comparison may panic.  When it compares by a rank, every operation keeps the elements, and
  the element at the front is one of least rank.
\<close>

section \<open>Definitions\<close>

definition swap :: "nat \<Rightarrow> nat \<Rightarrow> 'a list \<Rightarrow> 'a list" where
  "swap i j xs = xs[i := xs ! j, j := xs ! i]"

text \<open>The child the loop descends to, if the element at \<open>i\<close> has to move.\<close>

definition sift_child :: "('a \<Rightarrow> 'a \<Rightarrow> bool option) \<Rightarrow> nat \<Rightarrow> nat \<Rightarrow> 'a list \<Rightarrow> nat option option" where
  "sift_child lss n i xs =
     (let j1 = 2 * i + 1 in
      if j1 \<ge> n then Some None
      else do {
        let j2 = j1 + 1;
        right \<leftarrow> (if j2 < n then lss (xs ! j2) (xs ! j1) else Some False);
        let j = (if right then j2 else j1);
        b \<leftarrow> lss (xs ! j) (xs ! i);
        Some (if b then Some j else None)
      })"

function heap_down :: "('a \<Rightarrow> 'a \<Rightarrow> bool option) \<Rightarrow> nat \<Rightarrow> nat \<Rightarrow> 'a list \<Rightarrow> 'a list option" where
  "heap_down lss n i xs =
     (case sift_child lss n i xs of
        None \<Rightarrow> None
      | Some None \<Rightarrow> Some xs
      | Some (Some j) \<Rightarrow> heap_down lss n j (swap i j xs))"
  by pat_completeness auto

lemma sift_child_bounds: "sift_child lss n i xs = Some (Some j) \<Longrightarrow> i < j \<and> j < n \<and> (j = 2 * i + 1 \<or> j = 2 * i + 2)"
  by (auto simp: sift_child_def Let_def bind_eq_Some_conv split: if_splits)

termination heap_down
  by (relation "measure (\<lambda>(lss, n, i, xs). n - i)") (auto dest!: sift_child_bounds)

declare heap_down.simps [simp del]

fun heap_init_loop :: "('a \<Rightarrow> 'a \<Rightarrow> bool option) \<Rightarrow> nat \<Rightarrow> nat \<Rightarrow> 'a list \<Rightarrow> 'a list option" where
  "heap_init_loop lss n 0 xs = Some xs"
| "heap_init_loop lss n (Suc i) xs = heap_down lss n i xs \<bind> heap_init_loop lss n i"

definition heap_Init :: "('a \<Rightarrow> 'a \<Rightarrow> bool option) \<Rightarrow> 'a list \<Rightarrow> 'a list option" where
  "heap_Init lss xs = heap_init_loop lss (length xs) (length xs div 2) xs"

text \<open>\<^verbatim>\<open>Fix(h, 0)\<close>: the front has no parent, so only the sift-down can move it.\<close>

definition heap_Fix0 :: "('a \<Rightarrow> 'a \<Rightarrow> bool option) \<Rightarrow> 'a list \<Rightarrow> 'a list option" where
  "heap_Fix0 lss xs = heap_down lss (length xs) 0 xs"

definition heap_Pop :: "('a \<Rightarrow> 'a \<Rightarrow> bool option) \<Rightarrow> 'a list \<Rightarrow> ('a \<times> 'a list) option" where
  "heap_Pop lss xs =
     (if xs = [] then None
      else do {
        let n = length xs - 1;
        xs \<leftarrow> heap_down lss n 0 (swap 0 n xs);
        Some (last xs, butlast xs)
      })"

section \<open>Correctness\<close>

definition child :: "nat \<Rightarrow> nat \<Rightarrow> bool" where
  "child c p \<longleftrightarrow> c = 2 * p + 1 \<or> c = 2 * p + 2"

definition heap_above :: "('a \<Rightarrow> 'b :: linorder) \<Rightarrow> nat \<Rightarrow> nat \<Rightarrow> 'a list \<Rightarrow> bool" where
  "heap_above rk n i xs \<longleftrightarrow> (\<forall>p c. i \<le> p \<and> child c p \<and> c < n \<longrightarrow> rk (xs ! p) \<le> rk (xs ! c))"

text \<open>The heap below \<open>i0\<close> with at most the element at \<open>i\<close> too large for its place.\<close>

definition almost :: "('a \<Rightarrow> 'b :: linorder) \<Rightarrow> nat \<Rightarrow> nat \<Rightarrow> nat \<Rightarrow> 'a list \<Rightarrow> bool" where
  "almost rk n i0 i xs \<longleftrightarrow> (\<forall>p c. i0 \<le> p \<and> p \<noteq> i \<and> child c p \<and> c < n \<longrightarrow> rk (xs ! p) \<le> rk (xs ! c))
     \<and> (\<forall>q c. i0 \<le> q \<and> child i q \<and> child c i \<and> c < n \<longrightarrow> rk (xs ! q) \<le> rk (xs ! c))"

lemma child_simps: "child c p \<Longrightarrow> p < c" "child c p \<Longrightarrow> child c q \<Longrightarrow> p = q"
  by (auto simp: child_def)

lemma swap_nth:
  assumes "i < length xs" "j < length xs" "k < length xs"
  shows "swap i j xs ! k = (if k = i then xs ! j else if k = j then xs ! i else xs ! k)"
  using assms by (auto simp: swap_def nth_list_update)

lemma swap_simps [simp]: "length (swap i j xs) = length xs" "i < length xs \<Longrightarrow> j < length xs \<Longrightarrow> mset (swap i j xs) = mset xs"
  by (simp_all add: swap_def mset_swap)

lemma almost_step:
  assumes a: "almost rk n i0 i xs" and "i0 \<le> i" and len: "n \<le> length xs" and j: "child j i" "j < n"
    and least: "\<And>c. child c i \<Longrightarrow> c < n \<Longrightarrow> rk (xs ! j) \<le> rk (xs ! c)" and lt: "rk (xs ! j) < rk (xs ! i)"
  shows "almost rk n i0 j (swap i j xs)"
proof -
  have ij: "i < j" by (rule child_simps(1) [OF j(1)])
  have nth: "swap i j xs ! k = (if k = i then xs ! j else if k = j then xs ! i else xs ! k)" if "k < n" for k
    using that ij j(2) len by (intro swap_nth) auto
  have up: "rk (xs ! q) \<le> rk (xs ! j)" if "i0 \<le> q" "child i q" for q
    using a that j unfolding almost_def by blast
  have rel: "rk (xs ! p) \<le> rk (xs ! c)" if "i0 \<le> p" "p \<noteq> i" "child c p" "c < n" for p c
    using a that unfolding almost_def by blast
  show ?thesis unfolding almost_def
  proof (intro conjI allI impI; elim conjE)
    fix p c assume pc: "i0 \<le> p" "p \<noteq> j" "child c p" "c < n"
    have p: "p < n" "p < c" using child_simps(1) [OF pc(3)] pc(4) by auto
    show "rk (swap i j xs ! p) \<le> rk (swap i j xs ! c)"
    proof (cases "p = i")
      case True
      then show ?thesis using pc p lt least nth [OF p(1)] nth [OF pc(4)] by auto
    next
      case False
      have "c \<noteq> j" using child_simps(2) [OF j(1)] pc(3) False by auto
      then show ?thesis using False pc p nth [OF p(1)] nth [OF pc(4)] rel [OF pc(1) False pc(3,4)] up [of p] by auto
    qed
  next
    fix q c assume qc: "i0 \<le> q" "child j q" "child c j" "c < n"
    then have q: "q = i" using child_simps(2) [OF j(1)] by auto
    have c: "j < c" by (rule child_simps(1) [OF qc(3)])
    show "rk (swap i j xs ! q) \<le> rk (swap i j xs ! c)"
      using q c ij qc nth [of i] nth [of c] rel [of j c] assms(2) by auto
  qed
qed

lemma heap_down_spec:
  assumes "\<And>a b. a < n \<Longrightarrow> b < n \<Longrightarrow> lss (xs ! a) (xs ! b) = Some (rk (xs ! a) < rk (xs ! b))"
    "almost rk n i0 i xs" "i0 \<le> i" "n \<le> length xs" "i < length xs"
  shows "\<exists>ys. heap_down lss n i xs = Some ys \<and> mset ys = mset xs \<and> heap_above rk n i0 ys \<and> (\<forall>k\<ge>n. ys ! k = xs ! k)"
  using assms
proof (induction lss n i xs rule: heap_down.induct)
  case (1 lss n i xs)
  note nth = "1.prems"(1)
  define j where "j = (if 2 * i + 2 < n \<and> rk (xs ! (2 * i + 2)) < rk (xs ! (2 * i + 1)) then 2 * i + 2 else 2 * i + 1)"
  have sc: "sift_child lss n i xs = (if 2 * i + 1 \<ge> n then Some None else Some (if rk (xs ! j) < rk (xs ! i) then Some j else None))"
    using "1.prems"(4,5) nth by (auto simp: sift_child_def Let_def j_def)
  have least: "rk (xs ! j) \<le> rk (xs ! c)" if "child c i" "c < n" for c
    using that by (auto simp: j_def child_def not_less)
  show ?case
  proof (cases "2 * i + 1 < n \<and> rk (xs ! j) < rk (xs ! i)")
    case True
    have j: "child j i" "j < n" using True by (auto simp: j_def child_def)
    have s: "sift_child lss n i xs = Some (Some j)" using sc True by simp
    have ij: "i < length xs" "j < length xs" "i < n" using "1.prems"(4) j child_simps(1) [OF j(1)] by auto
    have "\<exists>ys. heap_down lss n j (swap i j xs) = Some ys \<and> mset ys = mset (swap i j xs) \<and> heap_above rk n i0 ys \<and> (\<forall>k\<ge>n. ys ! k = swap i j xs ! k)"
    proof (rule "1.IH" [OF s refl])
      show "lss (swap i j xs ! a) (swap i j xs ! b) = Some (rk (swap i j xs ! a) < rk (swap i j xs ! b))" if "a < n" "b < n" for a b
        using that ij j(2) "1.prems"(4) nth by (simp add: swap_nth)
      show "almost rk n i0 j (swap i j xs)"
        using True by (intro almost_step [OF "1.prems"(2-4) j]) (auto intro: least)
    qed (use "1.prems" j child_simps(1) [OF j(1)] ij in auto)
    moreover have "swap i j xs ! k = xs ! k" if "n \<le> k" for k using that ij j by (simp add: swap_def)
    ultimately show ?thesis using s ij by (subst heap_down.simps) auto
  next
    case False
    have "heap_above rk n i0 xs"
      unfolding heap_above_def
    proof (intro allI impI; elim conjE)
      fix p c assume pc: "i0 \<le> p" "child c p" "c < n"
      show "rk (xs ! p) \<le> rk (xs ! c)"
      proof (cases "p = i")
        case True
        then have "2 * i + 1 < n" using pc by (auto simp: child_def)
        then show ?thesis using False least [of c] pc True by auto
      next
        case False
        then show ?thesis using "1.prems"(2) pc unfolding almost_def by blast
      qed
    qed
    moreover have "heap_down lss n i xs = Some xs" using False sc by (subst heap_down.simps) auto
    ultimately show ?thesis by simp
  qed
qed

lemma heap_above_almost: "heap_above rk n (Suc i) xs \<Longrightarrow> almost rk n i i xs"
  by (auto simp: almost_def heap_above_def dest: child_simps(1))

lemma heap_init_loop_spec:
  assumes "\<And>a b. a \<in> set xs \<Longrightarrow> b \<in> set xs \<Longrightarrow> lss a b = Some (rk a < rk b)" "heap_above rk n i xs" "n \<le> length xs" "i \<le> n"
  shows "\<exists>ys. heap_init_loop lss n i xs = Some ys \<and> mset ys = mset xs \<and> heap_above rk n 0 ys"
  using assms
proof (induction i arbitrary: xs)
  case (Suc i)
  obtain ys where ys: "heap_down lss n i xs = Some ys" "mset ys = mset xs" "heap_above rk n i ys"
    using heap_down_spec [of n lss xs rk, OF _ heap_above_almost [OF Suc.prems(2)] order_refl Suc.prems(3)] Suc.prems(1,3,4) by auto
  have "set ys = set xs" "length ys = length xs" using ys(2) mset_eq_setD mset_eq_length by blast+
  then show ?case using Suc.IH [of ys] Suc.prems ys by auto
qed simp

lemma heap_Init_spec:
  assumes "\<And>a b. a \<in> set xs \<Longrightarrow> b \<in> set xs \<Longrightarrow> lss a b = Some (rk a < rk b)"
  shows "\<exists>ys. heap_Init lss xs = Some ys \<and> mset ys = mset xs \<and> heap_above rk (length ys) 0 ys"
proof -
  have "heap_above rk (length xs) (length xs div 2) xs" by (auto simp: heap_above_def child_def)
  from heap_init_loop_spec [of xs lss rk, OF assms this] obtain ys
    where "heap_init_loop lss (length xs) (length xs div 2) xs = Some ys" "mset ys = mset xs" "heap_above rk (length xs) 0 ys" by auto
  moreover from this(2) have "length ys = length xs" by (rule mset_eq_length)
  ultimately show ?thesis by (auto simp: heap_Init_def)
qed

lemma heap_front:
  assumes "heap_above rk n 0 xs" "i < n"
  shows "rk (xs ! 0) \<le> rk (xs ! i)"
  using assms(2)
proof (induction i rule: less_induct)
  case (less i)
  show ?case
  proof (cases "i = 0")
    case False
    let ?p = "(i - 1) div 2"
    have "child i ?p" "?p < i" using False by (auto simp: child_def)
    then have "rk (xs ! ?p) \<le> rk (xs ! i)" using assms(1) less.prems by (auto simp: heap_above_def)
    then show ?thesis using less.IH [of ?p] \<open>?p < i\<close> less.prems by auto
  qed simp
qed

lemma heap_Fix0_spec:
  assumes "\<And>a b. a \<in> set xs \<Longrightarrow> b \<in> set xs \<Longrightarrow> lss a b = Some (rk a < rk b)" "heap_above rk (length xs) 1 xs"
  shows "\<exists>ys. heap_Fix0 lss xs = Some ys \<and> mset ys = mset xs \<and> heap_above rk (length ys) 0 ys"
proof (cases "xs = []")
  case True
  then show ?thesis by (simp add: heap_Fix0_def heap_down.simps sift_child_def heap_above_def)
next
  case False
  have "almost rk (length xs) 0 0 xs" using heap_above_almost [of rk "length xs" 0 xs] assms(2) by simp
  then obtain ys where "heap_down lss (length xs) 0 xs = Some ys" "mset ys = mset xs" "heap_above rk (length xs) 0 ys"
    using heap_down_spec [of "length xs" lss xs rk 0 0] assms(1) False by auto
  then show ?thesis using mset_eq_length by (fastforce simp: heap_Fix0_def)
qed

text \<open>The popped element is never compared.\<close>

lemma heap_Pop_spec:
  assumes "\<And>a b. a \<in> set (tl xs) \<Longrightarrow> b \<in> set (tl xs) \<Longrightarrow> lss a b = Some (rk a < rk b)" "heap_above rk (length xs) 1 xs" "xs \<noteq> []"
  shows "\<exists>ys. heap_Pop lss xs = Some (xs ! 0, ys) \<and> mset ys = mset xs - {#xs ! 0#} \<and> heap_above rk (length ys) 0 ys"
proof -
  let ?n = "length xs - 1" and ?zs = "swap 0 (length xs - 1) xs"
  have n: "?n < length xs" using assms(3) by simp
  have nth: "?zs ! k = (if k = 0 then xs ! ?n else if k = ?n then xs ! 0 else xs ! k)" if "k < length xs" for k
    using swap_nth [of 0 xs ?n k] that assms(3) by simp
  have zs: "length ?zs = length xs" "mset ?zs = mset xs" using n assms(3) by simp_all
  have tl: "?zs ! a \<in> set (tl xs)" if "a < ?n" for a
  proof -
    have "?zs ! a = tl xs ! (if a = 0 then ?n - 1 else a - 1)" using nth [of a] that by (auto simp: nth_tl Suc_diff_Suc numeral_2_eq_2)
    then show ?thesis using that by (auto intro!: nth_mem)
  qed
  have le: "lss (?zs ! a) (?zs ! b) = Some (rk (?zs ! a) < rk (?zs ! b))" if "a < ?n" "b < ?n" for a b
    using assms(1) tl that by simp
  have "heap_above rk ?n 1 ?zs" unfolding heap_above_def
  proof (intro allI impI; elim conjE)
    fix p c assume pc: "1 \<le> p" "child c p" "c < ?n"
    then show "rk (?zs ! p) \<le> rk (?zs ! c)"
      using nth [of p] nth [of c] child_simps(1) [OF pc(2)] assms(2) by (auto simp: heap_above_def)
  qed
  then have "almost rk ?n 0 0 ?zs" using heap_above_almost [of rk ?n 0 ?zs] by simp
  then obtain ys where ys: "heap_down lss ?n 0 ?zs = Some ys" "mset ys = mset xs" "heap_above rk ?n 0 ys" "\<forall>k\<ge>?n. ys ! k = ?zs ! k"
    using heap_down_spec [of ?n lss ?zs rk 0 0, OF le] zs n assms(3) by auto
  have l: "length ys = length xs" by (rule mset_eq_length [OF ys(2)])
  have ne: "ys \<noteq> []" using l assms(3) by auto
  have "last ys = ys ! ?n" using ne l by (simp add: last_conv_nth)
  also have "\<dots> = xs ! 0" using ys(4) nth [OF n] by auto
  finally have la: "last ys = xs ! 0" .
  have "mset (butlast ys @ [last ys]) = mset xs" using ys(2) ne by simp
  then have "mset (butlast ys) + {#xs ! 0#} = mset xs" using la by simp
  then have "mset (butlast ys) = mset xs - {#xs ! 0#}" by (metis add_diff_cancel_right')
  moreover have "heap_above rk (length (butlast ys)) 0 (butlast ys)"
    unfolding heap_above_def
  proof (intro allI impI; elim conjE)
    fix p c assume pc: "0 \<le> p" "child c p" "c < length (butlast ys)"
    then have "butlast ys ! p = ys ! p" "butlast ys ! c = ys ! c" using child_simps(1) [OF pc(2)] by (simp_all add: nth_butlast)
    then show "rk (butlast ys ! p) \<le> rk (butlast ys ! c)" using ys(3) l pc by (auto simp: heap_above_def)
  qed
  ultimately show ?thesis using ys(1) assms(3) la by (simp add: heap_Pop_def)
qed

end
