(* ===== verification/Merge.thy ===== *)
theory Merge
  imports KeyOrder ContainerHeap
begin

text \<open>
  The merging iterator of \<^verbatim>\<open>src/merge.go\<close>: a heap of the valid children, ordered by their current key.  The heap
  holds references to the children, modelled as their indices, so that advancing a child is seen through
  the heap.  If every child walks its own sorted sequence, the merge walks the sorted union of them and is itself
  an implementation of the iterator interface; an error of a child invalidates it.
\<close>

section \<open>Operations\<close>

record ('s, 'e) mergingIter =
  mi_children :: "'s list"
  mi_h :: "nat list"
  mi_err :: "'e option"

definition newMergingIter :: "'s list \<Rightarrow> ('s, 'e) mergingIter" where
  "newMergingIter cs = \<lparr>mi_children = cs, mi_h = [], mi_err = None\<rparr>"

definition iter_less :: "('s, 'e) internalIterator \<Rightarrow> 's list \<Rightarrow> nat \<Rightarrow> nat \<Rightarrow> bool option" where
  "iter_less ops cs i j =
     do { a \<leftarrow> io_Key ops (cs ! i); b \<leftarrow> io_Key ops (cs ! j); c \<leftarrow> compare_keys a b; Some (c < 0) }"

definition mi_fail :: "'e \<Rightarrow> ('s, 'e) mergingIter \<Rightarrow> ('s, 'e) mergingIter" where
  "mi_fail e m = m\<lparr>mi_err := (case mi_err m of None \<Rightarrow> Some e | Some e0 \<Rightarrow> Some e0), mi_h := []\<rparr>"

text \<open>The loop over the children; the flag tells whether it reached the end.\<close>

function repos_loop :: "('s, 'e) internalIterator \<Rightarrow> ('s \<Rightarrow> 's option) \<Rightarrow> nat \<Rightarrow> ('s, 'e) mergingIter \<Rightarrow> (bool \<times> ('s, 'e) mergingIter) option" where
  "repos_loop ops f i m =
     (if i < length (mi_children m)
      then do {
        c \<leftarrow> f (mi_children m ! i);
        let m = m\<lparr>mi_children := (mi_children m)[i := c]\<rparr>;
        case io_Error ops c of
          Some e \<Rightarrow> Some (False, mi_fail e m)
        | None \<Rightarrow> repos_loop ops f (Suc i) (if io_Valid ops c then m\<lparr>mi_h := mi_h m @ [i]\<rparr> else m)
      }
      else Some (True, m))"
  by pat_completeness auto

termination repos_loop
  by (relation "measure (\<lambda>(ops, f, i, m). length (mi_children m) - i)") (auto split: if_splits)

declare repos_loop.simps [simp del]

definition reposition :: "('s, 'e) internalIterator \<Rightarrow> ('s \<Rightarrow> 's option) \<Rightarrow> ('s, 'e) mergingIter \<Rightarrow> ('s, 'e) mergingIter option" where
  "reposition ops f m =
     (if mi_err m \<noteq> None then Some m
      else do {
        (fin, m) \<leftarrow> repos_loop ops f 0 (m\<lparr>mi_h := []\<rparr>);
        if fin then do { h \<leftarrow> heap_Init (iter_less ops (mi_children m)) (mi_h m); Some (m\<lparr>mi_h := h\<rparr>) }
        else Some m
      })"

definition mi_First :: "('s, 'e) internalIterator \<Rightarrow> ('s, 'e) mergingIter \<Rightarrow> ('s, 'e) mergingIter option" where
  "mi_First ops = reposition ops (io_First ops)"

definition mi_SeekGE :: "('s, 'e) internalIterator \<Rightarrow> bytes \<Rightarrow> ('s, 'e) mergingIter \<Rightarrow> ('s, 'e) mergingIter option" where
  "mi_SeekGE ops key = reposition ops (io_SeekGE ops key)"

definition mi_Valid :: "('s, 'e) mergingIter \<Rightarrow> bool" where
  "mi_Valid m \<longleftrightarrow> mi_err m = None \<and> mi_h m \<noteq> []"

definition mi_Next :: "('s, 'e) internalIterator \<Rightarrow> ('s, 'e) mergingIter \<Rightarrow> ('s, 'e) mergingIter option" where
  "mi_Next ops m =
     (if \<not> mi_Valid m then None
      else do {
        let i = mi_h m ! 0;
        c \<leftarrow> io_Next ops (mi_children m ! i);
        let m = m\<lparr>mi_children := (mi_children m)[i := c]\<rparr>;
        let lss = iter_less ops (mi_children m);
        case io_Error ops c of
          Some e \<Rightarrow> Some (mi_fail e m)
        | None \<Rightarrow>
            if io_Valid ops c then do { h \<leftarrow> heap_Fix0 lss (mi_h m); Some (m\<lparr>mi_h := h\<rparr>) }
            else do { (_, h) \<leftarrow> heap_Pop lss (mi_h m); Some (m\<lparr>mi_h := h\<rparr>) }
      })"

definition mi_Key :: "('s, 'e) internalIterator \<Rightarrow> ('s, 'e) mergingIter \<Rightarrow> bytes option" where
  "mi_Key ops m = (if mi_h m = [] then None else io_Key ops (mi_children m ! (mi_h m ! 0)))"

definition mi_Value :: "('s, 'e) internalIterator \<Rightarrow> ('s, 'e) mergingIter \<Rightarrow> bytes option" where
  "mi_Value ops m = (if mi_h m = [] then None else io_Value ops (mi_children m ! (mi_h m ! 0)))"

definition merging_iterator :: "('s, 'e) internalIterator \<Rightarrow> (('s, 'e) mergingIter, 'e) internalIterator" where
  "merging_iterator ops = \<lparr>io_First = mi_First ops, io_SeekGE = mi_SeekGE ops, io_Next = mi_Next ops, io_Valid = mi_Valid,
     io_Key = mi_Key ops, io_Value = mi_Value ops, io_Error = mi_err\<rparr>"

section \<open>The merge walks the union\<close>

definition head_rank :: "entry list list \<Rightarrow> nat \<Rightarrow> bytes \<times> nat" where
  "head_rank rests i = ikey_rank (fst (hd (rests ! i)))"

text \<open>\<open>ess\<close> are the sequences of the children and \<open>rests\<close> what is ahead in each.\<close>

definition merge_state :: "('s \<Rightarrow> entry list \<Rightarrow> entry list \<Rightarrow> bool) \<Rightarrow> entry list list \<Rightarrow> entry list list \<Rightarrow> ('s, 'e) mergingIter \<Rightarrow> bool" where
  "merge_state over ess rests m \<longleftrightarrow> mi_err m = None \<and> length ess = length (mi_children m) \<and> length rests = length (mi_children m)
     \<and> (\<forall>i<length (mi_children m). over (mi_children m ! i) (ess ! i) (rests ! i))
     \<and> distinct (mi_h m) \<and> set (mi_h m) = {i. i < length rests \<and> rests ! i \<noteq> []}
     \<and> heap_above (head_rank rests) (length (mi_h m)) 0 (mi_h m)"

definition merge_over :: "('s \<Rightarrow> entry list \<Rightarrow> entry list \<Rightarrow> bool) \<Rightarrow> ('s, 'e) mergingIter \<Rightarrow> entry list \<Rightarrow> entry list \<Rightarrow> bool" where
  "merge_over over m es rest \<longleftrightarrow> key_sorted es \<and> suffix rest es
     \<and> (\<exists>ess rests. merge_state over ess rests m \<and> mset es = mset (concat ess) \<and> mset rest = mset (concat rests))"

lemma key_sorted_suffix: "key_sorted es \<Longrightarrow> suffix rest es \<Longrightarrow> key_sorted rest"
  by (auto simp: suffix_def key_sorted_append)

lemma key_sorted_rank_inj:
  "key_sorted es \<Longrightarrow> x \<in> set es \<Longrightarrow> y \<in> set es \<Longrightarrow> ikey_rank (fst x) = ikey_rank (fst y) \<Longrightarrow> x = y"
  by (induction es) auto

lemma mset_dropWhile:
  assumes "key_sorted es" "\<forall>xs\<in>set ess. key_sorted xs" "mset es = mset (concat ess)"
  shows "mset (dropWhile (ltk k) es) = mset (concat (map (dropWhile (ltk k)) ess))"
proof -
  have "map (dropWhile (ltk k)) ess = map (filter (\<lambda>e. \<not> ltk k e)) ess" using assms(2) key_sorted_dropWhile by auto
  then have "concat (map (dropWhile (ltk k)) ess) = filter (\<lambda>e. \<not> ltk k e) (concat ess)" by (metis filter_concat)
  then show ?thesis using assms(3) key_sorted_dropWhile [OF assms(1)] by (simp add: mset_filter)
qed

lemma mset_concat_tl:
  assumes "i < length xss" "xss ! i = x # xs"
  shows "mset (concat xss) = add_mset x (mset (concat (xss[i := xs])))"
proof -
  have "xss = take i xss @ (x # xs) # drop (Suc i) xss" using id_take_nth_drop [OF assms(1)] assms(2) by simp
  then have "concat xss = concat (take i xss) @ (x # xs) @ concat (drop (Suc i) xss)" by (metis concat.simps(2) concat_append)
  moreover have "concat (xss[i := xs]) = concat (take i xss) @ xs @ concat (drop (Suc i) xss)"
    using assms(1) by (simp add: upd_conv_take_nth_drop)
  ultimately show ?thesis by simp
qed

locale mergeable = internal_iterator +
  assumes over_valid: "over s es rest \<Longrightarrow> e \<in> set es \<Longrightarrow> valid_ikey (fst e)"
begin

lemma child_less:
  assumes "\<And>k. k = i \<or> k = j \<Longrightarrow> over (cs ! k) (ess ! k) (rests ! k) \<and> rests ! k \<noteq> []"
  shows "iter_less ops cs i j = Some (head_rank rests i < head_rank rests j)"
proof -
  have key: "io_Key ops (cs ! k) = Some (fst (hd (rests ! k))) \<and> valid_ikey (fst (hd (rests ! k)))" if "k = i \<or> k = j" for k
  proof -
    have o: "over (cs ! k) (ess ! k) (rests ! k)" "rests ! k \<noteq> []" using assms [OF that] by auto
    then have "hd (rests ! k) \<in> set (ess ! k)" using over_sorted [OF o(1)] by (metis hd_in_set set_mono_suffix subsetD)
    then show ?thesis using over_valid [OF o(1)] over_Key [of "cs ! k" "ess ! k" "hd (rests ! k)" "tl (rests ! k)"] o by simp
  qed
  then show ?thesis using key [of i] key [of j] by (simp add: iter_less_def compare_keys_def head_rank_def Compare_rank)
qed

lemma repos_loop_spec:
  assumes "length ess = length (mi_children m)" "length Rs = length (mi_children m)"
    "\<And>j. i \<le> j \<Longrightarrow> j < length (mi_children m) \<Longrightarrow> \<exists>c. f (mi_children m ! j) = Some c \<and> over c (ess ! j) (Rs ! j)"
  shows "\<exists>cs. repos_loop ops f i m = Some (True, m\<lparr>mi_children := cs, mi_h := mi_h m @ filter (\<lambda>j. Rs ! j \<noteq> []) [i..<length cs]\<rparr>)
    \<and> length cs = length (mi_children m) \<and> (\<forall>j<i. cs ! j = mi_children m ! j) \<and> (\<forall>j. i \<le> j \<and> j < length cs \<longrightarrow> over (cs ! j) (ess ! j) (Rs ! j))"
  using assms
proof (induction "length (mi_children m) - i" arbitrary: i m)
  case 0
  then show ?case by (subst repos_loop.simps) (auto intro!: exI [of _ "mi_children m"])
next
  case (Suc n)
  have i: "i < length (mi_children m)" using Suc.hyps(2) by simp
  obtain c where c: "f (mi_children m ! i) = Some c" "over c (ess ! i) (Rs ! i)" using Suc.prems(3) [OF order_refl i] by blast
  define m1 where "m1 = m\<lparr>mi_children := (mi_children m)[i := c], mi_h := mi_h m @ (if Rs ! i \<noteq> [] then [i] else [])\<rparr>"
  have "repos_loop ops f i m = repos_loop ops f (Suc i) m1"
    using i c over_Error [OF c(2)] over_Valid [OF c(2)] by (subst repos_loop.simps) (simp add: m1_def Let_def)
  moreover have "\<exists>cs. repos_loop ops f (Suc i) m1 = Some (True, m1\<lparr>mi_children := cs, mi_h := mi_h m1 @ filter (\<lambda>j. Rs ! j \<noteq> []) [Suc i..<length cs]\<rparr>)
    \<and> length cs = length (mi_children m1) \<and> (\<forall>j<Suc i. cs ! j = mi_children m1 ! j) \<and> (\<forall>j. Suc i \<le> j \<and> j < length cs \<longrightarrow> over (cs ! j) (ess ! j) (Rs ! j))"
    by (rule Suc.hyps(1)) (use Suc.hyps(2) Suc.prems in \<open>auto simp: m1_def\<close>)
  then obtain cs where cs: "repos_loop ops f (Suc i) m1 = Some (True, m1\<lparr>mi_children := cs, mi_h := mi_h m1 @ filter (\<lambda>j. Rs ! j \<noteq> []) [Suc i..<length cs]\<rparr>)"
    "length cs = length (mi_children m)" "\<forall>j<Suc i. cs ! j = (mi_children m)[i := c] ! j" "\<forall>j. Suc i \<le> j \<and> j < length cs \<longrightarrow> over (cs ! j) (ess ! j) (Rs ! j)"
    by (auto simp: m1_def)
  moreover have "[i..<length cs] = i # [Suc i..<length cs]" using i cs(2) by (simp add: upt_conv_Cons)
  moreover have "over (cs ! j) (ess ! j) (Rs ! j)" if "i \<le> j" "j < length cs" for j
    using that cs(2-4) i c(2) by (cases "j = i") auto
  ultimately show ?case using cs(3) by (intro exI [of _ cs]) (auto simp: m1_def)
qed

lemma reposition_spec:
  assumes "merge_state over ess rests m" "length Rs = length ess"
    "\<And>j. j < length (mi_children m) \<Longrightarrow> \<exists>c. f (mi_children m ! j) = Some c \<and> over c (ess ! j) (Rs ! j)"
  shows "\<exists>m'. reposition ops f m = Some m' \<and> merge_state over ess Rs m'"
proof -
  have l: "length ess = length (mi_children m)" "mi_err m = None" using assms(1) by (simp_all add: merge_state_def)
  obtain cs where cs: "repos_loop ops f 0 (m\<lparr>mi_h := []\<rparr>) = Some (True, m\<lparr>mi_children := cs, mi_h := filter (\<lambda>j. Rs ! j \<noteq> []) [0..<length cs]\<rparr>)"
    "length cs = length (mi_children m)" "\<forall>j<length cs. over (cs ! j) (ess ! j) (Rs ! j)"
    using repos_loop_spec [of ess "m\<lparr>mi_h := []\<rparr>" Rs 0 f] assms(2,3) l by auto
  let ?h = "filter (\<lambda>j. Rs ! j \<noteq> []) [0..<length cs]"
  have "iter_less ops cs a b = Some (head_rank Rs a < head_rank Rs b)" if "a \<in> set ?h" "b \<in> set ?h" for a b
    by (rule child_less [of _ _ _ ess]) (use that cs(3) in auto)
  from heap_Init_spec [of ?h "iter_less ops cs" "head_rank Rs", OF this]
  obtain h where h: "heap_Init (iter_less ops cs) ?h = Some h" "mset h = mset ?h" "heap_above (head_rank Rs) (length h) 0 h" by blast
  have "set h = set ?h" "distinct h" using mset_eq_setD [OF h(2)] mset_eq_imp_distinct_iff [OF h(2)] by simp_all
  then have "merge_state over ess Rs (m\<lparr>mi_children := cs, mi_h := h\<rparr>)"
    using cs(2,3) h(3) l assms(2) by (auto simp: merge_state_def)
  then show ?thesis using cs(1) h(1) l(2) by (auto simp: reposition_def)
qed

lemma merge_front:
  assumes "merge_state over ess rests m" "key_sorted (e # rest)" "mset (e # rest) = mset (concat rests)"
  shows "mi_h m \<noteq> []" "mi_h m ! 0 < length rests" "\<exists>r. rests ! (mi_h m ! 0) = e # r"
proof -
  note st = assms(1) [unfolded merge_state_def]
  have es: "set (e # rest) = set (concat rests)" by (rule mset_eq_setD [OF assms(3)])
  then have "e \<in> set (concat rests)" by auto
  then obtain xs where "xs \<in> set rests" "e \<in> set xs" by auto
  then obtain k where k: "k < length rests" "e \<in> set (rests ! k)" by (auto simp: in_set_conv_nth)
  then have kh: "k \<in> set (mi_h m)" using st by auto
  then show h: "mi_h m \<noteq> []" by auto
  let ?i = "mi_h m ! 0"
  have i: "?i < length rests" "rests ! ?i \<noteq> []" using st h nth_mem [of 0 "mi_h m"] by auto
  then show "?i < length rests" by simp
  obtain x r where x: "rests ! ?i = x # r" using i(2) by (cases "rests ! ?i") auto
  obtain p where p: "p < length (mi_h m)" "mi_h m ! p = k" using kh by (auto simp: in_set_conv_nth)
  have "head_rank rests ?i \<le> head_rank rests k" using heap_front [OF _ p(1)] st p(2) by auto
  moreover have "head_rank rests k \<le> ikey_rank (fst e)"
  proof -
    have o: "over (mi_children m ! k) (ess ! k) (rests ! k)" using st k by auto
    have "key_sorted (rests ! k)" using over_sorted [OF o] key_sorted_suffix by blast
    then show ?thesis using k(2) unfolding head_rank_def by (cases "rests ! k") auto
  qed
  ultimately have le: "ikey_rank (fst x) \<le> ikey_rank (fst e)" using x by (simp add: head_rank_def)
  have "x \<in> set (concat rests)" using x nth_mem [OF i(1)] by (auto intro!: bexI [of _ "rests ! ?i"])
  then have "x \<in> set (e # rest)" using es by simp
  then have "x = e" using le assms(2) by auto
  then show "\<exists>r. rests ! ?i = e # r" using x by simp
qed

lemma mi_Next_state:
  assumes "merge_state over ess rests m" "mi_h m \<noteq> []" "rests ! (mi_h m ! 0) = e # r"
  shows "\<exists>m'. mi_Next ops m = Some m' \<and> merge_state over ess (rests[mi_h m ! 0 := r]) m'"
proof -
  note st = assms(1) [unfolded merge_state_def]
  let ?i = "mi_h m ! 0" and ?h = "mi_h m"
  define R where "R = rests[?i := r]"
  have i: "?i < length rests" using st nth_mem [of 0 ?h] assms(2) by auto
  have o: "over (mi_children m ! ?i) (ess ! ?i) (e # r)" using st i assms(3) by metis
  obtain c where c: "io_Next ops (mi_children m ! ?i) = Some c" "over c (ess ! ?i) r" using over_Next [OF o] by blast
  define cs where "cs = (mi_children m)[?i := c]"
  have cs: "over (cs ! j) (ess ! j) (R ! j)" if "j < length cs" for j
    using that st c(2) i by (cases "j = ?i") (auto simp: cs_def R_def)
  have ne: "R ! j \<noteq> []" if "j \<in> set ?h" "j \<noteq> ?i" for j using that st by (auto simp: R_def)
  have dom: "j < length cs" if "j \<in> set ?h" for j using that st by (auto simp: cs_def)
  have le: "iter_less ops cs a b = Some (head_rank R a < head_rank R b)"
    if "a \<in> set ?h" "b \<in> set ?h" "R ! a \<noteq> []" "R ! b \<noteq> []" for a b
    by (rule child_less [of _ _ _ ess]) (use that cs dom in auto)
  have above: "heap_above (head_rank R) (length ?h) 1 ?h" unfolding heap_above_def
  proof (intro allI impI; elim conjE)
    fix p q assume pq: "1 \<le> p" "child q p" "q < length ?h"
    have q: "p < q" by (rule child_simps(1) [OF pq(2)])
    have "?h ! p \<noteq> ?i" "?h ! q \<noteq> ?i" using pq q st nth_eq_iff_index_eq [of ?h p 0] nth_eq_iff_index_eq [of ?h q 0] assms(2) by auto
    then have "head_rank R (?h ! p) = head_rank rests (?h ! p)" "head_rank R (?h ! q) = head_rank rests (?h ! q)" by (simp_all add: head_rank_def R_def)
    then show "head_rank R (?h ! p) \<le> head_rank R (?h ! q)" using st pq by (auto simp: heap_above_def)
  qed
  have idx: "{j. j < length R \<and> R ! j \<noteq> []} = (if r = [] then set ?h - {?i} else set ?h)"
    using st i assms(3) by (auto simp: R_def nth_list_update split: if_splits)
  have step: "merge_state over ess R (m\<lparr>mi_children := cs, mi_h := h\<rparr>)"
    if "distinct h" "set h = (if r = [] then set ?h - {?i} else set ?h)" "heap_above (head_rank R) (length h) 0 h" for h
    using that st cs idx by (auto simp: merge_state_def cs_def R_def)
  show ?thesis
  proof (cases "r = []")
    case False
    then have "\<exists>h. heap_Fix0 (iter_less ops cs) ?h = Some h \<and> mset h = mset ?h \<and> heap_above (head_rank R) (length h) 0 h"
      using le ne i by (intro heap_Fix0_spec above) (metis R_def nth_list_update_eq)
    then obtain h where h: "heap_Fix0 (iter_less ops cs) ?h = Some h" "mset h = mset ?h" "heap_above (head_rank R) (length h) 0 h" by blast
    have "merge_state over ess R (m\<lparr>mi_children := cs, mi_h := h\<rparr>)"
      using step [of h] h mset_eq_setD [OF h(2)] mset_eq_imp_distinct_iff [OF h(2)] st False by simp
    then show ?thesis using c h(1) over_Error [OF c(2)] over_Valid [OF c(2)] False st assms(2)
      by (auto simp: mi_Next_def mi_Valid_def Let_def cs_def R_def)
  next
    case True
    have tl: "a \<in> set ?h \<and> a \<noteq> ?i" if "a \<in> set (tl ?h)" for a using that st assms(2) by (cases ?h) auto
    then have "\<exists>h. heap_Pop (iter_less ops cs) ?h = Some (?i, h) \<and> mset h = mset ?h - {#?i#} \<and> heap_above (head_rank R) (length h) 0 h"
      using le ne by (intro heap_Pop_spec above assms(2)) metis
    then obtain h where h: "heap_Pop (iter_less ops cs) ?h = Some (?i, h)" "mset h = mset ?h - {#?i#}" "heap_above (head_rank R) (length h) 0 h" by blast
    have "mset h = mset (remove1 ?i ?h)" using h(2) by simp
    then have "set h = set ?h - {?i}" "distinct h"
      using st by (metis mset_eq_setD set_remove1_eq, metis mset_eq_imp_distinct_iff distinct_remove1)
    then have "merge_state over ess R (m\<lparr>mi_children := cs, mi_h := h\<rparr>)" using step [of h] h(3) True by simp
    then show ?thesis using c h(1) over_Error [OF c(2)] over_Valid [OF c(2)] True st assms(2)
      by (auto simp: mi_Next_def mi_Valid_def Let_def cs_def R_def)
  qed
qed

lemma merge_overE:
  assumes "merge_over over m es rest"
  obtains ess rests where "key_sorted es" "suffix rest es" "merge_state over ess rests m" "mset es = mset (concat ess)" "mset rest = mset (concat rests)"
    "\<And>j. j < length (mi_children m) \<Longrightarrow> over (mi_children m ! j) (ess ! j) (rests ! j)" "length ess = length (mi_children m)"
  using assms unfolding merge_over_def merge_state_def by blast

lemma merge_First:
  assumes "merge_over over m es rest"
  shows "\<exists>m'. io_First (merging_iterator ops) m = Some m' \<and> merge_over over m' es es"
proof (rule merge_overE [OF assms])
  fix ess rests
  assume a: "key_sorted es" "merge_state over ess rests m" "mset es = mset (concat ess)"
    "\<And>j. j < length (mi_children m) \<Longrightarrow> over (mi_children m ! j) (ess ! j) (rests ! j)"
  have "\<exists>m'. reposition ops (io_First ops) m = Some m' \<and> merge_state over ess ess m'"
    by (rule reposition_spec [OF a(2) refl]) (use a(4) over_First in blast)
  then show ?thesis using a by (auto simp: merging_iterator_def mi_First_def merge_over_def)
qed

lemma merge_SeekGE:
  assumes "merge_over over m es rest" "valid_ikey key"
  shows "\<exists>m'. io_SeekGE (merging_iterator ops) key m = Some m' \<and> merge_over over m' es (dropWhile (ltk key) es)"
proof (rule merge_overE [OF assms(1)])
  fix ess rests
  assume a: "key_sorted es" "merge_state over ess rests m" "mset es = mset (concat ess)"
    "\<And>j. j < length (mi_children m) \<Longrightarrow> over (mi_children m ! j) (ess ! j) (rests ! j)" "length ess = length (mi_children m)"
  have "\<exists>m'. reposition ops (io_SeekGE ops key) m = Some m' \<and> merge_state over ess (map (dropWhile (ltk key)) ess) m'"
    by (rule reposition_spec [OF a(2)]) (simp, simp add: a(5) over_SeekGE [OF a(4) assms(2)])
  moreover have "\<forall>xs\<in>set ess. key_sorted xs" using a(4,5) over_sorted by (metis in_set_conv_nth)
  ultimately show ?thesis
    using a mset_dropWhile [of es ess key] by (auto simp: merging_iterator_def mi_SeekGE_def merge_over_def suffix_dropWhile)
qed

lemma merge_Valid:
  assumes "merge_over over m es rest"
  shows "io_Valid (merging_iterator ops) m \<longleftrightarrow> rest \<noteq> []" "io_Error (merging_iterator ops) m = None"
proof -
  obtain ess rests where a: "merge_state over ess rests m" "mset rest = mset (concat rests)" using assms unfolding merge_over_def by blast
  note st = a(1) [unfolded merge_state_def]
  have "mi_h m = [] \<longleftrightarrow> set (mi_h m) = {}" by simp
  also have "\<dots> \<longleftrightarrow> (\<forall>i<length rests. rests ! i = [])" using st by auto
  also have "\<dots> \<longleftrightarrow> concat rests = []" by (simp add: all_set_conv_all_nth)
  also have "\<dots> \<longleftrightarrow> rest = []" using a(2) by (metis mset_zero_iff)
  finally show "io_Valid (merging_iterator ops) m \<longleftrightarrow> rest \<noteq> []" "io_Error (merging_iterator ops) m = None"
    using st by (auto simp: merging_iterator_def mi_Valid_def)
qed

lemma merge_Next:
  assumes "merge_over over m es (e # rest)"
  shows "\<exists>m'. io_Next (merging_iterator ops) m = Some m' \<and> merge_over over m' es rest"
    "io_Key (merging_iterator ops) m = Some (fst e)" "io_Value (merging_iterator ops) m = Some (snd e)"
proof -
  obtain ess rests where s: "key_sorted es" "suffix (e # rest) es" "merge_state over ess rests m" "mset es = mset (concat ess)"
    "mset (e # rest) = mset (concat rests)" using assms unfolding merge_over_def by blast
  note f = merge_front [OF s(3) key_sorted_suffix [OF s(1,2)] s(5)]
  obtain r where r: "rests ! (mi_h m ! 0) = e # r" using f(3) by blast
  obtain m' where "mi_Next ops m = Some m'" "merge_state over ess (rests[mi_h m ! 0 := r]) m'" using mi_Next_state [OF s(3) f(1) r] by blast
  moreover have "mset rest = mset (concat (rests[mi_h m ! 0 := r]))" using mset_concat_tl [OF f(2) r] s(5) by simp
  moreover have "suffix rest es" using s(2) by (rule suffix_ConsD)
  ultimately show "\<exists>m'. io_Next (merging_iterator ops) m = Some m' \<and> merge_over over m' es rest"
    using s by (auto simp: merging_iterator_def merge_over_def)
  have "over (mi_children m ! (mi_h m ! 0)) (ess ! (mi_h m ! 0)) (e # r)" using s(3) f(2) r unfolding merge_state_def by metis
  from over_Key [OF this] show "io_Key (merging_iterator ops) m = Some (fst e)" "io_Value (merging_iterator ops) m = Some (snd e)"
    using f(1) by (simp_all add: merging_iterator_def mi_Key_def mi_Value_def)
qed

lemma merge_new:
  assumes "length ess = length cs" "\<And>j. j < length cs \<Longrightarrow> over (cs ! j) (ess ! j) []" "key_sorted es" "mset es = mset (concat ess)"
  shows "merge_over over (newMergingIter cs) es []"
proof -
  have "merge_state over ess (replicate (length cs) []) (newMergingIter cs)"
    using assms(1,2) by (auto simp: merge_state_def newMergingIter_def heap_above_def)
  moreover have "mset [] = mset (concat (replicate (length cs) []))" by (induction "length cs") auto
  ultimately show ?thesis using assms(3,4) Nil_suffix [of es] unfolding merge_over_def by metis
qed

end

sublocale mergeable \<subseteq> mrg: internal_iterator "merging_iterator ops" "merge_over over"
proof (unfold_locales, goal_cases)
  case 1
  then show ?case by (simp add: merge_over_def)
qed (auto simp: merge_Valid merge_Next intro: merge_First merge_SeekGE)

text \<open>A failing child invalidates the merge for good.\<close>

lemma mi_fail_sticky:
  "mi_err m = Some e \<Longrightarrow> mi_First ops m = Some m \<and> mi_SeekGE ops key m = Some m \<and> \<not> mi_Valid m"
  by (simp add: mi_First_def mi_SeekGE_def reposition_def mi_Valid_def)

end
