(* ===== verification/ScanIter.thy ===== *)
theory ScanIter
  imports KeyOrder
begin

text \<open>
  The user-facing iterator of \<^verbatim>\<open>src/iter.go\<close> over the merge of all sources: it resolves the versions of each user key
  at a sequence number, drops deleted and reserved keys, and stops at the end of its range.  The merge below it
  is any implementation of the iterator interface.
\<close>

section \<open>Operations\<close>

definition reservedPrefix :: bytes where
  "reservedPrefix = [0x00, 0x21, 0x72, 0x61, 0x66, 0x74, 0x2f]"

abbreviation reserved :: "bytes \<Rightarrow> bool" where
  "reserved uk \<equiv> prefix reservedPrefix uk"

datatype 'e iter_error = IterMerge 'e | IterDecode base_error | IterClosed

record ('m, 'e) Iterator =
  it_m :: "'m option"
  it_seq :: nat
  it_end :: "bytes option"
  it_err :: "'e iter_error option"
  it_valid :: bool
  it_closed :: bool
  it_includeReserved :: bool

partial_function (option) skipUserKey :: "('m, 'e) internalIterator \<Rightarrow> bytes \<Rightarrow> 'm \<Rightarrow> 'm option" where
  "skipUserKey mops uk m =
     (if io_Valid mops m
      then do {
        k \<leftarrow> io_Key mops m;
        if \<not> valid_ikey k then None
        else if UserKey k = uk then io_Next mops m \<bind> skipUserKey mops uk
        else Some m
      }
      else Some m)"

definition past_end :: "bytes option \<Rightarrow> bytes \<Rightarrow> bool" where
  "past_end hi uk = (case hi of None \<Rightarrow> False | Some e \<Rightarrow> bytes_compare uk e \<ge> 0)"

partial_function (option) find_loop :: "('m, 'e) internalIterator \<Rightarrow> ('m, 'e) Iterator \<Rightarrow> 'm \<Rightarrow> ('m, 'e) Iterator option" where
  "find_loop mops it m =
     (if io_Valid mops m
      then do {
        k \<leftarrow> io_Key mops m;
        case DecodeInternalKey k of
          Inl e \<Rightarrow> Some (it\<lparr>it_m := Some m, it_err := Some (IterDecode e)\<rparr>)
        | Inr ik \<Rightarrow>
            if past_end (it_end it) (ik_UserKey ik) then Some (it\<lparr>it_m := Some m\<rparr>)
            else if ik_Seq ik > it_seq it then io_Next mops m \<bind> find_loop mops it
            else if \<not> it_includeReserved it \<and> reserved (ik_UserKey ik) then skipUserKey mops (ik_UserKey ik) m \<bind> find_loop mops it
            else if ik_Kind ik = KindDelete then skipUserKey mops (ik_UserKey ik) m \<bind> find_loop mops it
            else Some (it\<lparr>it_m := Some m, it_valid := True\<rparr>)
      }
      else Some (it\<lparr>it_m := Some m, it_err := map_option IterMerge (io_Error mops m)\<rparr>))"

definition findNext :: "('m, 'e) internalIterator \<Rightarrow> ('m, 'e) Iterator \<Rightarrow> ('m, 'e) Iterator option" where
  "findNext mops it =
     (let it = it\<lparr>it_valid := False\<rparr> in
      if it_err it \<noteq> None then Some it else it_m it \<bind> find_loop mops it)"

definition it_Valid :: "('m, 'e) Iterator \<Rightarrow> bool" where
  "it_Valid it \<longleftrightarrow> it_valid it \<and> it_err it = None"

definition it_Key :: "('m, 'e) internalIterator \<Rightarrow> ('m, 'e) Iterator \<Rightarrow> bytes option" where
  "it_Key mops it = do { m \<leftarrow> it_m it; k \<leftarrow> io_Key mops m; if valid_ikey k then Some (UserKey k) else None }"

definition it_Value :: "('m, 'e) internalIterator \<Rightarrow> ('m, 'e) Iterator \<Rightarrow> bytes option" where
  "it_Value mops it = it_m it \<bind> io_Value mops"

definition it_Next :: "('m, 'e) internalIterator \<Rightarrow> ('m, 'e) Iterator \<Rightarrow> ('m, 'e) Iterator option" where
  "it_Next mops it =
     (if \<not> it_Valid it then None
      else do {
        uk \<leftarrow> it_Key mops it;
        m \<leftarrow> it_m it;
        m \<leftarrow> skipUserKey mops uk m;
        findNext mops (it\<lparr>it_m := Some m\<rparr>)
      })"

text \<open>Positioning a fresh iterator, the part of \<^verbatim>\<open>scan\<close> after the sources are gathered.\<close>

definition scan_start :: "('m, 'e) internalIterator \<Rightarrow> bytes option \<Rightarrow> bytes option \<Rightarrow> bool \<Rightarrow> nat \<Rightarrow> 'm \<Rightarrow> ('m, 'e) Iterator option" where
  "scan_start mops start hi incl seq m =
     do {
       m \<leftarrow> (case start of
               None \<Rightarrow> io_First mops m
             | Some s \<Rightarrow> do { key \<leftarrow> AppendSeekKey [] s seq; io_SeekGE mops key m });
       findNext mops \<lparr>it_m = Some m, it_seq = seq, it_end = hi, it_err = None, it_valid = False, it_closed = False, it_includeReserved = incl\<rparr>
     }"

text \<open>The loop of every caller: read the pair and step while the iterator is valid.\<close>

fun it_collect :: "('m, 'e) internalIterator \<Rightarrow> nat \<Rightarrow> ('m, 'e) Iterator \<Rightarrow> ((bytes \<times> bytes) list \<times> ('m, 'e) Iterator) option" where
  "it_collect mops 0 it = Some ([], it)"
| "it_collect mops (Suc n) it =
     (if it_Valid it
      then do { k \<leftarrow> it_Key mops it; v \<leftarrow> it_Value mops it; it \<leftarrow> it_Next mops it; (kvs, it) \<leftarrow> it_collect mops n it; Some ((k, v) # kvs, it) }
      else Some ([], it))"

section \<open>What a scan must return\<close>

text \<open>The value a user key has at a sequence number.\<close>

definition live :: "nat \<Rightarrow> entry list \<Rightarrow> bytes \<Rightarrow> bytes option" where
  "live seq es uk = (case newest_visible uk seq es of None \<Rightarrow> None | Some (v, kind) \<Rightarrow> if kind = KindDelete then None else Some v)"

text \<open>The walk of the iterator as a function of the entries ahead.\<close>

abbreviation same_uk :: "bytes \<Rightarrow> entry \<Rightarrow> bool" where
  "same_uk uk e \<equiv> UserKey (fst e) = uk"

abbreviation seq_of :: "entry \<Rightarrow> nat" where "seq_of e \<equiv> trailer_of (fst e) div 256"
abbreviation kind_of :: "entry \<Rightarrow> nat" where "kind_of e \<equiv> trailer_of (fst e) mod 256"

function find_pos :: "nat \<Rightarrow> bytes option \<Rightarrow> bool \<Rightarrow> entry list \<Rightarrow> bool \<times> entry list" where
  "find_pos seq hi incl [] = (False, [])"
| "find_pos seq hi incl (e # es) =
     (let uk = UserKey (fst e) in
      if past_end hi uk then (False, e # es)
      else if seq_of e > seq then find_pos seq hi incl es
      else if \<not> incl \<and> reserved uk \<or> kind_of e = KindDelete then find_pos seq hi incl (dropWhile (same_uk uk) es)
      else (True, e # es))"
  by pat_completeness auto

termination find_pos
  by (relation "measure (\<lambda>(seq, hi, incl, es). length es)") (auto simp: le_imp_less_Suc length_dropWhile_le)

function walk :: "nat \<Rightarrow> bytes option \<Rightarrow> bool \<Rightarrow> entry list \<Rightarrow> (bytes \<times> bytes) list" where
  "walk seq hi incl [] = []"
| "walk seq hi incl (e # es) =
     (let uk = UserKey (fst e) in
      if past_end hi uk then []
      else if seq_of e > seq then walk seq hi incl es
      else (if \<not> incl \<and> reserved uk \<or> kind_of e = KindDelete then [] else [(uk, snd e)]) @ walk seq hi incl (dropWhile (same_uk uk) es))"
  by pat_completeness auto

termination walk
  by (relation "measure (\<lambda>(seq, hi, incl, es). length es)") (auto simp: le_imp_less_Suc length_dropWhile_le)

lemma walk_find_pos:
  "walk seq hi incl es = (case find_pos seq hi incl es of (True, e # r) \<Rightarrow> (UserKey (fst e), snd e) # walk seq hi incl (dropWhile (same_uk (UserKey (fst e))) r) | _ \<Rightarrow> [])"
  by (induction seq hi incl es rule: find_pos.induct) (auto simp: Let_def split: list.splits)

lemma find_pos_suffix: "find_pos seq hi incl es = (b, r) \<Longrightarrow> suffix r es \<and> (b \<longrightarrow> r \<noteq> [])"
  by (induction seq hi incl es rule: find_pos.induct) (auto simp: Let_def split: if_splits intro: suffix_ConsI dest: suffix_order.trans [OF _ suffix_dropWhile])

section \<open>The walk returns the live keys of the range\<close>

lemma visible_seq: "visible uk seq e \<longleftrightarrow> UserKey (fst e) = uk \<and> seq_of e \<le> seq"
  by (simp add: visible_def)

lemma live_Nil [simp]: "live seq [] uk = None"
  by (simp add: live_def newest_visible_def)

lemma live_Cons:
  "live seq (e # es) uk = (if UserKey (fst e) = uk \<and> seq_of e \<le> seq then (if kind_of e = KindDelete then None else Some (snd e)) else live seq es uk)"
  by (simp add: live_def newest_visible_def visible_def)

lemma live_none: "\<forall>e\<in>set es. UserKey (fst e) \<noteq> uk \<Longrightarrow> live seq es uk = None"
  by (induction es) (simp_all add: live_Cons)

lemma live_dropWhile_other: "uk \<noteq> u \<Longrightarrow> live seq (dropWhile (same_uk u) es) uk = live seq es uk"
  by (induction es) (auto simp: live_Cons)

lemma key_sorted_user: "key_sorted (e # es) \<Longrightarrow> x \<in> set es \<Longrightarrow> UserKey (fst e) \<le> UserKey (fst x)"
  by (auto simp: ikey_rank_def less_prod_def)

lemma dropWhile_user_greater:
  assumes "key_sorted (e # es)" "x \<in> set (dropWhile (same_uk (UserKey (fst e))) es)"
  shows "UserKey (fst e) < UserKey (fst x)"
  using assms
proof (induction es)
  case (Cons y ys)
  show ?case
  proof (cases "same_uk (UserKey (fst e)) y")
    case True
    then show ?thesis using Cons by simp
  next
    case False
    then have "UserKey (fst e) < UserKey (fst y)" using key_sorted_user [OF Cons.prems(1), of y] by simp
    moreover have "UserKey (fst y) \<le> UserKey (fst x)" using Cons.prems False key_sorted_user [of y ys x] by auto
    ultimately show ?thesis by simp
  qed
qed simp

lemma key_sorted_dropWhile_tail: "key_sorted (e # es) \<Longrightarrow> key_sorted (dropWhile P es)"
  by (metis key_sorted_simps(2) key_sorted_append takeWhile_dropWhile_id)

definition in_scan :: "bytes option \<Rightarrow> bool \<Rightarrow> bytes \<Rightarrow> bool" where
  "in_scan hi incl uk \<longleftrightarrow> \<not> past_end hi uk \<and> (incl \<or> \<not> reserved uk)"

lemma past_end_mono: "past_end hi u \<Longrightarrow> u \<le> v \<Longrightarrow> past_end hi v"
  by (auto simp: past_end_def bytes_compare_def split: option.splits if_splits)

lemma walk_spec:
  assumes "key_sorted es"
  shows "set (walk seq hi incl es) = {(uk, v). live seq es uk = Some v \<and> in_scan hi incl uk}
    \<and> sorted_wrt (<) (map fst (walk seq hi incl es))"
  using assms
proof (induction seq hi incl es rule: walk.induct)
  case (2 seq hi incl e es)
  let ?u = "UserKey (fst e)"
  note so = "2.prems"
  have uk: "?u \<le> uk" if "live seq (e # es) uk = Some v" for uk v
  proof -
    have "\<exists>x\<in>set (e # es). UserKey (fst x) = uk" using that live_none [of "e # es" uk seq] by auto
    then show ?thesis using key_sorted_user [OF so] by auto
  qed
  consider (past) "past_end hi ?u" | (new) "\<not> past_end hi ?u" "seq_of e > seq" | (vis) "\<not> past_end hi ?u" "seq_of e \<le> seq" by linarith
  then show ?case
  proof cases
    case past
    have "\<not> in_scan hi incl uk" if "live seq (e # es) uk = Some v" for uk v
      using past_end_mono [OF past uk [OF that]] by (simp add: in_scan_def)
    then have "{(uk, v). live seq (e # es) uk = Some v \<and> in_scan hi incl uk} = {}" by auto
    then show ?thesis using past by (simp add: Let_def)
  next
    case new
    have "live seq (e # es) = live seq es" using new by (auto simp: live_Cons fun_eq_iff)
    then show ?thesis using new 2 by (simp add: Let_def)
  next
    case vis
    let ?d = "dropWhile (same_uk ?u) es"
    have ih: "set (walk seq hi incl ?d) = {(uk, v). live seq ?d uk = Some v \<and> in_scan hi incl uk}" "sorted_wrt (<) (map fst (walk seq hi incl ?d))"
      using "2.IH"(2) [of ?u] vis key_sorted_dropWhile_tail [OF so] by auto
    have gt: "?u < uk" if "live seq ?d uk = Some v" for uk v
      using that live_none [of ?d uk seq] dropWhile_user_greater [OF so] by fastforce
    have lv: "live seq (e # es) uk = (if uk = ?u then (if kind_of e = KindDelete then None else Some (snd e)) else live seq ?d uk)" for uk
      using vis live_dropWhile_other [of uk ?u seq es] by (simp add: live_Cons)
    have "live seq ?d ?u = None" using gt by (meson less_irrefl option.exhaust)
    then have "{(uk, v). live seq (e # es) uk = Some v \<and> in_scan hi incl uk}
      = (if \<not> incl \<and> reserved ?u \<or> kind_of e = KindDelete then {} else {(?u, snd e)}) \<union> set (walk seq hi incl ?d)"
      using vis(1) unfolding ih(1) lv in_scan_def by (auto split: if_splits)
    moreover have "\<forall>kv\<in>set (walk seq hi incl ?d). ?u < fst kv" using ih(1) gt by auto
    ultimately show ?thesis using vis ih(2) by (simp add: Let_def)
  qed
qed (simp add: live_def newest_visible_def)

lemma live_seek:
  assumes "key_sorted es" "\<forall>e\<in>set es. wf_key (fst e)" "seq \<le> MaxSeq"
  shows "live seq (dropWhile (ltk (enc_ikey start seq maxKind)) es) uk = (if start \<le> uk then live seq es uk else None)"
proof -
  have v: "ltk (enc_ikey start seq maxKind) e \<longleftrightarrow> \<not> start \<le> uk" if "e \<in> set es" "visible uk seq e" for e
    using seek_rank [of "fst e" seq start] assms(2,3) that by (auto simp: visible_def not_le)
  have "filter (visible uk seq) (filter (\<lambda>e. \<not> ltk (enc_ikey start seq maxKind) e) es)
    = filter (\<lambda>e. start \<le> uk \<and> visible uk seq e) es"
    unfolding filter_filter using v by (intro filter_cong) auto
  then show ?thesis unfolding live_def newest_visible_def key_sorted_dropWhile [OF assms(1)] by (cases "start \<le> uk") simp_all
qed

section \<open>The iterator follows the walk\<close>

definition at_rest :: "('m \<Rightarrow> entry list \<Rightarrow> entry list \<Rightarrow> bool) \<Rightarrow> ('m, 'e) Iterator \<Rightarrow> entry list \<Rightarrow> bool \<times> entry list \<Rightarrow> bool" where
  "at_rest over it es br \<longleftrightarrow> it_err it = None \<and> it_valid it = fst br \<and> (\<exists>m. it_m it = Some m \<and> over m es (snd br))"

context internal_iterator
begin

lemma over_wf:
  assumes "over m es (e # r)" "\<forall>e\<in>set es. wf_key (fst e)"
  shows "wf_key (fst e)"
  using over_sorted [OF assms(1)] assms(2) by (auto simp: suffix_def)

lemma skipUserKey_over:
  assumes "over m es r" "\<forall>e\<in>set es. wf_key (fst e)"
  shows "\<exists>m'. skipUserKey ops uk m = Some m' \<and> over m' es (dropWhile (same_uk uk) r)"
  using assms(1)
proof (induction r arbitrary: m)
  case Nil
  then show ?case using over_Valid [OF Nil] by (subst skipUserKey.simps) simp
next
  case (Cons e r)
  obtain m' where m': "io_Next ops m = Some m'" "over m' es r" using over_Next [OF Cons.prems] by blast
  have "valid_ikey (fst e)" using over_wf [OF Cons.prems assms(2)] wf_key_valid by blast
  then show ?case using Cons.IH [OF m'(2)] m'(1) over_Valid [OF Cons.prems] over_Key [OF Cons.prems] Cons.prems
    by (subst skipUserKey.simps) auto
qed

lemma find_loop_over:
  assumes "over m es r" "\<forall>e\<in>set es. wf_key (fst e)" "it_err it = None" "\<not> it_valid it"
  shows "\<exists>it'. find_loop ops it m = Some it' \<and> at_rest over it' es (find_pos (it_seq it) (it_end it) (it_includeReserved it) r)
    \<and> it_seq it' = it_seq it \<and> it_end it' = it_end it \<and> it_includeReserved it' = it_includeReserved it"
  using assms(1)
proof (induction "it_seq it" "it_end it" "it_includeReserved it" r arbitrary: m rule: find_pos.induct)
  case 1
  then show ?case using over_Valid [OF 1] over_Error [OF 1] assms(3,4) by (subst find_loop.simps) (simp add: at_rest_def)
next
  case (2 e r)
  let ?u = "UserKey (fst e)" and ?it = "it\<lparr>it_m := Some m\<rparr>"
  note o = "2.prems"
  have dec: "DecodeInternalKey (fst e) = Inr \<lparr>ik_UserKey = ?u, ik_Seq = seq_of e, ik_Kind = kind_of e\<rparr>"
    by (rule DecodeInternalKey_wf [OF over_wf [OF o assms(2)]])
  obtain m1 where m1: "io_Next ops m = Some m1" "over m1 es r" using over_Next [OF o] by blast
  obtain m2 where m2: "skipUserKey ops ?u m = Some m2" "over m2 es (dropWhile (same_uk ?u) r)"
    using skipUserKey_over [OF o assms(2), of ?u] by auto
  note ops = over_Valid [OF o] over_Key [OF o] dec
  consider (past) "past_end (it_end it) ?u" | (new) "\<not> past_end (it_end it) ?u" "seq_of e > it_seq it"
    | (skip) "\<not> past_end (it_end it) ?u" "seq_of e \<le> it_seq it" "\<not> it_includeReserved it \<and> reserved ?u \<or> kind_of e = KindDelete"
    | (found) "\<not> past_end (it_end it) ?u" "seq_of e \<le> it_seq it" "\<not> (\<not> it_includeReserved it \<and> reserved ?u \<or> kind_of e = KindDelete)"
    by linarith
  then show ?case
  proof cases
    case past
    then show ?thesis using ops o assms(3,4) by (subst find_loop.simps) (auto simp: at_rest_def)
  next
    case new
    then show ?thesis using ops "2.hyps"(1) [OF refl new m1(2)] m1(1) by (subst find_loop.simps) (auto simp: Let_def)
  next
    case skip
    have "find_loop ops it m = find_loop ops it m2" using skip ops m2(1) by (subst find_loop.simps) auto
    then show ?thesis using "2.hyps"(2) [OF refl _ _ _ m2(2)] skip by (auto simp: Let_def)
  next
    case found
    then show ?thesis using ops o assms(3) by (subst find_loop.simps) (auto simp: at_rest_def)
  qed
qed

end

lemma walk_length: "length (walk seq hi incl es) \<le> length es"
proof (induction seq hi incl es rule: walk.induct)
  case (2 seq hi incl e es)
  then show ?case using length_dropWhile_le [of "same_uk (UserKey (fst e))" es] by (auto simp: Let_def)
qed simp

lemma enc_seek: "seq \<le> MaxSeq \<Longrightarrow> AppendSeekKey [] s seq = Some (enc_ikey s seq maxKind) \<and> valid_ikey (enc_ikey s seq maxKind)"
  using AppendInternalKey_Some [of seq maxKind "[]" s] by (simp add: AppendSeekKey_def)

context internal_iterator
begin

lemma it_Next_over:
  assumes "at_rest over it es (True, e # r)" "\<forall>e\<in>set es. wf_key (fst e)"
  shows "\<exists>it'. it_Next ops it = Some it' \<and> at_rest over it' es (find_pos (it_seq it) (it_end it) (it_includeReserved it) (dropWhile (same_uk (UserKey (fst e))) r))
    \<and> it_seq it' = it_seq it \<and> it_end it' = it_end it \<and> it_includeReserved it' = it_includeReserved it"
    "it_Key ops it = Some (UserKey (fst e))" "it_Value ops it = Some (snd e)" "it_Valid it"
proof -
  obtain m where m: "it_m it = Some m" "over m es (e # r)" "it_err it = None" "it_valid it" using assms(1) by (auto simp: at_rest_def)
  have "valid_ikey (fst e)" using over_wf [OF m(2) assms(2)] wf_key_valid by blast
  then show k: "it_Key ops it = Some (UserKey (fst e))" "it_Value ops it = Some (snd e)" "it_Valid it"
    using m over_Key [OF m(2)] by (simp_all add: it_Key_def it_Value_def it_Valid_def)
  obtain m' where m': "skipUserKey ops (UserKey (fst e)) m = Some m'" "over m' es (dropWhile (same_uk (UserKey (fst e))) r)"
    using skipUserKey_over [OF m(2) assms(2), of "UserKey (fst e)"] by auto
  show "\<exists>it'. it_Next ops it = Some it' \<and> at_rest over it' es (find_pos (it_seq it) (it_end it) (it_includeReserved it) (dropWhile (same_uk (UserKey (fst e))) r))
    \<and> it_seq it' = it_seq it \<and> it_end it' = it_end it \<and> it_includeReserved it' = it_includeReserved it"
    using find_loop_over [OF m'(2) assms(2), of "it\<lparr>it_m := Some m', it_valid := False\<rparr>"] k m m'(1) by (simp add: it_Next_def findNext_def)
qed

lemma it_collect_walk:
  assumes "at_rest over it es (find_pos (it_seq it) (it_end it) (it_includeReserved it) r)" "\<forall>e\<in>set es. wf_key (fst e)"
    "length (walk (it_seq it) (it_end it) (it_includeReserved it) r) < n"
  shows "\<exists>it'. it_collect ops n it = Some (walk (it_seq it) (it_end it) (it_includeReserved it) r, it') \<and> \<not> it_Valid it' \<and> it_err it' = None"
  using assms(1,3)
proof (induction n arbitrary: it r)
  case (Suc n)
  let ?w = "walk (it_seq it) (it_end it) (it_includeReserved it)"
  obtain b r' where f: "find_pos (it_seq it) (it_end it) (it_includeReserved it) r = (b, r')" by (cases "find_pos (it_seq it) (it_end it) (it_includeReserved it) r")
  show ?case
  proof (cases b)
    case False
    then have "?w r = []" using f walk_find_pos [of "it_seq it" "it_end it" "it_includeReserved it" r] by simp
    then show ?thesis using Suc.prems(1) f False by (simp add: at_rest_def it_Valid_def)
  next
    case True
    then obtain e r2 where r': "r' = e # r2" using f find_pos_suffix by (metis list.exhaust)
    have w: "?w r = (UserKey (fst e), snd e) # ?w (dropWhile (same_uk (UserKey (fst e))) r2)"
      using walk_find_pos [of "it_seq it" "it_end it" "it_includeReserved it" r] f True r' by simp
    have ar: "at_rest over it es (True, e # r2)" using Suc.prems(1) f True r' by simp
    obtain it' where it': "it_Next ops it = Some it'" "at_rest over it' es (find_pos (it_seq it) (it_end it) (it_includeReserved it) (dropWhile (same_uk (UserKey (fst e))) r2))"
      "it_seq it' = it_seq it" "it_end it' = it_end it" "it_includeReserved it' = it_includeReserved it" using it_Next_over(1) [OF ar assms(2)] by blast
    show ?thesis using Suc.IH [of it' "dropWhile (same_uk (UserKey (fst e))) r2"] it' Suc.prems(2) w it_Next_over(2-4) [OF ar assms(2)] by auto
  qed
qed simp

lemma scan_over:
  assumes "over m es rest" "\<forall>e\<in>set es. wf_key (fst e)" "seq \<le> MaxSeq"
  shows "\<exists>it kvs it'. scan_start ops start hi incl seq m = Some it \<and> it_collect ops (Suc (length es)) it = Some (kvs, it')
    \<and> \<not> it_Valid it' \<and> it_err it' = None \<and> sorted_wrt (<) (map fst kvs)
    \<and> set kvs = {(uk, v). live seq es uk = Some v \<and> in_scan hi incl uk \<and> (\<forall>s. start = Some s \<longrightarrow> s \<le> uk)}"
proof -
  have so: "key_sorted es" using over_sorted [OF assms(1)] by blast
  define r where "r = (case start of None \<Rightarrow> es | Some s \<Rightarrow> dropWhile (ltk (enc_ikey s seq maxKind)) es)"
  obtain m' where m': "(case start of None \<Rightarrow> io_First ops m | Some s \<Rightarrow> do { key \<leftarrow> AppendSeekKey [] s seq; io_SeekGE ops key m }) = Some m'" "over m' es r"
  proof (cases start)
    case None
    then show ?thesis using over_First [OF assms(1)] that by (auto simp: r_def)
  next
    case (Some s)
    then show ?thesis using over_SeekGE [OF assms(1), of "enc_ikey s seq maxKind"] enc_seek [OF assms(3), of s] that by (auto simp: r_def)
  qed
  define it0 :: "('s, 'e) Iterator" where "it0 = \<lparr>it_m = Some m', it_seq = seq, it_end = hi, it_err = None, it_valid = False, it_closed = False, it_includeReserved = incl\<rparr>"
  obtain it where it: "find_loop ops it0 m' = Some it" "at_rest over it es (find_pos seq hi incl r)" "it_seq it = seq" "it_end it = hi" "it_includeReserved it = incl"
    using find_loop_over [OF m'(2) assms(2), of it0] by (auto simp: it0_def)
  have "scan_start ops start hi incl seq m = Some it"
    using m'(1) it(1) by (simp add: scan_start_def findNext_def it0_def)
  moreover have "length r \<le> length es" by (auto simp: r_def length_dropWhile_le split: option.splits)
  then have "length (walk seq hi incl r) < Suc (length es)" using walk_length [of seq hi incl r] by linarith
  then obtain it' where "it_collect ops (Suc (length es)) it = Some (walk seq hi incl r, it')" "\<not> it_Valid it'" "it_err it' = None"
    using it_collect_walk [of it es r "Suc (length es)"] it assms(2) by auto
  moreover have "key_sorted r" using so unfolding r_def by (auto simp: key_sorted_dropWhile sorted_wrt_filter key_sorted_def split: option.splits)
  note walk_spec [OF this, of seq hi incl]
  moreover have "live seq r uk = Some v \<longleftrightarrow> live seq es uk = Some v \<and> (\<forall>s. start = Some s \<longrightarrow> s \<le> uk)" for uk v
    using live_seek [OF so assms(2,3)] by (auto simp: r_def split: option.splits if_splits)
  ultimately show ?thesis by auto
qed

end

end
