(* ===== verification/ManifestEdit.thy ===== *)
theory ManifestEdit
  imports InternalKey
begin

text \<open>
  Version edits, \<^verbatim>\<open>src/internal/manifest/edit.go\<close>: one atomic change of the set of live tables with the
  counters stamped into it, and its tagged binary encoding.  A pair of a \<^verbatim>\<open>Has\<close> flag and its value is an option.
\<close>

section \<open>Definitions\<close>

definition NumLevels :: nat where "NumLevels = 7"

record FileMeta =
  fm_Level :: int
  fm_FileNum :: nat
  fm_Size :: nat
  fm_Smallest :: bytes
  fm_Largest :: bytes

record DeletedFile =
  df_Level :: int
  df_FileNum :: nat

record VersionEdit =
  ve_LogNumber :: "nat option"
  ve_NextFileNum :: "nat option"
  ve_LastSeq :: "nat option"
  ve_AddFiles :: "FileMeta list"
  ve_DeleteFiles :: "DeletedFile list"

datatype edit_field = FieldTag | FieldLevel | FieldLogNumber | FieldNextFileNum | FieldLastSeq | FieldFileNum | FieldFileSize

datatype man_error = BadField edit_field | LevelOutOfRange int | BadSmallest base_error | BadLargest base_error | ShortBounds
  | UnknownTag nat | DeleteNotLive nat int | AddAlreadyLive nat | SmallestAboveLargest nat | LevelOverlap nat nat nat

definition empty_edit :: VersionEdit where
  "empty_edit = \<lparr>ve_LogNumber = None, ve_NextFileNum = None, ve_LastSeq = None, ve_AddFiles = [], ve_DeleteFiles = []\<rparr>"

definition tagLogNumber :: nat where "tagLogNumber = 1"
definition tagNextFileNum :: nat where "tagNextFileNum = 2"
definition tagLastSeq :: nat where "tagLastSeq = 3"
definition tagAddFile :: nat where "tagAddFile = 4"
definition tagDeleteFile :: nat where "tagDeleteFile = 5"

definition encode_counter :: "nat \<Rightarrow> nat option \<Rightarrow> bytes" where
  "encode_counter tag c = (case c of None \<Rightarrow> [] | Some n \<Rightarrow> put_uvarint tag @ put_uvarint n)"

text \<open>\<^verbatim>\<open>uint64(f.Level)\<close> wraps.\<close>

definition level_u64 :: "int \<Rightarrow> nat" where
  "level_u64 l = nat (l mod 2 ^ 64)"

definition encode_add :: "FileMeta \<Rightarrow> bytes" where
  "encode_add f = AppendLengthPrefixed (AppendLengthPrefixed (put_uvarint tagAddFile @ put_uvarint (level_u64 (fm_Level f))
     @ put_uvarint (fm_FileNum f) @ put_uvarint (fm_Size f)) (fm_Smallest f)) (fm_Largest f)"

definition encode_delete :: "DeletedFile \<Rightarrow> bytes" where
  "encode_delete d = put_uvarint tagDeleteFile @ put_uvarint (level_u64 (df_Level d)) @ put_uvarint (df_FileNum d)"

definition edit_encode :: "VersionEdit \<Rightarrow> bytes \<Rightarrow> bytes" where
  "edit_encode e dst = dst @ encode_counter tagLogNumber (ve_LogNumber e) @ encode_counter tagNextFileNum (ve_NextFileNum e)
     @ encode_counter tagLastSeq (ve_LastSeq e) @ concat (map encode_add (ve_AddFiles e)) @ concat (map encode_delete (ve_DeleteFiles e))"

definition sum_bind :: "'e + 'a \<Rightarrow> ('a \<Rightarrow> 'e + 'b) \<Rightarrow> 'e + 'b" where
  "sum_bind r f = (case r of Inl e \<Rightarrow> Inl e | Inr x \<Rightarrow> f x)"

definition decodeUvarint :: "bytes \<Rightarrow> edit_field \<Rightarrow> man_error + (nat \<times> bytes)" where
  "decodeUvarint buf what = (case uvarint buf of None \<Rightarrow> Inl (BadField what) | Some (v, n) \<Rightarrow> Inr (v, drop n buf))"

definition decodeLevel :: "bytes \<Rightarrow> man_error + (int \<times> bytes)" where
  "decodeLevel buf = sum_bind (decodeUvarint buf FieldLevel) (\<lambda>(l, rest).
     if l \<ge> NumLevels then Inl (LevelOutOfRange (int l)) else Inr (int l, rest))"

definition decode_add :: "bytes \<Rightarrow> man_error + (FileMeta \<times> bytes)" where
  "decode_add rest =
     sum_bind (decodeLevel rest) (\<lambda>(lvl, rest).
     sum_bind (decodeUvarint rest FieldFileNum) (\<lambda>(num, rest).
     sum_bind (decodeUvarint rest FieldFileSize) (\<lambda>(sz, rest).
     case DecodeLengthPrefixed rest of
       Inl e \<Rightarrow> Inl (BadSmallest e)
     | Inr (s, rest) \<Rightarrow>
         (case DecodeLengthPrefixed rest of
            Inl e \<Rightarrow> Inl (BadLargest e)
          | Inr (l, rest) \<Rightarrow>
              if length s < TrailerLen \<or> length l < TrailerLen then Inl ShortBounds
              else Inr (\<lparr>fm_Level = lvl, fm_FileNum = num, fm_Size = sz, fm_Smallest = s, fm_Largest = l\<rparr>, rest)))))"

definition decode_delete :: "bytes \<Rightarrow> man_error + (DeletedFile \<times> bytes)" where
  "decode_delete rest =
     sum_bind (decodeLevel rest) (\<lambda>(lvl, rest).
     sum_bind (decodeUvarint rest FieldFileNum) (\<lambda>(num, rest).
     Inr (\<lparr>df_Level = lvl, df_FileNum = num\<rparr>, rest)))"

definition decode_field :: "nat \<Rightarrow> bytes \<Rightarrow> VersionEdit \<Rightarrow> man_error + (VersionEdit \<times> bytes)" where
  "decode_field tag rest e =
     (if tag = tagLogNumber then
        sum_bind (decodeUvarint rest FieldLogNumber) (\<lambda>(n, rest). Inr (e\<lparr>ve_LogNumber := Some n\<rparr>, rest))
      else if tag = tagNextFileNum then
        sum_bind (decodeUvarint rest FieldNextFileNum) (\<lambda>(n, rest). Inr (e\<lparr>ve_NextFileNum := Some n\<rparr>, rest))
      else if tag = tagLastSeq then
        sum_bind (decodeUvarint rest FieldLastSeq) (\<lambda>(n, rest). Inr (e\<lparr>ve_LastSeq := Some n\<rparr>, rest))
      else if tag = tagAddFile then
        sum_bind (decode_add rest) (\<lambda>(f, rest). Inr (e\<lparr>ve_AddFiles := ve_AddFiles e @ [f]\<rparr>, rest))
      else if tag = tagDeleteFile then
        sum_bind (decode_delete rest) (\<lambda>(d, rest). Inr (e\<lparr>ve_DeleteFiles := ve_DeleteFiles e @ [d]\<rparr>, rest))
      else Inl (UnknownTag tag))"

lemma sum_bind_simps [simp]: "sum_bind (Inl e) f = Inl e" "sum_bind (Inr x) f = f x"
  by (simp_all add: sum_bind_def)

lemma sum_bind_Inr: "sum_bind r f = Inr y \<longleftrightarrow> (\<exists>x. r = Inr x \<and> f x = Inr y)"
  by (cases r) auto

lemma decodeUvarint_Inr: "decodeUvarint buf what = Inr (v, rest) \<Longrightarrow> length rest < length buf \<and> v < 2 ^ 64"
  using uvarint_bounds [of buf] by (fastforce simp: decodeUvarint_def split: option.splits)

lemma decodeLevel_Inr: "decodeLevel buf = Inr (l, rest) \<Longrightarrow> length rest < length buf \<and> 0 \<le> l \<and> l < int NumLevels"
  by (auto simp: decodeLevel_def sum_bind_Inr split: if_splits dest: decodeUvarint_Inr)

lemma decode_add_Inr:
  assumes "decode_add rest = Inr (f, rest')"
  shows "length rest' < length rest \<and> 0 \<le> fm_Level f \<and> fm_Level f < int NumLevels \<and> valid_ikey (fm_Smallest f) \<and> valid_ikey (fm_Largest f)"
proof -
  obtain lvl r1 num r2 sz r3 where d: "decodeLevel rest = Inr (lvl, r1)" "decodeUvarint r1 FieldFileNum = Inr (num, r2)" "decodeUvarint r2 FieldFileSize = Inr (sz, r3)"
    using assms by (auto simp: decode_add_def sum_bind_Inr)
  note u = assms [unfolded decode_add_def d sum_bind_simps prod.case]
  obtain s r4 where e: "DecodeLengthPrefixed r3 = Inr (s, r4)" using u by (cases "DecodeLengthPrefixed r3") auto
  obtain l r5 where g: "DecodeLengthPrefixed r4 = Inr (l, r5)" using u e by (cases "DecodeLengthPrefixed r4") auto
  have h: "\<not> length s < TrailerLen" "\<not> length l < TrailerLen" "r5 = rest'"
    "f = \<lparr>fm_Level = lvl, fm_FileNum = num, fm_Size = sz, fm_Smallest = s, fm_Largest = l\<rparr>"
    using u e g by (simp_all split: if_splits)
  have "length r4 \<le> length r3" "length r5 \<le> length r4" using DecodeLengthPrefixed_Inr [OF e] DecodeLengthPrefixed_Inr [OF g] by (metis le_add2)+
  then show ?thesis using decodeLevel_Inr [OF d(1)] decodeUvarint_Inr [OF d(2)] decodeUvarint_Inr [OF d(3)] h by (simp add: valid_ikey_def)
qed

lemma decode_delete_Inr: "decode_delete rest = Inr (d, rest') \<Longrightarrow> length rest' < length rest"
  by (auto simp: decode_delete_def sum_bind_Inr dest!: decodeUvarint_Inr decodeLevel_Inr)

lemma decode_field_shorter: "decode_field tag rest e = Inr (e', rest') \<Longrightarrow> length rest' < length rest"
  by (auto simp: decode_field_def sum_bind_Inr split: if_splits dest!: decodeUvarint_Inr decode_add_Inr decode_delete_Inr)

function decode_edit_loop :: "bytes \<Rightarrow> VersionEdit \<Rightarrow> man_error + VersionEdit" where
  "decode_edit_loop rest e =
     (if rest = [] then Inr e
      else case decodeUvarint rest FieldTag of
        Inl err \<Rightarrow> Inl err
      | Inr (tag, r) \<Rightarrow> (case decode_field tag r e of Inl err \<Rightarrow> Inl err | Inr (e, r') \<Rightarrow> decode_edit_loop r' e))"
  by pat_completeness auto

termination decode_edit_loop
  by (relation "measure (\<lambda>(rest, e). length rest)") (auto dest!: decodeUvarint_Inr decode_field_shorter)

declare decode_edit_loop.simps [simp del]

definition decodeEdit :: "bytes \<Rightarrow> man_error + VersionEdit" where
  "decodeEdit payload = decode_edit_loop payload empty_edit"

section \<open>Round trip\<close>

definition wf_meta :: "FileMeta \<Rightarrow> bool" where
  "wf_meta f \<longleftrightarrow> 0 \<le> fm_Level f \<and> fm_Level f < int NumLevels \<and> fm_FileNum f < 2 ^ 64 \<and> fm_Size f < 2 ^ 64
     \<and> valid_ikey (fm_Smallest f) \<and> length (fm_Smallest f) < 2 ^ 64 \<and> valid_ikey (fm_Largest f) \<and> length (fm_Largest f) < 2 ^ 64"

definition wf_deleted :: "DeletedFile \<Rightarrow> bool" where
  "wf_deleted d \<longleftrightarrow> 0 \<le> df_Level d \<and> df_Level d < int NumLevels \<and> df_FileNum d < 2 ^ 64"

definition wf_edit :: "VersionEdit \<Rightarrow> bool" where
  "wf_edit e \<longleftrightarrow> (\<forall>n\<in>set_option (ve_LogNumber e) \<union> set_option (ve_NextFileNum e) \<union> set_option (ve_LastSeq e). n < 2 ^ 64)
     \<and> (\<forall>f\<in>set (ve_AddFiles e). wf_meta f) \<and> (\<forall>d\<in>set (ve_DeleteFiles e). wf_deleted d)"

lemma decodeUvarint_put [codec_simps]: "x < 2 ^ 64 \<Longrightarrow> decodeUvarint (put_uvarint x @ r) what = Inr (x, r)"
  by (simp add: decodeUvarint_def codec_simps)

lemma decodeLevel_put [codec_simps]: "0 \<le> l \<Longrightarrow> l < int NumLevels \<Longrightarrow> decodeLevel (put_uvarint (level_u64 l) @ r) = Inr (l, r)"
  by (simp add: decodeLevel_def level_u64_def NumLevels_def codec_simps)

lemma decode_add_put:
  assumes "wf_meta f"
  shows "\<exists>b. encode_add f = put_uvarint tagAddFile @ b \<and> decode_add (b @ r) = Inr (f, r)"
proof -
  have "encode_add f = put_uvarint tagAddFile @ put_uvarint (level_u64 (fm_Level f)) @ put_uvarint (fm_FileNum f) @ put_uvarint (fm_Size f)
    @ AppendLengthPrefixed [] (fm_Smallest f) @ AppendLengthPrefixed [] (fm_Largest f)"
    unfolding encode_add_def by (simp add: AppendLengthPrefixed_def)
  moreover have "decode_add ((put_uvarint (level_u64 (fm_Level f)) @ put_uvarint (fm_FileNum f) @ put_uvarint (fm_Size f)
    @ AppendLengthPrefixed [] (fm_Smallest f) @ AppendLengthPrefixed [] (fm_Largest f)) @ r) = Inr (f, r)"
    using assms unfolding wf_meta_def valid_ikey_def by (simp add: decode_add_def decodeLevel_put decodeUvarint_put DecodeLengthPrefixed_Append)
  ultimately show ?thesis by blast
qed

lemma decode_delete_put: "wf_deleted d \<Longrightarrow> \<exists>b. encode_delete d = put_uvarint tagDeleteFile @ b \<and> decode_delete (b @ r) = Inr (d, r)"
  by (auto simp: encode_delete_def wf_deleted_def decode_delete_def codec_simps)

lemmas tag_defs = tagLogNumber_def tagNextFileNum_def tagLastSeq_def tagAddFile_def tagDeleteFile_def

lemma loop_field:
  assumes "tag < 2 ^ 64" "decode_field tag (b @ r) e = Inr (e', r)"
  shows "decode_edit_loop ((put_uvarint tag @ b) @ r) e = decode_edit_loop r e'"
  using assms by (subst decode_edit_loop.simps) (simp add: decodeUvarint_put)

lemma loop_counter:
  assumes "\<forall>n\<in>set_option c. n < 2 ^ 64" "tag < 2 ^ 64" "\<And>n. c = Some n \<Longrightarrow> decode_field tag (put_uvarint n @ r) e = Inr (upd n e, r)"
  shows "decode_edit_loop (encode_counter tag c @ r) e = decode_edit_loop r (case c of None \<Rightarrow> e | Some n \<Rightarrow> upd n e)"
  using assms loop_field [of tag "put_uvarint _" r e] by (cases c) (auto simp: encode_counter_def)

lemma loop_adds:
  "\<forall>f\<in>set fs. wf_meta f \<Longrightarrow> decode_edit_loop (concat (map encode_add fs) @ r) e = decode_edit_loop r (e\<lparr>ve_AddFiles := ve_AddFiles e @ fs\<rparr>)"
proof (induction fs arbitrary: e)
  case (Cons f fs)
  obtain b where b: "encode_add f = put_uvarint tagAddFile @ b" "decode_add (b @ concat (map encode_add fs) @ r) = Inr (f, concat (map encode_add fs) @ r)"
    using decode_add_put [of f] Cons.prems by auto
  have "decode_field tagAddFile (b @ concat (map encode_add fs) @ r) e = Inr (e\<lparr>ve_AddFiles := ve_AddFiles e @ [f]\<rparr>, concat (map encode_add fs) @ r)"
    using b(2) by (simp add: decode_field_def tag_defs)
  from loop_field [OF _ this] show ?case using Cons b(1) by (simp add: tag_defs)
qed simp

lemma loop_deletes:
  "\<forall>d\<in>set ds. wf_deleted d \<Longrightarrow> decode_edit_loop (concat (map encode_delete ds) @ r) e = decode_edit_loop r (e\<lparr>ve_DeleteFiles := ve_DeleteFiles e @ ds\<rparr>)"
proof (induction ds arbitrary: e)
  case (Cons d ds)
  obtain b where b: "encode_delete d = put_uvarint tagDeleteFile @ b" "decode_delete (b @ concat (map encode_delete ds) @ r) = Inr (d, concat (map encode_delete ds) @ r)"
    using decode_delete_put [of d] Cons.prems by auto
  have "decode_field tagDeleteFile (b @ concat (map encode_delete ds) @ r) e = Inr (e\<lparr>ve_DeleteFiles := ve_DeleteFiles e @ [d]\<rparr>, concat (map encode_delete ds) @ r)"
    using b(2) by (simp add: decode_field_def tag_defs)
  from loop_field [OF _ this] show ?case using Cons b(1) by (simp add: tag_defs)
qed simp

lemma decodeEdit_encode:
  assumes "wf_edit e"
  shows "decodeEdit (edit_encode e []) = Inr e"
proof -
  have c: "\<forall>n\<in>set_option (ve_LogNumber e). n < 2 ^ 64" "\<forall>n\<in>set_option (ve_NextFileNum e). n < 2 ^ 64" "\<forall>n\<in>set_option (ve_LastSeq e). n < 2 ^ 64"
    and fs: "\<forall>f\<in>set (ve_AddFiles e). wf_meta f" "\<forall>d\<in>set (ve_DeleteFiles e). wf_deleted d"
    using assms unfolding wf_edit_def by auto
  show ?thesis unfolding decodeEdit_def edit_encode_def append_Nil
    apply (subst loop_counter [where upd = "\<lambda>n. ve_LogNumber_update (\<lambda>_. Some n)", OF c(1)])
      apply (use c(1) in \<open>simp_all add: tag_defs decode_field_def codec_simps\<close>)
    apply (subst loop_counter [where upd = "\<lambda>n. ve_NextFileNum_update (\<lambda>_. Some n)", OF c(2)])
      apply (use c(2) in \<open>simp_all add: tag_defs decode_field_def codec_simps\<close>)
    apply (subst loop_counter [where upd = "\<lambda>n. ve_LastSeq_update (\<lambda>_. Some n)", OF c(3)])
      apply (use c(3) in \<open>simp_all add: tag_defs decode_field_def codec_simps loop_adds [OF fs(1)]\<close>)
    using loop_deletes [OF fs(2), of "[]"]
    by (auto simp: decode_edit_loop.simps [of "[]"] empty_edit_def split: option.splits)
qed

text \<open>
  C35. Decoding an encoded edit gives the edit back - its counters, its added files with their key bounds, its deleted files - for
  every edit whose numbers fit 64 bits, whose levels exist and whose bounds are internal keys.
\<close>

theorem manifest_edit_round_trip:
  assumes "wf_edit e"
  shows "decodeEdit (edit_encode e []) = Inr e"
  by (rule decodeEdit_encode [OF assms])

definition sample_edit :: VersionEdit where
  "sample_edit = empty_edit\<lparr>ve_LogNumber := Some 300, ve_LastSeq := Some 0,
     ve_AddFiles := [\<lparr>fm_Level = 6, fm_FileNum = 9, fm_Size = 4096, fm_Smallest = enc_ikey [97] 5 KindPut, fm_Largest = enc_ikey [98] 3 KindDelete\<rparr>],
     ve_DeleteFiles := [\<lparr>df_Level = 0, df_FileNum = 7\<rparr>]\<rparr>"

theorem manifest_edit_round_trip_witness:
  "wf_edit sample_edit \<and> decodeEdit (edit_encode sample_edit []) = Inr sample_edit \<and> edit_encode sample_edit [] \<noteq> []"
proof -
  have w: "wf_edit sample_edit" by (simp add: wf_edit_def sample_edit_def empty_edit_def wf_meta_def wf_deleted_def NumLevels_def valid_ikey_def)
  show ?thesis using manifest_edit_round_trip [OF w] w by (auto simp: edit_encode_def sample_edit_def encode_counter_def)
qed

end
