(* ===== verification/ManifestVersion.thy ===== *)
theory ManifestVersion
  imports ManifestEdit KeyOrder "HOL-Library.Multiset"
begin

text \<open>
  Versions, \<^verbatim>\<open>src/internal/manifest/version.go\<close>: the live tables per level, the application of an edit with
  every refusal as an error value, and the snapshot edit that opens a fresh manifest.  Levels below the first hold disjoint
  key ranges in order, on which the read path searches; every accepted edit keeps that.
\<close>

section \<open>Definitions\<close>

type_synonym Version = "FileMeta list list"

definition empty_version :: Version where
  "empty_version = replicate NumLevels []"

definition Live :: "Version \<Rightarrow> nat set" where
  "Live v = fm_FileNum ` set (concat v)"

definition level_bad :: "int \<Rightarrow> bool" where
  "level_bad l \<longleftrightarrow> l < 0 \<or> l \<ge> int NumLevels"

fun apply_deletes :: "DeletedFile list \<Rightarrow> Version \<Rightarrow> man_error + Version" where
  "apply_deletes [] v = Inr v"
| "apply_deletes (d # ds) v =
     (if level_bad (df_Level d) then Inl (LevelOutOfRange (df_Level d))
      else
        let l = nat (df_Level d);
            fs = v ! l;
            i = length (takeWhile (\<lambda>f. fm_FileNum f \<noteq> df_FileNum d) fs)
        in if i \<ge> length fs then Inl (DeleteNotLive (df_FileNum d) (df_Level d))
           else apply_deletes ds (v[l := take i fs @ drop (i + 1) fs]))"

fun apply_adds :: "FileMeta list \<Rightarrow> nat set \<Rightarrow> Version \<Rightarrow> man_error + Version" where
  "apply_adds [] lv v = Inr v"
| "apply_adds (f # fs) lv v =
     (if level_bad (fm_Level f) then Inl (LevelOutOfRange (fm_Level f))
      else if fm_FileNum f \<in> lv then Inl (AddAlreadyLive (fm_FileNum f))
      else let l = nat (fm_Level f) in apply_adds fs (insert (fm_FileNum f) lv) (v[l := v ! l @ [f]]))"

fun check_bounds :: "FileMeta list \<Rightarrow> (man_error + unit) option" where
  "check_bounds [] = Some (Inr ())"
| "check_bounds (f # fs) =
     do {
       c \<leftarrow> compare_keys (fm_Smallest f) (fm_Largest f);
       if c > 0 then Some (Inl (SmallestAboveLargest (fm_FileNum f))) else check_bounds fs
     }"

text \<open>
  \<^verbatim>\<open>sort.Slice\<close> is not stable, but equal elements never survive: file numbers are distinct, and two files of one level with
  the same smallest key overlap.  It compares every element once there are two.
\<close>

definition sort_level :: "nat \<Rightarrow> FileMeta list \<Rightarrow> FileMeta list option" where
  "sort_level l fs =
     (if l = 0 then Some (sort_key (\<lambda>f. - int (fm_FileNum f)) fs)
      else if length fs \<ge> 2 \<and> \<not> list_all (\<lambda>f. valid_ikey (fm_Smallest f)) fs then None
      else Some (sort_key (\<lambda>f. ikey_rank (fm_Smallest f)) fs))"

fun find_overlap :: "FileMeta list \<Rightarrow> (nat \<times> nat) option option" where
  "find_overlap (f # g # fs) =
     do {
       c \<leftarrow> compare_keys (fm_Largest f) (fm_Smallest g);
       if c \<ge> 0 then Some (Some (fm_FileNum f, fm_FileNum g)) else find_overlap (g # fs)
     }"
| "find_overlap fs = Some None"

fun finish_levels :: "nat \<Rightarrow> Version \<Rightarrow> (man_error + Version) option" where
  "finish_levels l [] = Some (Inr [])"
| "finish_levels l (fs # v) =
     do {
       fs \<leftarrow> sort_level l fs;
       bad \<leftarrow> (if l = 0 then Some None else find_overlap fs);
       case bad of
         Some (a, b) \<Rightarrow> Some (Inl (LevelOverlap l a b))
       | None \<Rightarrow> do { r \<leftarrow> finish_levels (Suc l) v; Some (sum_bind r (\<lambda>v. Inr (fs # v))) }
     }"

definition applyEdit :: "Version \<Rightarrow> VersionEdit \<Rightarrow> (man_error + Version) option" where
  "applyEdit v e =
     (case apply_deletes (ve_DeleteFiles e) v of
        Inl err \<Rightarrow> Some (Inl err)
      | Inr nv \<Rightarrow>
          (case apply_adds (ve_AddFiles e) (Live nv) nv of
             Inl err \<Rightarrow> Some (Inl err)
           | Inr nv \<Rightarrow>
               do {
                 r \<leftarrow> check_bounds (ve_AddFiles e);
                 case r of Inl err \<Rightarrow> Some (Inl err) | Inr _ \<Rightarrow> finish_levels 0 nv
               }))"

definition snapshot :: "Version \<Rightarrow> VersionEdit" where
  "snapshot v = empty_edit\<lparr>ve_AddFiles := concat v\<rparr>"

section \<open>The invariant of a version\<close>

abbreviation lo_rank :: "FileMeta \<Rightarrow> bytes \<times> nat" where "lo_rank f \<equiv> ikey_rank (fm_Smallest f)"
abbreviation hi_rank :: "FileMeta \<Rightarrow> bytes \<times> nat" where "hi_rank f \<equiv> ikey_rank (fm_Largest f)"

definition meta_keys :: "FileMeta \<Rightarrow> bool" where
  "meta_keys f \<longleftrightarrow> valid_ikey (fm_Smallest f) \<and> valid_ikey (fm_Largest f)"

definition files_ok :: "Version \<Rightarrow> bool" where
  "files_ok v \<longleftrightarrow> length v = NumLevels \<and> (\<forall>l<NumLevels. \<forall>f\<in>set (v ! l). fm_Level f = int l \<and> meta_keys f)
     \<and> distinct (map fm_FileNum (concat v))"

definition level_sorted :: "nat \<Rightarrow> FileMeta list \<Rightarrow> bool" where
  "level_sorted l fs \<longleftrightarrow> (if l = 0 then sorted_wrt (\<lambda>f g. fm_FileNum g < fm_FileNum f) fs else sorted_wrt (\<lambda>f g. hi_rank f < lo_rank g) fs)"

definition version_ok :: "Version \<Rightarrow> bool" where
  "version_ok v \<longleftrightarrow> files_ok v \<and> (\<forall>f\<in>set (concat v). lo_rank f \<le> hi_rank f) \<and> (\<forall>l<NumLevels. level_sorted l (v ! l))"

lemma version_ok_empty: "version_ok empty_version"
  by (simp add: version_ok_def files_ok_def empty_version_def level_sorted_def)

lemma in_concat_nth: "x \<in> set (concat xss) \<longleftrightarrow> (\<exists>l<length xss. x \<in> set (xss ! l))"
  by (metis (no_types, lifting) UN_iff in_set_conv_nth set_concat)

lemma files_okD:
  assumes "files_ok v"
  shows "length v = NumLevels" "f \<in> set (concat v) \<Longrightarrow> meta_keys f" "distinct (map fm_FileNum (concat v))"
    "l < NumLevels \<Longrightarrow> f \<in> set (v ! l) \<Longrightarrow> fm_Level f = int l"
  using assms unfolding files_ok_def in_concat_nth by auto

lemma concat_upd_mset:
  assumes "l < length v"
  shows "mset (concat (v[l := fs])) + mset (v ! l) = mset (concat v) + mset fs"
proof -
  have "concat v = concat (take l v) @ v ! l @ concat (drop (Suc l) v)"
    by (metis assms concat.simps(2) concat_append id_take_nth_drop)
  moreover have "concat (v[l := fs]) = concat (take l v) @ fs @ concat (drop (Suc l) v)"
    using assms by (simp add: upd_conv_take_nth_drop)
  ultimately show ?thesis by simp
qed

section \<open>Each stage keeps it\<close>

lemma files_ok_upd:
  assumes "files_ok v" "l < NumLevels" "\<And>f. f \<in> set fs \<Longrightarrow> fm_Level f = int l \<and> meta_keys f" "distinct (map fm_FileNum (concat (v[l := fs])))"
  shows "files_ok (v[l := fs])"
  using assms unfolding files_ok_def by (auto simp: nth_list_update split: if_splits)

lemma set_without: "set (x # xs) = S \<Longrightarrow> distinct (map g (x # xs)) \<Longrightarrow> set xs = {y \<in> S. g y \<noteq> g x}"
  by (auto simp: image_iff)

lemma delete_one:
  assumes ok: "files_ok v" and l: "l < NumLevels" and i: "i < length (v ! l)"
  shows "files_ok (v[l := take i (v ! l) @ drop (i + 1) (v ! l)])"
    "set (concat (v[l := take i (v ! l) @ drop (i + 1) (v ! l)])) = {f \<in> set (concat v). fm_FileNum f \<noteq> fm_FileNum (v ! l ! i)}"
proof -
  let ?f = "v ! l ! i" and ?fs = "take i (v ! l) @ drop (i + 1) (v ! l)"
  let ?v = "v[l := ?fs]"
  have len: "l < length v" using files_okD(1) [OF ok] l by simp
  have "v ! l = take i (v ! l) @ ?f # drop (Suc i) (v ! l)" by (rule id_take_nth_drop [OF i])
  then have "mset (v ! l) = mset (take i (v ! l) @ ?f # drop (Suc i) (v ! l))" by (rule arg_cong)
  then have "mset (v ! l) = add_mset ?f (mset ?fs)" by simp
  then have m: "mset (?f # concat ?v) = mset (concat v)" using concat_upd_mset [OF len, of ?fs] by simp
  then have "mset (map fm_FileNum (?f # concat ?v)) = mset (map fm_FileNum (concat v))" by (metis mset_map)
  then have d: "distinct (map fm_FileNum (?f # concat ?v))" using files_okD(3) [OF ok] mset_eq_imp_distinct_iff by blast
  have "set ?fs \<subseteq> set (v ! l)" by (auto dest: in_set_takeD in_set_dropD)
  then show "files_ok ?v" using d ok l unfolding files_ok_def by (intro files_ok_upd [OF ok l, unfolded files_ok_def]) auto
  have "set (?f # concat ?v) = set (concat v)" by (rule mset_eq_setD [OF m])
  then show "set (concat ?v) = {f \<in> set (concat v). fm_FileNum f \<noteq> fm_FileNum ?f}" using d by (rule set_without)
qed

lemma apply_deletes_spec:
  assumes "files_ok v" "apply_deletes ds v = Inr v'"
  shows "files_ok v' \<and> set (concat v') = {f \<in> set (concat v). fm_FileNum f \<notin> df_FileNum ` set ds}"
  using assms
proof (induction ds arbitrary: v)
  case (Cons d ds)
  define l fs where "l = nat (df_Level d)" and "fs = v ! l"
  define i where "i = length (takeWhile (\<lambda>f. fm_FileNum f \<noteq> df_FileNum d) fs)"
  have l: "l < NumLevels" using Cons.prems(2) by (auto simp: level_bad_def l_def split: if_splits)
  have i: "i < length fs" and r: "apply_deletes ds (v[l := take i fs @ drop (i + 1) fs]) = Inr v'"
    using Cons.prems(2) by (auto simp: Let_def i_def fs_def l_def split: if_splits)
  have "fm_FileNum (fs ! i) = df_FileNum d" using i nth_length_takeWhile [of "\<lambda>f. fm_FileNum f \<noteq> df_FileNum d" fs] by (auto simp: i_def)
  with Cons.IH [OF _ r] delete_one [OF Cons.prems(1) l, of i] i show ?case unfolding fs_def by auto
qed auto

lemma apply_adds_spec:
  assumes "files_ok v" "\<forall>f\<in>set fs. meta_keys f" "lv = Live v" "apply_adds fs lv v = Inr v'"
  shows "files_ok v' \<and> mset (concat v') = mset (concat v) + mset fs"
  using assms
proof (induction fs arbitrary: v lv)
  case (Cons f fs)
  define l where "l = nat (fm_Level f)"
  have f: "l < NumLevels" "fm_Level f = int l" "fm_FileNum f \<notin> Live v" and r: "apply_adds fs (insert (fm_FileNum f) lv) (v[l := v ! l @ [f]]) = Inr v'"
    using Cons.prems(3,4) by (auto simp: level_bad_def l_def Let_def split: if_splits)
  have m: "mset (concat (v[l := v ! l @ [f]])) = mset (f # concat v)"
    using concat_upd_mset [of l v "v ! l @ [f]"] f(1) files_okD(1) [OF Cons.prems(1)] by simp
  have "mset (map fm_FileNum (concat (v[l := v ! l @ [f]]))) = mset (map fm_FileNum (f # concat v))" using m by (metis mset_map)
  moreover have "distinct (map fm_FileNum (f # concat v))" using f(3) files_okD(3) [OF Cons.prems(1)] by (auto simp: Live_def)
  ultimately have "distinct (map fm_FileNum (concat (v[l := v ! l @ [f]])))" using mset_eq_imp_distinct_iff by blast
  then have "files_ok (v[l := v ! l @ [f]])" using Cons.prems(1,2) f(1,2) unfolding files_ok_def
    by (intro files_ok_upd [OF Cons.prems(1) f(1), unfolded files_ok_def]) auto
  moreover have "Live (v[l := v ! l @ [f]]) = insert (fm_FileNum f) lv" unfolding Live_def mset_eq_setD [OF m] Cons.prems(3) by simp
  ultimately show ?case using Cons.IH [OF _ _ _ r] Cons.prems(2) m by auto
qed simp

lemma check_bounds_spec:
  "\<forall>f\<in>set fs. meta_keys f \<Longrightarrow> \<exists>r. check_bounds fs = Some r \<and> (r = Inr () \<longleftrightarrow> (\<forall>f\<in>set fs. lo_rank f \<le> hi_rank f))"
  by (induction fs) (auto simp: meta_keys_def compare_keys_def)

lemma find_overlap_spec:
  "\<forall>f\<in>set fs. meta_keys f \<and> lo_rank f \<le> hi_rank f \<Longrightarrow>
   \<exists>r. find_overlap fs = Some r \<and> (r = None \<longleftrightarrow> sorted_wrt (\<lambda>f g. hi_rank f < lo_rank g) fs)"
proof (induction fs rule: find_overlap.induct)
  case (1 f g fs)
  have c: "compare_keys (fm_Largest f) (fm_Smallest g) = Some (Compare (fm_Largest f) (fm_Smallest g))"
    using "1.prems" by (simp add: meta_keys_def compare_keys_def)
  show ?case
  proof (cases "hi_rank f < lo_rank g")
    case True
    then obtain r where r: "find_overlap (g # fs) = Some r" "r = None \<longleftrightarrow> sorted_wrt (\<lambda>f g. hi_rank f < lo_rank g) (g # fs)"
      using "1.IH" [OF c] "1.prems" by (auto simp: not_le)
    have "hi_rank f < lo_rank h" if "\<forall>h\<in>set fs. hi_rank g < lo_rank h" "h \<in> set fs" for h
      using that True "1.prems" by (meson less_trans le_less_trans list.set_intros(1) list.set_intros(2))
    then show ?thesis using r c True by (auto simp: not_le)
  qed (use c in \<open>auto simp: not_less\<close>)
qed auto

lemma sort_level_spec:
  assumes "\<forall>f\<in>set fs. meta_keys f"
  shows "\<exists>fs'. sort_level l fs = Some fs' \<and> mset fs' = mset fs"
  using assms by (auto simp: sort_level_def list_all_iff meta_keys_def)

lemma finish_levels_spec:
  assumes "\<forall>fs\<in>set v. (\<forall>f\<in>set fs. meta_keys f \<and> lo_rank f \<le> hi_rank f) \<and> distinct (map fm_FileNum fs)"
  shows "\<exists>r. finish_levels l v = Some r
    \<and> (\<forall>v'. r = Inr v' \<longrightarrow> list_all2 (\<lambda>fs fs'. mset fs' = mset fs) v v' \<and> (\<forall>i<length v'. level_sorted (l + i) (v' ! i)))"
  using assms
proof (induction v arbitrary: l)
  case (Cons fs v)
  have keys: "\<forall>f\<in>set fs. meta_keys f \<and> lo_rank f \<le> hi_rank f" and dist: "distinct (map fm_FileNum fs)" using Cons.prems by simp_all
  obtain fs' where fs': "sort_level l fs = Some fs'" "mset fs' = mset fs" using sort_level_spec keys by meson
  have set': "set fs' = set fs" by (rule mset_eq_setD [OF fs'(2)])
  obtain r where r: "finish_levels (Suc l) v = Some r"
    "\<forall>v'. r = Inr v' \<longrightarrow> list_all2 (\<lambda>fs fs'. mset fs' = mset fs) v v' \<and> (\<forall>i<length v'. level_sorted (Suc l + i) (v' ! i))"
    using Cons.IH [of "Suc l"] Cons.prems by auto
  have step: "\<exists>r'. do { r \<leftarrow> finish_levels (Suc l) v; Some (sum_bind r (\<lambda>v. Inr (xs # v))) } = Some r'
     \<and> (\<forall>v'. r' = Inr v' \<longrightarrow> list_all2 (\<lambda>fs fs'. mset fs' = mset fs) (fs # v) v' \<and> (\<forall>i<length v'. level_sorted (l + i) (v' ! i)))"
    if "mset xs = mset fs" "level_sorted l xs" for xs
    using r that by (auto simp: sum_bind_Inr nth_Cons split: nat.splits)
  show ?case
  proof (cases "l = 0")
    case True
    have "sorted_wrt (\<lambda>f g. fm_FileNum g \<le> fm_FileNum f) fs'"
      using fs'(1) True sorted_sort_key [of "\<lambda>f. - int (fm_FileNum f)" fs] by (auto simp: sort_level_def sorted_map)
    moreover have "distinct (map fm_FileNum fs')" using fs'(2) dist by (metis mset_map mset_eq_imp_distinct_iff)
    ultimately have "level_sorted l fs'" using True by (induction fs') (auto simp: level_sorted_def order.strict_iff_order image_iff)
    with fs' show ?thesis using step [of fs'] True by simp
  next
    case False
    obtain ov where o: "find_overlap fs' = Some ov" "ov = None \<longleftrightarrow> level_sorted l fs'"
      using find_overlap_spec [of fs'] keys False unfolding set' level_sorted_def by auto
    show ?thesis
    proof (cases ov)
      case None
      then show ?thesis using step [OF fs'(2)] fs'(1) o False by simp
    qed (use fs'(1) o(1) False in auto)
  qed
qed simp

lemma levels_mset: "list_all2 (\<lambda>fs fs'. mset fs' = mset fs) v v' \<Longrightarrow> mset (concat v') = mset (concat v)"
  by (induction rule: list_all2_induct) auto

lemma applyEdit_spec:
  assumes "version_ok v" "\<forall>f\<in>set (ve_AddFiles e). meta_keys f"
  shows "\<exists>r. applyEdit v e = Some r \<and> (\<forall>v'. r = Inr v' \<longrightarrow> version_ok v'
    \<and> set (concat v') = {f \<in> set (concat v). fm_FileNum f \<notin> df_FileNum ` set (ve_DeleteFiles e)} \<union> set (ve_AddFiles e))"
proof -
  note ok = assms(1) [unfolded version_ok_def]
  obtain b where b: "check_bounds (ve_AddFiles e) = Some b" "b = Inr () \<longleftrightarrow> (\<forall>f\<in>set (ve_AddFiles e). lo_rank f \<le> hi_rank f)"
    using check_bounds_spec [OF assms(2)] by blast
  consider (fails) err where "applyEdit v e = Some (Inl err)"
    | (passes) v1 v2 where "apply_deletes (ve_DeleteFiles e) v = Inr v1" "apply_adds (ve_AddFiles e) (Live v1) v1 = Inr v2" "b = Inr ()" "applyEdit v e = finish_levels 0 v2"
  proof (cases "apply_deletes (ve_DeleteFiles e) v")
    case del: (Inr v1)
    show ?thesis
    proof (cases "apply_adds (ve_AddFiles e) (Live v1) v1")
      case (Inr v2)
      then show ?thesis using b(1) del passes [of v1 v2] fails by (cases b) (auto simp: applyEdit_def)
    qed (use del fails in \<open>simp add: applyEdit_def\<close>)
  qed (use fails in \<open>simp add: applyEdit_def\<close>)
  then show ?thesis
  proof cases
    case passes
    have d: "files_ok v1" "set (concat v1) = {f \<in> set (concat v). fm_FileNum f \<notin> df_FileNum ` set (ve_DeleteFiles e)}"
      using apply_deletes_spec [OF _ passes(1)] ok by auto
    have a: "files_ok v2" "mset (concat v2) = mset (concat v1) + mset (ve_AddFiles e)" using apply_adds_spec [OF d(1) assms(2) refl passes(2)] by auto
    have s2: "set (concat v2) = set (concat v1) \<union> set (ve_AddFiles e)" using arg_cong [OF a(2), of set_mset] by simp
    have lo: "lo_rank f \<le> hi_rank f" if "f \<in> set (concat v2)" for f using that ok b(2) passes(3) unfolding s2 d(2) by blast
    have "(\<forall>f\<in>set fs. meta_keys f \<and> lo_rank f \<le> hi_rank f) \<and> distinct (map fm_FileNum fs)" if "fs \<in> set v2" for fs
      using that lo files_okD(2,3) [OF a(1)] by (auto simp: map_concat distinct_concat_iff)
    then obtain r where r: "finish_levels 0 v2 = Some r"
      "\<forall>v'. r = Inr v' \<longrightarrow> list_all2 (\<lambda>fs fs'. mset fs' = mset fs) v2 v' \<and> (\<forall>i<length v'. level_sorted i (v' ! i))"
      using finish_levels_spec [of v2 0] by auto
    have "version_ok v' \<and> set (concat v') = set (concat v2)" if "r = Inr v'" for v'
    proof -
      have l2: "list_all2 (\<lambda>fs fs'. mset fs' = mset fs) v2 v'" and so: "\<forall>i<length v'. level_sorted i (v' ! i)" using r(2) that by auto
      have m: "mset (concat v') = mset (concat v2)" by (rule levels_mset [OF l2])
      have len: "length v' = length v2" "\<And>i. i < length v2 \<Longrightarrow> set (v' ! i) = set (v2 ! i)"
        using l2 unfolding list_all2_conv_all_nth by (simp, metis mset_eq_setD)
      have "distinct (map fm_FileNum (concat v'))" using m files_okD(3) [OF a(1)] by (metis mset_eq_imp_distinct_iff mset_map)
      then show ?thesis using a(1) len so lo mset_eq_setD [OF m] unfolding version_ok_def files_ok_def by auto
    qed
    then show ?thesis using r(1) passes(4) s2 d(2) by auto
  qed auto
qed

text \<open>Replaying the snapshot of a version gives it back, in the same order.\<close>

lemma apply_adds_ok:
  assumes "\<forall>f\<in>set fs. \<not> level_bad (fm_Level f)" "distinct (map fm_FileNum fs)" "fm_FileNum ` set fs \<inter> lv = {}" "length v = NumLevels"
  shows "apply_adds fs lv v = Inr (map (\<lambda>l. v ! l @ filter (\<lambda>f. fm_Level f = int l) fs) [0..<NumLevels])"
  using assms
proof (induction fs arbitrary: lv v)
  case Nil
  then show ?case by (metis (no_types, lifting) append_Nil2 apply_adds.simps(1) filter.simps(1) map_cong map_nth)
next
  case (Cons f fs)
  let ?l = "nat (fm_Level f)"
  have l: "?l < NumLevels" "fm_Level f = int ?l" using Cons.prems(1) by (auto simp: level_bad_def)
  have "apply_adds (f # fs) lv v = apply_adds fs (insert (fm_FileNum f) lv) (v[?l := v ! ?l @ [f]])"
    using Cons.prems(1,3) by (simp add: Let_def)
  also have "\<dots> = Inr (map (\<lambda>l. v[?l := v ! ?l @ [f]] ! l @ filter (\<lambda>f. fm_Level f = int l) fs) [0..<NumLevels])"
    using Cons.prems by (intro Cons.IH) (auto simp: image_iff)
  finally show ?case using l Cons.prems(4) by (auto simp: nth_list_update)
qed

lemma check_bounds_ok: "\<forall>f\<in>set fs. meta_keys f \<and> lo_rank f \<le> hi_rank f \<Longrightarrow> check_bounds fs = Some (Inr ())"
  using check_bounds_spec [of fs] by auto

lemma level_filter:
  fixes v :: Version
  assumes "length v = NumLevels" "\<forall>l<NumLevels. \<forall>f\<in>set (v ! l). fm_Level f = int l" "l < NumLevels"
  shows "filter (\<lambda>f. fm_Level f = int l) (concat v) = v ! l"
proof -
  have "filter (\<lambda>f. fm_Level f = int l) (v ! j) = (if j = l then v ! j else [])" if "j < NumLevels" for j
    using that assms(2) by (auto simp: filter_id_conv filter_empty_conv)
  then have "map (filter (\<lambda>f. fm_Level f = int l)) v = (replicate NumLevels [])[l := v ! l]"
    using assms(1,3) by (intro nth_equalityI) (auto simp: nth_list_update)
  moreover have "concat ((replicate n [])[l := xs]) = xs" if "l < n" for n and xs :: "FileMeta list"
    using that by (simp add: upd_conv_take_nth_drop)
  ultimately show ?thesis using assms(3) by (simp add: filter_concat)
qed

lemma finish_levels_id:
  assumes "\<forall>i<length v. level_sorted (l + i) (v ! i)" "\<forall>fs\<in>set v. \<forall>f\<in>set fs. meta_keys f \<and> lo_rank f \<le> hi_rank f"
  shows "finish_levels l v = Some (Inr v)"
  using assms
proof (induction v arbitrary: l)
  case (Cons fs v)
  have s: "level_sorted l fs" and tail: "\<forall>i<length v. level_sorted (Suc l + i) (v ! i)" using Cons.prems(1) by fastforce+
  have k: "\<forall>f\<in>set fs. meta_keys f \<and> lo_rank f \<le> hi_rank f" using Cons.prems(2) by simp
  have lt: "lo_rank f < lo_rank g" if "hi_rank f < lo_rank g" "f \<in> set fs" for f g using that k by (meson le_less_trans)
  have "sort_level l fs = Some fs"
  proof (cases "l = 0")
    case True
    then have "sorted (map (\<lambda>f. - int (fm_FileNum f)) fs)" using s by (auto simp: level_sorted_def sorted_map elim!: sorted_wrt_mono_rel [rotated])
    then show ?thesis using True by (simp add: sort_level_def sort_key_id_if_sorted)
  next
    case False
    then have "sorted (map lo_rank fs)"
      using s lt unfolding level_sorted_def sorted_map by (auto intro!: less_imp_le elim!: sorted_wrt_mono_rel [rotated])
    then show ?thesis using False k by (simp add: sort_level_def sort_key_id_if_sorted list_all_iff meta_keys_def)
  qed
  moreover have "l \<noteq> 0 \<Longrightarrow> find_overlap fs = Some None" using find_overlap_spec [OF k] s by (auto simp: level_sorted_def)
  ultimately show ?case using Cons.IH [OF tail] Cons.prems(2) by simp
qed simp

lemma applyEdit_snapshot:
  assumes "version_ok v"
  shows "applyEdit empty_version (snapshot v) = Some (Inr v)"
proof -
  note ok = assms [unfolded version_ok_def]
  have f: "files_ok v" and keys: "\<forall>f\<in>set (concat v). meta_keys f \<and> lo_rank f \<le> hi_rank f" using ok files_okD(2) by blast+
  have "apply_adds (concat v) {} empty_version = Inr (map (\<lambda>l. empty_version ! l @ filter (\<lambda>f. fm_Level f = int l) (concat v)) [0..<NumLevels])"
  proof (rule apply_adds_ok)
    show "\<forall>f\<in>set (concat v). \<not> level_bad (fm_Level f)"
    proof
      fix g assume "g \<in> set (concat v)"
      then obtain l where "l < NumLevels" "g \<in> set (v ! l)" using files_okD(1) [OF f] unfolding in_concat_nth by auto
      then show "\<not> level_bad (fm_Level g)" using files_okD(4) [OF f, of l g] by (simp add: level_bad_def)
    qed
  qed (use f in \<open>auto simp: files_ok_def empty_version_def\<close>)
  also have "\<dots> = Inr (map (\<lambda>l. v ! l) [0..<NumLevels])"
    using level_filter [of v] f by (auto simp: files_ok_def empty_version_def)
  also have "map (\<lambda>l. v ! l) [0..<NumLevels] = v" using files_okD(1) [OF f] by (metis map_nth)
  finally have "apply_adds (concat v) {} empty_version = Inr v" .
  moreover have "finish_levels 0 v = Some (Inr v)" using ok keys files_okD(1) [OF f] by (intro finish_levels_id) auto
  moreover have "Live empty_version = {}" by (simp add: Live_def empty_version_def)
  ultimately show ?thesis using check_bounds_ok [OF keys] by (simp add: applyEdit_def snapshot_def empty_edit_def)
qed

text \<open>
  C34. Applying an edit never panics on well-formed bounds.  When it succeeds, the new version holds exactly the files that were
  not deleted and those that were added, file numbers stay distinct, level 0 is ordered newest first and every deeper level is
  sorted by key without overlap; and a snapshot of the result, applied to the empty version, gives the result back.
\<close>

theorem version_edit_exact:
  assumes "version_ok v" "\<forall>f\<in>set (ve_AddFiles e). meta_keys f"
  shows "\<exists>r. applyEdit v e = Some r \<and> (\<forall>v'. r = Inr v' \<longrightarrow> version_ok v' \<and> applyEdit empty_version (snapshot v') = Some (Inr v')
    \<and> set (concat v') = {f \<in> set (concat v). fm_FileNum f \<notin> df_FileNum ` set (ve_DeleteFiles e)} \<union> set (ve_AddFiles e))"
  using applyEdit_spec [OF assms] applyEdit_snapshot by blast

definition sample_meta :: FileMeta where
  "sample_meta = \<lparr>fm_Level = 1, fm_FileNum = 9, fm_Size = 10, fm_Smallest = enc_ikey [97] 5 KindPut, fm_Largest = enc_ikey [98] 3 KindPut\<rparr>"

theorem version_edit_exact_witness:
  "\<exists>v'. applyEdit empty_version (empty_edit\<lparr>ve_AddFiles := [sample_meta]\<rparr>) = Some (Inr v') \<and> version_ok v' \<and> set (concat v') = {sample_meta}"
proof -
  let ?e = "empty_edit\<lparr>ve_AddFiles := [sample_meta]\<rparr>"
  have k: "\<forall>f\<in>set (ve_AddFiles ?e). meta_keys f" by (simp add: meta_keys_def sample_meta_def valid_ikey_def)
  have "UserKey (enc_ikey [97] 5 KindPut) < UserKey (enc_ikey [98] 3 KindPut)" unfolding UserKey_enc by simp
  then have "lo_rank sample_meta \<le> hi_rank sample_meta" by (simp add: sample_meta_def ikey_rank_def less_eq_prod_def)
  then have b: "check_bounds [sample_meta] = Some (Inr ())" using check_bounds_spec [of "[sample_meta]"] k by auto
  have l: "fm_Level sample_meta = 1" by (simp add: sample_meta_def)
  have "(replicate NumLevels [])[Suc 0 := [sample_meta]] = [[], [sample_meta], [], [], [], [], []]" by (simp add: NumLevels_def numeral_eq_Suc)
  then have "applyEdit empty_version ?e = Some (Inr [[], [sample_meta], [], [], [], [], []])"
    using b l by (simp add: applyEdit_def empty_edit_def empty_version_def Live_def level_bad_def NumLevels_def sort_level_def del: check_bounds.simps)
  then show ?thesis using version_edit_exact [OF version_ok_empty k] by (auto simp: empty_version_def)
qed

end
