(* ===== verification/FileNames.thy ===== *)
theory FileNames
  imports Prelude
begin

text \<open>
  The names of the files of a database directory, \<^verbatim>\<open>src/internal/manifest/version_set.go\<close>: numbers printed with
  at least six decimal digits between a fixed prefix and suffix, and the parsers that read them back from a directory listing.
\<close>

section \<open>Definitions\<close>

definition str :: "string \<Rightarrow> bytes" where
  "str s = map of_char s"

function digits :: "nat \<Rightarrow> bytes" where
  "digits n = (if n < 10 then [of_nat (48 + n)] else digits (n div 10) @ [of_nat (48 + n mod 10)])"
  by pat_completeness auto

termination digits
  by (relation "measure id") auto

declare digits.simps [simp del]

text \<open>\<^verbatim>\<open>%06d\<close>\<close>

definition print06 :: "nat \<Rightarrow> bytes" where
  "print06 n = replicate (6 - length (digits n)) 48 @ digits n"

definition is_digit :: "byte \<Rightarrow> bool" where
  "is_digit b \<longleftrightarrow> 48 \<le> b \<and> b \<le> 57"

definition dec_val :: "bytes \<Rightarrow> nat" where
  "dec_val s = foldl (\<lambda>v b. 10 * v + (unat b - 48)) 0 s"

text \<open>\<^verbatim>\<open>strconv.ParseUint(s, 10, 64)\<close>\<close>

definition ParseUint :: "bytes \<Rightarrow> nat option" where
  "ParseUint s = (if s = [] \<or> \<not> list_all is_digit s \<or> dec_val s \<ge> 2 ^ 64 then None else Some (dec_val s))"

definition CutPrefix :: "bytes \<Rightarrow> bytes \<Rightarrow> bytes option" where
  "CutPrefix s p = (if prefix p s then Some (drop (length p) s) else None)"

definition CutSuffix :: "bytes \<Rightarrow> bytes \<Rightarrow> bytes option" where
  "CutSuffix s p = (if suffix p s then Some (take (length s - length p) s) else None)"

definition currentName :: bytes where "currentName = str ''CURRENT''"
definition tmpName :: bytes where "tmpName = currentName @ str ''.tmp''"

definition manifestName :: "nat \<Rightarrow> bytes" where
  "manifestName num = str ''MANIFEST-'' @ print06 num"

text \<open>The name inside the directory; the path of the directory itself plays no role.\<close>

definition TableFileName :: "nat \<Rightarrow> bytes" where
  "TableFileName num = print06 num @ str ''.sst''"

definition parseTableName :: "bytes \<Rightarrow> nat option" where
  "parseTableName name = (case CutSuffix name (str ''.sst'') of None \<Rightarrow> None | Some s \<Rightarrow> if s = [] then None else ParseUint s)"

definition parseManifestName :: "bytes \<Rightarrow> nat option" where
  "parseManifestName name = (case CutPrefix name (str ''MANIFEST-'') of None \<Rightarrow> None | Some s \<Rightarrow> if s = [] then None else ParseUint s)"

text \<open>\<^verbatim>\<open>strings.TrimSpace\<close> on ASCII text, which is all \<^verbatim>\<open>setCurrent\<close> writes.\<close>

definition is_space :: "byte \<Rightarrow> bool" where
  "is_space b \<longleftrightarrow> b \<in> {9, 10, 11, 12, 13, 32}"

definition TrimSpace :: "bytes \<Rightarrow> bytes" where
  "TrimSpace s = rev (dropWhile is_space (rev (dropWhile is_space s)))"

section \<open>Round trips\<close>

lemma str_simps [simp]: "str [] = []" "str (c # s) = of_char c # str s" "str (s @ t) = str s @ str t"
  by (simp_all add: str_def)

lemma digit_byte: "n < 10 \<Longrightarrow> is_digit (of_nat (48 + n)) \<and> unat (of_nat (48 + n) :: byte) = 48 + n"
proof -
  assume n: "n < 10"
  have u: "unat (of_nat (48 + n) :: byte) = 48 + n" using n by (simp only: unat_of_nat_byte) simp
  then show ?thesis using n unfolding is_digit_def word_le_nat_alt by simp
qed

lemma dec_val_snoc: "dec_val (s @ [b]) = 10 * dec_val s + (unat b - 48)"
  by (simp add: dec_val_def)

lemma digits_spec: "digits n \<noteq> [] \<and> list_all is_digit (digits n) \<and> dec_val (digits n) = n"
proof (induction n rule: digits.induct)
  case (1 n)
  show ?case
  proof (cases "n < 10")
    case True
    then show ?thesis using digit_byte [OF True] by (subst (1 2 3) digits.simps) (simp add: dec_val_def)
  next
    case False
    have m: "n mod 10 < 10" by simp
    show ?thesis using 1 [OF False] False digit_byte [OF m]
      by (subst (1 2 3) digits.simps) (simp add: dec_val_snoc del: of_nat_add)
  qed
qed

lemma dec_val_zeros: "dec_val (replicate k 48 @ s) = dec_val s"
  by (induction k) (simp_all add: dec_val_def)

lemma ParseUint_print: "n < 2 ^ 64 \<Longrightarrow> ParseUint (print06 n) = Some n"
  using digits_spec [of n] by (auto simp: ParseUint_def print06_def dec_val_zeros list_all_iff is_digit_def)

lemma print06_ne [simp]: "print06 n \<noteq> []"
  using digits_spec [of n] by (simp add: print06_def)

lemma print06_digits: "list_all is_digit (print06 n)"
  using digits_spec [of n] by (auto simp: print06_def list_all_iff is_digit_def)

lemma parseManifestName_name [simp]: "n < 2 ^ 64 \<Longrightarrow> parseManifestName (manifestName n) = Some n"
  by (simp add: parseManifestName_def manifestName_def CutPrefix_def ParseUint_print)

lemma parseTableName_name [simp]: "n < 2 ^ 64 \<Longrightarrow> parseTableName (TableFileName n) = Some n"
  by (auto simp: parseTableName_def TableFileName_def CutSuffix_def ParseUint_print suffix_def)

lemma dec_val_print: "dec_val (print06 n) = n"
  using digits_spec [of n] by (simp add: print06_def dec_val_zeros)

lemma name_inj [simp]: "manifestName n = manifestName m \<longleftrightarrow> n = m" "TableFileName n = TableFileName m \<longleftrightarrow> n = m"
  unfolding manifestName_def TableFileName_def by (metis append_same_eq dec_val_print same_append_eq)+

lemma print06_hd: "\<exists>b r. print06 n = b # r \<and> is_digit b"
  using print06_digits [of n] by (cases "print06 n") auto

lemma print06_last: "\<exists>r b. print06 n = r @ [b] \<and> is_digit b"
  using print06_digits [of n] by (cases "print06 n" rule: rev_cases) auto

lemma parseTableName_other [simp]:
  "parseTableName (manifestName n) = None" "parseTableName currentName = None" "parseTableName tmpName = None"
proof -
  obtain r b where r: "print06 n = r @ [b]" "is_digit b" using print06_last by blast
  have "b \<noteq> 116" using r(2) by (auto simp: is_digit_def)
  then have "\<not> suffix (str ''.sst'') (manifestName n)" using r(1) by (auto simp: manifestName_def suffix_def)
  then show "parseTableName (manifestName n) = None" by (simp add: parseTableName_def CutSuffix_def)
qed (simp_all add: parseTableName_def CutSuffix_def currentName_def tmpName_def suffix_to_prefix)

lemma parseManifestName_other [simp]:
  "parseManifestName (TableFileName n) = None" "parseManifestName currentName = None" "parseManifestName tmpName = None"
proof -
  obtain b r where r: "print06 n = b # r" "is_digit b" using print06_hd by blast
  have "b \<noteq> 77" using r(2) by (auto simp: is_digit_def)
  then show "parseManifestName (TableFileName n) = None" using r(1) by (simp add: parseManifestName_def CutPrefix_def TableFileName_def)
qed (simp_all add: parseManifestName_def CutPrefix_def currentName_def tmpName_def)

lemma names_differ [simp]:
  "currentName \<noteq> tmpName" "manifestName n \<noteq> currentName" "manifestName n \<noteq> tmpName" "TableFileName n \<noteq> currentName" "TableFileName n \<noteq> tmpName"
  "TableFileName n \<noteq> manifestName m"
proof -
  obtain b r where r: "print06 n = b # r" "is_digit b" using print06_hd by blast
  have "b \<noteq> 77" "b \<noteq> 67" using r(2) by (auto simp: is_digit_def)
  then show "TableFileName n \<noteq> manifestName m" "TableFileName n \<noteq> currentName" "TableFileName n \<noteq> tmpName"
    using r(1) by (simp_all add: TableFileName_def manifestName_def currentName_def tmpName_def)
qed (simp_all add: currentName_def tmpName_def manifestName_def)

lemmas names_differ_sym [simp] = names_differ [THEN not_sym]

lemma TrimSpace_current: "TrimSpace (manifestName n @ [10]) = manifestName n"
proof -
  obtain r b where r: "print06 n = r @ [b]" "is_digit b" using print06_last by blast
  have b: "\<not> is_space b" using r(2) by (auto simp: is_digit_def is_space_def)
  have "is_space 10" "\<not> is_space 77" by (simp_all add: is_space_def)
  then show ?thesis using b r(1) by (simp add: TrimSpace_def manifestName_def)
qed

end
