(* ===== verification/DirStore.thy ===== *)
theory DirStore
  imports Prelude
begin

text \<open>
  A directory of append-only files as the storage engine uses it: files that have an identity of their own, the names
  the running system sees, and for every name the values a crash may leave it with until the directory is synced.  A crash keeps,
  of every file, a prefix that contains at least the synced bytes; renaming is atomic, so a crash never leaves one file under two names.
\<close>

record nfile =
  nf_data :: bytes
  nf_synced :: nat

record disk =
  dk_ino :: "nat \<rightharpoonup> nfile"
  dk_next :: nat
  dk_dir :: "bytes \<rightharpoonup> nat"
  dk_hist :: "bytes \<Rightarrow> nat option set"

definition empty_disk :: disk where
  "empty_disk = \<lparr>dk_ino = Map.empty, dk_next = 0, dk_dir = Map.empty, dk_hist = (\<lambda>_. {None})\<rparr>"

definition set_name :: "bytes \<Rightarrow> nat option \<Rightarrow> disk \<Rightarrow> disk" where
  "set_name n x d = d\<lparr>dk_dir := (dk_dir d)(n := x), dk_hist := (dk_hist d)(n := insert x (dk_hist d n))\<rparr>"

definition upd_ino :: "nat \<Rightarrow> (nfile \<Rightarrow> nfile) \<Rightarrow> disk \<Rightarrow> disk" where
  "upd_ino i g d = d\<lparr>dk_ino := (dk_ino d)(i := map_option g (dk_ino d i))\<rparr>"

text \<open>Creating a file under a name that is not in use; the caller has checked that.\<close>

definition dk_create :: "bytes \<Rightarrow> disk \<Rightarrow> nat \<times> disk" where
  "dk_create n d = (dk_next d, set_name n (Some (dk_next d)) (d\<lparr>dk_ino := (dk_ino d)(dk_next d \<mapsto> \<lparr>nf_data = [], nf_synced = 0\<rparr>), dk_next := Suc (dk_next d)\<rparr>))"

definition dk_append :: "nat \<Rightarrow> bytes \<Rightarrow> disk \<Rightarrow> disk" where
  "dk_append i b = upd_ino i (\<lambda>f. f\<lparr>nf_data := nf_data f @ b\<rparr>)"

definition dk_fsync :: "nat \<Rightarrow> disk \<Rightarrow> disk" where
  "dk_fsync i = upd_ino i (\<lambda>f. f\<lparr>nf_synced := length (nf_data f)\<rparr>)"

definition dk_syncdir :: "disk \<Rightarrow> disk" where
  "dk_syncdir d = d\<lparr>dk_hist := \<lambda>n. {dk_dir d n}\<rparr>"

definition dk_rename :: "bytes \<Rightarrow> bytes \<Rightarrow> disk \<Rightarrow> disk" where
  "dk_rename a b d = set_name a None (set_name b (dk_dir d a) d)"

definition dk_remove :: "bytes \<Rightarrow> disk \<Rightarrow> disk" where
  "dk_remove n = set_name n None"

text \<open>Opening with truncation: an existing file is emptied, otherwise one is created.\<close>

definition dk_truncate :: "bytes \<Rightarrow> disk \<Rightarrow> nat \<times> disk" where
  "dk_truncate n d = (case dk_dir d n of None \<Rightarrow> dk_create n d | Some i \<Rightarrow> (i, upd_ino i (\<lambda>_. \<lparr>nf_data = [], nf_synced = 0\<rparr>) d))"

definition dk_read :: "bytes \<Rightarrow> disk \<Rightarrow> bytes option" where
  "dk_read n d = do { i \<leftarrow> dk_dir d n; f \<leftarrow> dk_ino d i; Some (nf_data f) }"

definition dk_entries :: "disk \<Rightarrow> bytes list" where
  "dk_entries d = sorted_list_of_set (dom (dk_dir d))"

definition dk_crash :: "disk \<Rightarrow> disk \<Rightarrow> bool" where
  "dk_crash d d' \<longleftrightarrow> dk_next d' = dk_next d
     \<and> (\<forall>n. dk_dir d' n \<in> dk_hist d n) \<and> dk_hist d' = (\<lambda>n. {dk_dir d' n}) \<and> finite (dom (dk_dir d'))
     \<and> (\<forall>a b i. dk_dir d' a = Some i \<longrightarrow> dk_dir d' b = Some i \<longrightarrow> a = b)
     \<and> (\<forall>i. case dk_ino d i of
          None \<Rightarrow> dk_ino d' i = None
        | Some f \<Rightarrow> (\<exists>k. nf_synced f \<le> k \<and> k \<le> length (nf_data f) \<and> dk_ino d' i = Some \<lparr>nf_data = take k (nf_data f), nf_synced = k\<rparr>))"

section \<open>Well-formed disks\<close>

definition disk_ok :: "disk \<Rightarrow> bool" where
  "disk_ok d \<longleftrightarrow> (\<forall>n. dk_dir d n \<in> dk_hist d n) \<and> (\<forall>n i. Some i \<in> dk_hist d n \<longrightarrow> i < dk_next d \<and> dk_ino d i \<noteq> None)
     \<and> (\<forall>i. dk_ino d i \<noteq> None \<longrightarrow> i < dk_next d) \<and> finite (dom (dk_dir d))
     \<and> (\<forall>i f. dk_ino d i = Some f \<longrightarrow> nf_synced f \<le> length (nf_data f))
     \<and> (\<forall>a b i. dk_dir d a = Some i \<longrightarrow> dk_dir d b = Some i \<longrightarrow> a = b)"

named_theorems disk_defs \<open>the operations on a disk\<close>

lemmas [disk_defs] = set_name_def upd_ino_def dk_create_def dk_append_def dk_fsync_def dk_syncdir_def dk_rename_def dk_remove_def dk_truncate_def

lemma disk_ok_empty: "disk_ok empty_disk"
  by (simp add: disk_ok_def empty_disk_def)

lemma disk_okD:
  assumes "disk_ok d"
  shows "dk_dir d n \<in> dk_hist d n" "Some i \<in> dk_hist d n \<Longrightarrow> i < dk_next d" "Some i \<in> dk_hist d n \<Longrightarrow> dk_ino d i \<noteq> None"
    "dk_ino d i \<noteq> None \<Longrightarrow> i < dk_next d" "finite (dom (dk_dir d))" "dk_ino d i = Some f \<Longrightarrow> nf_synced f \<le> length (nf_data f)"
    "dk_dir d a = Some i \<Longrightarrow> dk_dir d b = Some i \<Longrightarrow> a = b"
  using assms unfolding disk_ok_def by auto

lemma disk_okI:
  assumes "\<And>n. dk_dir d n \<in> dk_hist d n" "\<And>n i. Some i \<in> dk_hist d n \<Longrightarrow> i < dk_next d" "\<And>n i. Some i \<in> dk_hist d n \<Longrightarrow> dk_ino d i \<noteq> None"
    "\<And>i. dk_ino d i \<noteq> None \<Longrightarrow> i < dk_next d" "finite (dom (dk_dir d))" "\<And>i f. dk_ino d i = Some f \<Longrightarrow> nf_synced f \<le> length (nf_data f)"
    "\<And>a b i. dk_dir d a = Some i \<Longrightarrow> dk_dir d b = Some i \<Longrightarrow> a = b"
  shows "disk_ok d"
  using assms unfolding disk_ok_def by blast

lemma disk_ok_fresh: "disk_ok d \<Longrightarrow> Some (dk_next d) \<notin> dk_hist d n \<and> dk_ino d (dk_next d) = None \<and> dk_dir d n \<noteq> Some (dk_next d)"
  using disk_okD(1,2,4) [of d] by (metis less_irrefl)

lemma disk_ok_create: "disk_ok d \<Longrightarrow> disk_ok (snd (dk_create n d))"
  using disk_ok_fresh [of d] unfolding disk_ok_def dk_create_def set_name_def by (auto simp: less_Suc_eq split: if_splits)

lemma disk_ok_upd: "disk_ok d \<Longrightarrow> (\<And>f. nf_synced f \<le> length (nf_data f) \<Longrightarrow> nf_synced (g f) \<le> length (nf_data (g f))) \<Longrightarrow> disk_ok (upd_ino i g d)"
  unfolding disk_ok_def upd_ino_def by (auto split: if_splits)

lemma disk_ok_append: "disk_ok d \<Longrightarrow> disk_ok (dk_append i b d)"
  unfolding dk_append_def by (rule disk_ok_upd) auto

lemma disk_ok_fsync: "disk_ok d \<Longrightarrow> disk_ok (dk_fsync i d)"
  unfolding dk_fsync_def by (rule disk_ok_upd) auto

lemma disk_ok_syncdir: "disk_ok d \<Longrightarrow> disk_ok (dk_syncdir d)"
proof (rule disk_okI, goal_cases)
  case (2 n i)
  then have "Some i \<in> dk_hist d n" using disk_okD(1) [of d n] by (simp add: dk_syncdir_def)
  then show ?case using disk_okD(2) [of d i n] 2 by (simp add: dk_syncdir_def)
next
  case (3 n i)
  then have "Some i \<in> dk_hist d n" using disk_okD(1) [of d n] by (simp add: dk_syncdir_def)
  then show ?case using disk_okD(3) [of d i n] 3 by (simp add: dk_syncdir_def)
qed (auto simp: dk_syncdir_def dest: disk_okD)

lemma disk_ok_truncate: "disk_ok d \<Longrightarrow> disk_ok (snd (dk_truncate n d))"
  by (auto simp: dk_truncate_def intro: disk_ok_create disk_ok_upd split: option.splits)

lemma disk_ok_remove: "disk_ok d \<Longrightarrow> disk_ok (dk_remove n d)"
  unfolding disk_ok_def dk_remove_def set_name_def by (auto split: if_splits)

lemma disk_ok_rename: "disk_ok d \<Longrightarrow> a \<noteq> b \<Longrightarrow> disk_ok (dk_rename a b d)"
proof (rule disk_okI, goal_cases)
  case (2 n i)
  then have "Some i \<in> dk_hist d n \<or> Some i \<in> dk_hist d a" using disk_okD(1) [of d a] by (auto simp: dk_rename_def set_name_def split: if_splits)
  then show ?case using disk_okD(2) [of d i] 2 by (auto simp: dk_rename_def set_name_def)
next
  case (3 n i)
  then have "Some i \<in> dk_hist d n \<or> Some i \<in> dk_hist d a" using disk_okD(1) [of d a] by (auto simp: dk_rename_def set_name_def split: if_splits)
  then show ?case using disk_okD(3) [of d i] 3 by (auto simp: dk_rename_def set_name_def)
next
  case (7 x y i)
  then show ?case using disk_okD(7) [of d] by (auto simp: dk_rename_def set_name_def split: if_splits)
qed (auto simp: dk_rename_def set_name_def dest: disk_okD)

lemmas disk_ok_intros = disk_ok_create disk_ok_append disk_ok_fsync disk_ok_syncdir disk_ok_truncate disk_ok_remove disk_ok_rename

lemma dk_crashD:
  assumes "dk_crash d d'"
  shows "dk_next d' = dk_next d" "dk_dir d' n \<in> dk_hist d n" "dk_hist d' n = {dk_dir d' n}" "finite (dom (dk_dir d'))"
    "dk_dir d' a = Some i \<Longrightarrow> dk_dir d' b = Some i \<Longrightarrow> a = b"
  using assms unfolding dk_crash_def by auto

lemma dk_crash_ino:
  assumes "dk_crash d d'"
  shows "dk_ino d i = None \<Longrightarrow> dk_ino d' i = None"
    "dk_ino d i = Some f \<Longrightarrow> \<exists>k. nf_synced f \<le> k \<and> k \<le> length (nf_data f) \<and> dk_ino d' i = Some \<lparr>nf_data = take k (nf_data f), nf_synced = k\<rparr>"
proof -
  have "case dk_ino d i of None \<Rightarrow> dk_ino d' i = None
    | Some f \<Rightarrow> (\<exists>k. nf_synced f \<le> k \<and> k \<le> length (nf_data f) \<and> dk_ino d' i = Some \<lparr>nf_data = take k (nf_data f), nf_synced = k\<rparr>)"
    using assms unfolding dk_crash_def by blast
  then show "dk_ino d i = None \<Longrightarrow> dk_ino d' i = None"
    "dk_ino d i = Some f \<Longrightarrow> \<exists>k. nf_synced f \<le> k \<and> k \<le> length (nf_data f) \<and> dk_ino d' i = Some \<lparr>nf_data = take k (nf_data f), nf_synced = k\<rparr>"
    by simp_all
qed

lemma disk_ok_crash:
  assumes "disk_ok d" "dk_crash d d'"
  shows "disk_ok d'"
proof (rule disk_okI)
  note c = dk_crashD [OF assms(2)] and f = dk_crash_ino [OF assms(2)]
  show "dk_dir d' n \<in> dk_hist d' n" for n using c(3) by simp
  show "i < dk_next d'" if "Some i \<in> dk_hist d' n" for n i
    using that c(1) c(2,3) [of n] disk_okD(2) [OF assms(1), of i n] by simp
  show "dk_ino d' i \<noteq> None" if "Some i \<in> dk_hist d' n" for n i
    using that c(2,3) [of n] disk_okD(3) [OF assms(1), of i n] f(2) [of i] by auto
  show "i < dk_next d'" if "dk_ino d' i \<noteq> None" for i
    using that f(1) [of i] disk_okD(4) [OF assms(1), of i] c(1) by (cases "dk_ino d i") auto
  show "nf_synced g \<le> length (nf_data g)" if "dk_ino d' i = Some g" for i g
  proof (cases "dk_ino d i")
    case (Some h)
    then obtain k where "k \<le> length (nf_data h)" "dk_ino d' i = Some \<lparr>nf_data = take k (nf_data h), nf_synced = k\<rparr>" using f(2) by blast
    then show ?thesis using that by auto
  qed (use that f(1) in auto)
qed (use dk_crashD [OF assms(2)] in blast)+

end
