(* ===== verification/VersionSet.thy ===== *)
theory VersionSet
  imports ManifestVersion WalRecord FileNames DirStore
begin

text \<open>
  The version set of \<^verbatim>\<open>src/internal/manifest/version_set.go\<close>: a log of edits in a manifest file, the pointer file
  \<^verbatim>\<open>CURRENT\<close> that names it, rotation to a fresh snapshot and the collection of files no version refers to.  System calls that fail
  are flags of \<open>vs_faults\<close>, and the test hook between the steps of a rotation is one more of them.  \<open>None\<close> is a run-time panic.
\<close>

section \<open>State\<close>

datatype vs_error = VsCorrupt man_error | VsIO | VsFailpoint | MissingCurrent | BadCurrent | DamagedRecord
  | LogNumberRegression nat nat | LastSeqRegression nat nat | VsPanic

datatype vs_step = StepWriteManifest | StepSyncManifest | StepSyncDir | StepSyncTmp | StepRenameCurrent

record vs_faults =
  vf_mkdir :: bool
  vf_readDir :: bool
  vf_readCurrent :: bool
  vf_readManifest :: bool
  vf_create :: bool
  vf_write :: "nat option"
  vf_sync :: bool
  vf_syncDir :: bool
  vf_tmpOpen :: bool
  vf_tmpWrite :: "nat option"
  vf_tmpReopen :: bool
  vf_tmpSync :: bool
  vf_rename :: bool
  vf_syncDir2 :: bool
  vf_remove :: "nat option"
  vf_syncDir3 :: bool
  vf_step :: "vs_step \<Rightarrow> bool"

definition vs_no_faults :: vs_faults where
  "vs_no_faults = \<lparr>vf_mkdir = False, vf_readDir = False, vf_readCurrent = False, vf_readManifest = False, vf_create = False, vf_write = None,
     vf_sync = False, vf_syncDir = False, vf_tmpOpen = False, vf_tmpWrite = None, vf_tmpReopen = False, vf_tmpSync = False, vf_rename = False,
     vf_syncDir2 = False, vf_remove = None, vf_syncDir3 = False, vf_step = (\<lambda>_. False)\<rparr>"

record VersionSet =
  vs_rotateSize :: nat
  vs_cur :: Version
  vs_logNumber :: nat
  vs_nextFileNum :: nat
  vs_lastSeq :: nat
  vs_manifestNum :: nat
  vs_f :: "nat option"
  vs_size :: nat
  vs_snapshotSize :: nat
  vs_err :: "vs_error option"

definition inc64 :: "nat \<Rightarrow> nat" where
  "inc64 n = (n + 1) mod 2 ^ 64"

definition fresh_set :: "int \<Rightarrow> VersionSet" where
  "fresh_set rotateSize = \<lparr>vs_rotateSize = (if rotateSize \<le> 0 then 2 ^ 20 else nat rotateSize), vs_cur = empty_version, vs_logNumber = 0,
     vs_nextFileNum = 1, vs_lastSeq = 0, vs_manifestNum = 0, vs_f = None, vs_size = 0, vs_snapshotSize = 0, vs_err = None\<rparr>"

definition vs_fail :: "vs_error \<Rightarrow> VersionSet \<Rightarrow> VersionSet" where
  "vs_fail e vs = vs\<lparr>vs_err := (case vs_err vs of None \<Rightarrow> Some e | Some x \<Rightarrow> Some x)\<rparr>"

section \<open>Replay\<close>

type_synonym replay_state = "Version \<times> nat \<times> nat \<times> nat"

definition replay_edit :: "bytes \<Rightarrow> replay_state \<Rightarrow> vs_error + replay_state" where
  "replay_edit payload s =
     (case s of (v, log, nxt, lseq) \<Rightarrow>
        (case decodeEdit payload of
           Inl e \<Rightarrow> Inl (VsCorrupt e)
         | Inr e \<Rightarrow>
             (case applyEdit v e of
                None \<Rightarrow> Inl VsPanic
              | Some (Inl err) \<Rightarrow> Inl (VsCorrupt err)
              | Some (Inr v) \<Rightarrow>
                  Inr (v, case_option log id (ve_LogNumber e), case_option nxt id (ve_NextFileNum e), case_option lseq id (ve_LastSeq e)))))"

text \<open>A tail is torn when the record it starts is declared to reach the end of the file.\<close>

definition damaged_tail :: "bytes \<Rightarrow> bool" where
  "damaged_tail t \<longleftrightarrow> length t \<ge> RecordHeaderLen \<and> RecordHeaderLen + get_u32 (drop 4 (take 8 t)) < length t"

definition vs_replay :: "vs_faults \<Rightarrow> nat \<Rightarrow> VersionSet \<Rightarrow> disk \<Rightarrow> vs_error + VersionSet" where
  "vs_replay fl num vs d =
     (case (if vf_readManifest fl then None else dk_read (manifestName num) d) of
        None \<Rightarrow> Inl VsIO
      | Some buf \<Rightarrow>
          (case ScanRecords buf replay_edit (empty_version, vs_logNumber vs, vs_nextFileNum vs, vs_lastSeq vs) of
             (clean, Inl e) \<Rightarrow> Inl e
           | (clean, Inr (v, log, nxt, lseq)) \<Rightarrow>
               if damaged_tail (drop clean buf) then Inl DamagedRecord
               else Inr (vs\<lparr>vs_cur := v, vs_logNumber := log, vs_nextFileNum := (if num \<ge> nxt then inc64 num else nxt),
                      vs_lastSeq := lseq, vs_manifestNum := num\<rparr>)))"

section \<open>Rotation\<close>

definition vs_setCurrent :: "vs_faults \<Rightarrow> nat \<Rightarrow> VersionSet \<Rightarrow> disk \<Rightarrow> (vs_error + unit) \<times> VersionSet \<times> disk" where
  "vs_setCurrent fl num vs d =
     (if vf_tmpOpen fl then (Inl VsIO, vs_fail VsIO vs, d)
      else case dk_truncate tmpName d of (t, d) \<Rightarrow>
        (case vf_tmpWrite fl of
           Some n \<Rightarrow> (Inl VsIO, vs_fail VsIO vs, dk_append t (take n (manifestName num @ [10])) d)
         | None \<Rightarrow>
             let d = dk_append t (manifestName num @ [10]) d in
             if vf_tmpReopen fl \<or> vf_tmpSync fl then (Inl VsIO, vs_fail VsIO vs, d)
             else
               let d = dk_fsync t d in
               if vf_step fl StepSyncTmp then (Inl VsFailpoint, vs_fail VsFailpoint vs, d)
               else if vf_rename fl then (Inl VsIO, vs_fail VsIO vs, d)
               else
                 let d = dk_rename tmpName currentName d in
                 if vf_step fl StepRenameCurrent then (Inl VsFailpoint, vs_fail VsFailpoint vs, d)
                 else if vf_syncDir2 fl then (Inl VsIO, vs_fail VsIO vs, d)
                 else (Inr (), vs, dk_syncdir d)))"

definition snapshot_edit :: "VersionSet \<Rightarrow> VersionEdit" where
  "snapshot_edit vs = (snapshot (vs_cur vs))\<lparr>ve_LogNumber := Some (vs_logNumber vs), ve_NextFileNum := Some (vs_nextFileNum vs), ve_LastSeq := Some (vs_lastSeq vs)\<rparr>"

text \<open>The steps that make the new manifest durable, then the switch of \<^verbatim>\<open>CURRENT\<close>.\<close>

definition vs_install :: "vs_faults \<Rightarrow> nat \<Rightarrow> bytes \<Rightarrow> VersionSet \<Rightarrow> disk \<Rightarrow> (vs_error + unit) \<times> VersionSet \<times> disk" where
  "vs_install fl num buf vs d =
     (case dk_create (manifestName num) d of (f, d) \<Rightarrow>
        (case vf_write fl of
           Some n \<Rightarrow> (Inl VsIO, vs_fail VsIO vs, dk_append f (take n buf) d)
         | None \<Rightarrow>
             let d = dk_append f buf d in
             if vf_step fl StepWriteManifest then (Inl VsFailpoint, vs_fail VsFailpoint vs, d)
             else if vf_sync fl then (Inl VsIO, vs_fail VsIO vs, d)
             else
               let d = dk_fsync f d in
               if vf_step fl StepSyncManifest then (Inl VsFailpoint, vs_fail VsFailpoint vs, d)
               else if vf_syncDir fl then (Inl VsIO, vs_fail VsIO vs, d)
               else
                 let d = dk_syncdir d in
                 if vf_step fl StepSyncDir then (Inl VsFailpoint, vs_fail VsFailpoint vs, d)
                 else
                   (case vs_setCurrent fl num vs d of
                      (Inl e, vs, d) \<Rightarrow> (Inl e, vs, d)
                    | (Inr _, vs, d) \<Rightarrow>
                        (Inr (), vs\<lparr>vs_f := Some f, vs_size := length buf, vs_snapshotSize := length buf, vs_manifestNum := num\<rparr>, d))))"

definition vs_rotate :: "vs_faults \<Rightarrow> VersionSet \<Rightarrow> disk \<Rightarrow> ((vs_error + unit) \<times> VersionSet \<times> disk) option" where
  "vs_rotate fl vs d =
     (let num = vs_nextFileNum vs;
          vs = vs\<lparr>vs_nextFileNum := inc64 num\<rparr>;
          edit = snapshot_edit vs
      in if vf_create fl \<or> dk_dir d (manifestName num) \<noteq> None then Some (Inl VsIO, vs_fail VsIO vs, d)
         else do { buf \<leftarrow> AppendRecord [] (edit_encode edit []); Some (vs_install fl num buf vs d) })"

section \<open>Collection\<close>

definition vs_doomed :: "nat set \<Rightarrow> VersionSet \<Rightarrow> bytes \<Rightarrow> bool" where
  "vs_doomed protect vs name =
     (case parseTableName name of
        Some num \<Rightarrow> num \<notin> Live (vs_cur vs) \<and> num \<notin> protect
      | None \<Rightarrow>
          (case parseManifestName name of
             Some num \<Rightarrow> num \<noteq> vs_manifestNum vs
           | None \<Rightarrow> name = tmpName))"

text \<open>The number counts the removals that succeed before one fails.\<close>

fun remove_loop :: "nat option \<Rightarrow> bytes list \<Rightarrow> disk \<Rightarrow> bool \<times> bytes list \<times> disk" where
  "remove_loop k [] d = (True, [], d)"
| "remove_loop k (n # ns) d =
     (if k = Some 0 then (False, [], d)
      else case remove_loop (map_option (\<lambda>j. j - 1) k) ns (dk_remove n d) of (ok, rs, d) \<Rightarrow> (ok, n # rs, d))"

definition DeleteObsolete :: "vs_faults \<Rightarrow> nat set \<Rightarrow> VersionSet \<Rightarrow> disk \<Rightarrow> ((vs_error option) \<times> bytes list) \<times> disk" where
  "DeleteObsolete fl protect vs d =
     (case vs_err vs of
        Some e \<Rightarrow> ((Some e, []), d)
      | None \<Rightarrow>
          if vf_readDir fl then ((Some VsIO, []), d)
          else case remove_loop (vf_remove fl) (filter (vs_doomed protect vs) (dk_entries d)) d of
            (ok, rs, d) \<Rightarrow>
              if \<not> ok then ((Some VsIO, rs), d)
              else if vf_syncDir3 fl then ((Some VsIO, rs), d)
              else ((None, rs), dk_syncdir d))"

section \<open>Opening, applying, closing\<close>

definition scan_past :: "bytes \<Rightarrow> VersionSet \<Rightarrow> VersionSet" where
  "scan_past name vs =
     (case (case parseTableName name of Some n \<Rightarrow> Some n | None \<Rightarrow> parseManifestName name) of
        Some num \<Rightarrow> if num \<ge> vs_nextFileNum vs then vs\<lparr>vs_nextFileNum := inc64 num\<rparr> else vs
      | None \<Rightarrow> vs)"

definition vs_load :: "vs_faults \<Rightarrow> int \<Rightarrow> disk \<Rightarrow> vs_error + VersionSet" where
  "vs_load fl rotateSize d =
     (if vf_readDir fl \<or> vf_readCurrent fl then Inl VsIO
      else sum_bind
        (case dk_read currentName d of
           None \<Rightarrow> if list_ex (\<lambda>n. parseTableName n \<noteq> None) (dk_entries d) then Inl MissingCurrent else Inr (fresh_set rotateSize)
         | Some cur \<Rightarrow>
             (case parseManifestName (TrimSpace cur) of
                None \<Rightarrow> Inl BadCurrent
              | Some num \<Rightarrow> vs_replay fl num (fresh_set rotateSize) d))
        (\<lambda>vs. Inr (fold scan_past (dk_entries d) vs)))"

definition vs_Open :: "vs_faults \<Rightarrow> vs_faults \<Rightarrow> int \<Rightarrow> disk \<Rightarrow> ((vs_error + VersionSet) \<times> disk) option" where
  "vs_Open fl fl' rotateSize d =
     (if vf_mkdir fl then Some (Inl VsIO, d)
      else case vs_load fl rotateSize d of
        Inl e \<Rightarrow> Some (Inl e, d)
      | Inr vs \<Rightarrow>
          do {
            (r, vs, d) \<leftarrow> vs_rotate fl vs d;
            case r of
              Inl e \<Rightarrow> Some (Inl e, d)
            | Inr _ \<Rightarrow>
                (case DeleteObsolete fl' {} vs d of
                   ((Some e, _), d) \<Rightarrow> Some (Inl e, d)
                 | ((None, _), d) \<Rightarrow> Some (Inr vs, d))
          })"

definition stamp :: "VersionSet \<Rightarrow> VersionEdit \<Rightarrow> VersionEdit" where
  "stamp vs e = e\<lparr>ve_LogNumber := Some (case_option (vs_logNumber vs) id (ve_LogNumber e)),
     ve_LastSeq := Some (case_option (vs_lastSeq vs) id (ve_LastSeq e)), ve_NextFileNum := Some (vs_nextFileNum vs)\<rparr>"

text \<open>
  Logging an accepted edit: \<open>fw\<close> and \<open>fs\<close> are the outcomes of the write and the sync of the log, \<open>fl\<close> those of a rotation
  that follows.
\<close>

definition vs_log_edit :: "nat option \<Rightarrow> bool \<Rightarrow> vs_faults \<Rightarrow> VersionEdit \<Rightarrow> Version \<Rightarrow> VersionSet \<Rightarrow> disk \<Rightarrow> ((vs_error + unit) \<times> VersionSet \<times> disk) option" where
  "vs_log_edit fw fs fl stamped newV vs d =
     do {
       buf \<leftarrow> AppendRecord [] (edit_encode stamped []);
       case vs_f vs of
         None \<Rightarrow> Some (Inl VsIO, vs_fail VsIO vs, d)
       | Some f \<Rightarrow>
           (case fw of
              Some n \<Rightarrow> Some (Inl VsIO, vs_fail VsIO vs, dk_append f (take n buf) d)
            | None \<Rightarrow>
                let d = dk_append f buf d in
                if fs then Some (Inl VsIO, vs_fail VsIO vs, d)
                else
                  let d = dk_fsync f d;
                      vs = vs\<lparr>vs_size := vs_size vs + length buf, vs_cur := newV,
                        vs_logNumber := the (ve_LogNumber stamped), vs_lastSeq := the (ve_LastSeq stamped)\<rparr>
                  in if vs_size vs \<ge> vs_rotateSize vs + vs_snapshotSize vs
                     then do { (_, vs, d) \<leftarrow> vs_rotate fl vs d; Some (Inr (), vs, d) }
                     else Some (Inr (), vs, d))
     }"

definition vs_Apply :: "nat option \<Rightarrow> bool \<Rightarrow> vs_faults \<Rightarrow> VersionEdit \<Rightarrow> VersionSet \<Rightarrow> disk \<Rightarrow> ((vs_error + unit) \<times> VersionSet \<times> disk) option" where
  "vs_Apply fw fs fl e vs d =
     (case vs_err vs of
        Some err \<Rightarrow> Some (Inl err, vs, d)
      | None \<Rightarrow>
          if case_option False (\<lambda>n. n < vs_logNumber vs) (ve_LogNumber e)
          then let err = LogNumberRegression (the (ve_LogNumber e)) (vs_logNumber vs) in Some (Inl err, vs_fail err vs, d)
          else if case_option False (\<lambda>n. n < vs_lastSeq vs) (ve_LastSeq e)
          then let err = LastSeqRegression (the (ve_LastSeq e)) (vs_lastSeq vs) in Some (Inl err, vs_fail err vs, d)
          else (case applyEdit (vs_cur vs) e of
              None \<Rightarrow> None
            | Some (Inl err) \<Rightarrow> Some (Inl (VsCorrupt err), vs_fail (VsCorrupt err) vs, d)
            | Some (Inr newV) \<Rightarrow> vs_log_edit fw fs fl (stamp vs e) newV vs d))"

definition AllocFileNum :: "VersionSet \<Rightarrow> nat \<times> VersionSet" where
  "AllocFileNum vs = (vs_nextFileNum vs, vs\<lparr>vs_nextFileNum := inc64 (vs_nextFileNum vs)\<rparr>)"

definition AdvanceLastSeq :: "nat \<Rightarrow> VersionSet \<Rightarrow> VersionSet" where
  "AdvanceLastSeq n vs = (if n > vs_lastSeq vs then vs\<lparr>vs_lastSeq := n\<rparr> else vs)"

text \<open>Closing syncs the log; the flag is a failing sync or close.\<close>

definition vs_Close :: "bool \<Rightarrow> VersionSet \<Rightarrow> disk \<Rightarrow> (vs_error option) \<times> VersionSet \<times> disk" where
  "vs_Close fs vs d =
     (case vs_f vs of
        None \<Rightarrow> (None, vs, d)
      | Some f \<Rightarrow>
          let vs = vs\<lparr>vs_f := None\<rparr> in
          if fs then (Some VsIO, vs_fail VsIO vs, d) else (None, vs, dk_fsync f d))"

end
