(* ===== verification/DbState.thy ===== *)
theory DbState
  imports Merge ScanIter Memtable Sstable VersionSet WalLog WalBatch
begin

text \<open>
  The state of the storage engine and its read path, \<^verbatim>\<open>src/db.go\<close> and \<^verbatim>\<open>src/iter.go\<close>.  Memtables, table
  handles and read states are shared by pointer in the source, so each kind lives in a store of its own, a list
  indexed by address; freeing is left to the garbage collector, so stores only grow.  A handle and a read state carry their reference
  count, and a handle whose count reaches zero closes its file.  \<open>None\<close> is a run-time panic.
\<close>

section \<open>State\<close>

record db_Options =
  MemTableSize :: int
  L0CompactThreshold :: int
  L0StopThreshold :: int
  LevelBytesBase :: int
  TargetFileSize :: int
  DisableWALSync :: bool
  DisableWAL :: bool
  DisableCompaction :: bool

definition defaults :: "db_Options \<Rightarrow> db_Options" where
  "defaults o' =
     (let o1 = (if MemTableSize o' \<le> 0 then o'\<lparr>MemTableSize := 4 * 2 ^ 20\<rparr> else o');
          o2 = (if L0CompactThreshold o1 \<le> 0 then o1\<lparr>L0CompactThreshold := 4\<rparr> else o1);
          o3 = (if L0StopThreshold o2 \<le> 0 then o2\<lparr>L0StopThreshold := 12\<rparr> else o2);
          o4 = (if LevelBytesBase o3 \<le> 0 then o3\<lparr>LevelBytesBase := 10 * 2 ^ 20\<rparr> else o3)
      in if TargetFileSize o4 \<le> 0 then o4\<lparr>TargetFileSize := 2 * 2 ^ 20\<rparr> else o4)"

datatype db_error = ErrNotFound | ErrBatchTooLarge | ErrClosed | ErrReservedKey bytes | DbLocked | DbIO | DbHook
  | DbTable sst_error | DbManifest vs_error | DbWal wal_werr | DbKey base_error | DbNoHandle nat
  | DbUndrainedWal | DbBadBatch wal_error | DbReplay "db_error replay_error"

record tableHandle =
  th_num :: nat
  th_smallest :: bytes
  th_largest :: bytes
  th_r :: Reader
  th_refs :: int
  th_open :: bool

record readState =
  rs_mem :: nat
  rs_imm :: "nat option"
  rs_levels :: "nat list list"
  rs_refs :: int

record Metrics =
  m_Flushes :: nat
  m_Compactions :: nat
  m_FlushBytes :: nat
  m_CompactionBytes :: nat

record DB =
  db_opts :: db_Options
  db_vs :: VersionSet
  db_wal :: "Writer option"
  db_seq :: nat
  db_metrics :: Metrics
  db_mems :: "MemTable list"
  db_handles :: "tableHandle list"
  db_states :: "readState list"
  db_rs :: nat
  db_tables :: "(nat \<times> nat) list"
  db_pending :: "nat list"
  db_compactPtr :: "bytes option list"
  db_immSeq :: nat
  db_immBound :: nat
  db_bgErr :: "db_error option"
  db_flushers :: nat
  db_compacting :: bool
  db_closing :: bool
  db_closed :: bool

section \<open>Reference counts\<close>

definition h_ref :: "nat \<Rightarrow> DB \<Rightarrow> DB" where
  "h_ref h db = db\<lparr>db_handles := (db_handles db)[h := (db_handles db ! h)\<lparr>th_refs := th_refs (db_handles db ! h) + 1\<rparr>]\<rparr>"

definition h_unref :: "nat \<Rightarrow> DB \<Rightarrow> DB option" where
  "h_unref h db =
     (let th = db_handles db ! h; n = th_refs th - 1 in
      if n < 0 then None
      else Some (db\<lparr>db_handles := (db_handles db)[h := th\<lparr>th_refs := n, th_open := th_open th \<and> n \<noteq> 0\<rparr>]\<rparr>))"

fun unref_all :: "nat list \<Rightarrow> DB \<Rightarrow> DB option" where
  "unref_all [] db = Some db"
| "unref_all (h # hs) db = h_unref h db \<bind> unref_all hs"

definition newReadState :: "nat \<Rightarrow> nat option \<Rightarrow> nat list list \<Rightarrow> DB \<Rightarrow> nat \<times> DB" where
  "newReadState mem imm levels db =
     (let db = fold h_ref (concat levels) db
      in (length (db_states db), db\<lparr>db_states := db_states db @ [\<lparr>rs_mem = mem, rs_imm = imm, rs_levels = levels, rs_refs = 1\<rparr>]\<rparr>))"

definition release :: "nat \<Rightarrow> DB \<Rightarrow> DB option" where
  "release a db =
     (let rs = db_states db ! a; n = rs_refs rs - 1 in
      if n < 0 then None
      else
        let db = db\<lparr>db_states := (db_states db)[a := rs\<lparr>rs_refs := n\<rparr>]\<rparr>
        in if n = 0 then unref_all (concat (rs_levels rs)) db else Some db)"

definition acquire :: "DB \<Rightarrow> db_error + (nat \<times> nat \<times> DB)" where
  "acquire db =
     (if db_closed db then Inl ErrClosed
      else
        let a = db_rs db; rs = db_states db ! a
        in Inr (a, db_seq db, db\<lparr>db_states := (db_states db)[a := rs\<lparr>rs_refs := rs_refs rs + 1\<rparr>]\<rparr>))"

text \<open>The reader of a handle; reads of a closed file fail.\<close>

definition th_reader :: "tableHandle \<Rightarrow> Reader" where
  "th_reader h = (if th_open h then th_r h else (th_r h)\<lparr>r_src := (\<lambda>_ _. Inl ''file already closed'')\<rparr>)"

section \<open>Point reads\<close>

text \<open>The copy that \<^verbatim>\<open>finish\<close> makes of a memtable value is not visible in a model without aliasing of byte slices.\<close>

definition finish :: "bytes \<Rightarrow> nat \<Rightarrow> db_error + bytes" where
  "finish v kind = (if kind = KindDelete then Inl ErrNotFound else Inr v)"

text \<open>A lookup in one source: the outer option is a panic, the inner one that the search goes on.\<close>

definition get_mem :: "bytes \<Rightarrow> nat \<Rightarrow> MemTable \<Rightarrow> (db_error + bytes) option option" where
  "get_mem key seq m = do { r \<leftarrow> Memtable_Get key seq m; Some (map_option (\<lambda>(v, kind). finish v kind) r) }"

definition get_table :: "bytes \<Rightarrow> nat \<Rightarrow> tableHandle \<Rightarrow> (db_error + bytes) option option" where
  "get_table key seq h =
     do {
       r \<leftarrow> Reader_Get key seq (th_reader h);
       Some (case r of Inl e \<Rightarrow> Some (Inl (DbTable e)) | Inr x \<Rightarrow> map_option (\<lambda>(v, kind). finish v kind) x)
     }"

fun get_L0 :: "bytes \<Rightarrow> nat \<Rightarrow> tableHandle list \<Rightarrow> (db_error + bytes) option option" where
  "get_L0 key seq [] = Some None"
| "get_L0 key seq (h # hs) =
     do { r \<leftarrow> get_table key seq h; case r of Some x \<Rightarrow> Some (Some x) | None \<Rightarrow> get_L0 key seq hs }"

definition get_level :: "bytes \<Rightarrow> nat \<Rightarrow> tableHandle list \<Rightarrow> (db_error + bytes) option option" where
  "get_level key seq files =
     (let i = sort_search (length files) (\<lambda>i. bytes_compare (th_largest (files ! i)) key \<ge> 0)
      in if i = length files \<or> bytes_compare (th_smallest (files ! i)) key > 0 then Some None
         else get_table key seq (files ! i))"

fun get_levels :: "bytes \<Rightarrow> nat \<Rightarrow> tableHandle list list \<Rightarrow> (db_error + bytes) option" where
  "get_levels key seq [] = Some (Inl ErrNotFound)"
| "get_levels key seq (files # ls) =
     do { r \<leftarrow> get_level key seq files; case r of Some x \<Rightarrow> Some x | None \<Rightarrow> get_levels key seq ls }"

definition get_rs :: "bytes \<Rightarrow> nat \<Rightarrow> readState \<Rightarrow> DB \<Rightarrow> (db_error + bytes) option" where
  "get_rs key seq rs db =
     do {
       r \<leftarrow> get_mem key seq (db_mems db ! rs_mem rs);
       case r of Some x \<Rightarrow> Some x
       | None \<Rightarrow> do {
           r \<leftarrow> (case rs_imm rs of None \<Rightarrow> Some None | Some i \<Rightarrow> get_mem key seq (db_mems db ! i));
           case r of Some x \<Rightarrow> Some x
           | None \<Rightarrow> do {
               r \<leftarrow> get_L0 key seq (map ((!) (db_handles db)) (rs_levels rs ! 0));
               case r of Some x \<Rightarrow> Some x
               | None \<Rightarrow> get_levels key seq (map (map ((!) (db_handles db))) (drop 1 (rs_levels rs)))
             }
         }
     }"

definition db_get :: "bytes \<Rightarrow> DB \<Rightarrow> ((db_error + bytes) \<times> DB) option" where
  "db_get key db =
     (case acquire db of
        Inl e \<Rightarrow> Some (Inl e, db)
      | Inr (a, seq, db) \<Rightarrow> do { r \<leftarrow> get_rs key seq (db_states db ! a) db; db \<leftarrow> release a db; Some (r, db) })"

definition db_Get :: "bytes \<Rightarrow> DB \<Rightarrow> ((db_error + bytes) \<times> DB) option" where
  "db_Get key db = (if reserved key then Some (Inl (ErrReservedKey key), db) else db_get key db)"

section \<open>Scans\<close>

datatype childIter = MemIter "MemTable \<times> nat option" | TableIter sst_Iterator

abbreviation mem_it :: "(MemTable \<times> nat option, sst_error) internalIterator" where
  "mem_it \<equiv> mem_iterator"

definition child_iterator :: "(childIter, sst_error) internalIterator" where
  "child_iterator = \<lparr>
     io_First = (\<lambda>c. case c of MemIter s \<Rightarrow> map_option MemIter (io_First mem_it s) | TableIter s \<Rightarrow> map_option TableIter (io_First sst_iterator s)),
     io_SeekGE = (\<lambda>k c. case c of MemIter s \<Rightarrow> map_option MemIter (io_SeekGE mem_it k s) | TableIter s \<Rightarrow> map_option TableIter (io_SeekGE sst_iterator k s)),
     io_Next = (\<lambda>c. case c of MemIter s \<Rightarrow> map_option MemIter (io_Next mem_it s) | TableIter s \<Rightarrow> map_option TableIter (io_Next sst_iterator s)),
     io_Valid = (\<lambda>c. case c of MemIter s \<Rightarrow> io_Valid mem_it s | TableIter s \<Rightarrow> io_Valid sst_iterator s),
     io_Key = (\<lambda>c. case c of MemIter s \<Rightarrow> io_Key mem_it s | TableIter s \<Rightarrow> io_Key sst_iterator s),
     io_Value = (\<lambda>c. case c of MemIter s \<Rightarrow> io_Value mem_it s | TableIter s \<Rightarrow> io_Value sst_iterator s),
     io_Error = (\<lambda>c. case c of MemIter s \<Rightarrow> io_Error mem_it s | TableIter s \<Rightarrow> io_Error sst_iterator s)\<rparr>"

text \<open>The operations of the engine's merging iterator, over memtable and table iterators.\<close>

type_synonym db_merge = "(childIter, sst_error) mergingIter"

abbreviation db_merging :: "(db_merge, sst_error) internalIterator" where
  "db_merging \<equiv> merging_iterator child_iterator"

definition rs_children :: "readState \<Rightarrow> DB \<Rightarrow> childIter list" where
  "rs_children rs db =
     MemIter (mem_NewIterator (db_mems db ! rs_mem rs))
     # (case rs_imm rs of None \<Rightarrow> [] | Some i \<Rightarrow> [MemIter (mem_NewIterator (db_mems db ! i))])
     @ map (\<lambda>h. TableIter (sst_NewIterator (th_reader (db_handles db ! h)))) (concat (rs_levels rs))"

text \<open>An open iterator pins the read state at its address.\<close>

definition db_scan :: "bytes option \<Rightarrow> bytes option \<Rightarrow> bool \<Rightarrow> DB \<Rightarrow> (nat option \<times> (db_merge, sst_error) Iterator \<times> DB) option" where
  "db_scan start hi includeReserved db =
     (case acquire db of
        Inl e \<Rightarrow> Some (None, \<lparr>it_m = None, it_seq = 0, it_end = None, it_err = Some IterClosed, it_valid = False, it_closed = True, it_includeReserved = False\<rparr>, db)
      | Inr (a, seq, db) \<Rightarrow> do {
          it \<leftarrow> scan_start db_merging start hi includeReserved seq (newMergingIter (rs_children (db_states db ! a) db));
          Some (Some a, it, db)
        })"

definition Scan :: "bytes option \<Rightarrow> bytes option \<Rightarrow> DB \<Rightarrow> (nat option \<times> (db_merge, sst_error) Iterator \<times> DB) option" where
  "Scan start hi db = db_scan start hi False db"

definition scanAll :: "bytes option \<Rightarrow> bytes option \<Rightarrow> DB \<Rightarrow> (nat option \<times> (db_merge, sst_error) Iterator \<times> DB) option" where
  "scanAll start hi db = db_scan start hi True db"

definition it_Close :: "nat option \<Rightarrow> ('m, 'e) Iterator \<Rightarrow> DB \<Rightarrow> (('m, 'e) Iterator \<times> DB) option" where
  "it_Close rs it db =
     (if it_closed it then Some (it, db)
      else do { a \<leftarrow> rs; db \<leftarrow> release a db; Some (it\<lparr>it_closed := True, it_valid := False\<rparr>, db) })"

end
