(* ===== verification/DbRead.thy ===== *)
theory DbRead
  imports DbState
begin

text \<open>
  The read path of the engine against what it should return.  A read state is a stack of layers, newest first: the mutable
  memtable, the sealed one, each table of level 0, and every deeper level as a whole.  When newer layers hold newer versions, a
  point read and a scan agree on one map, the newest visible version of every user key.
\<close>

section \<open>The merging iterator of the engine\<close>

fun child_over :: "childIter \<Rightarrow> entry list \<Rightarrow> entry list \<Rightarrow> bool" where
  "child_over (MemIter s) es rest = mem_over s es rest"
| "child_over (TableIter s) es rest = sst_over s es rest"

lemma mem_over_wf: "mem_over s es rest \<Longrightarrow> e \<in> set es \<Longrightarrow> wf_key (fst e)"
  by (auto simp: mem_over_def holds_def)

lemma wf_valid: "wf_key k \<Longrightarrow> valid_ikey k"
  by (auto simp: wf_key_def)

lemmas child_iter_simps = child_iterator_def childIter.case internalIterator.select_convs child_over.simps

interpretation child: mergeable child_iterator child_over
proof
  fix s es rest assume o: "child_over s es rest"
  show "key_sorted es \<and> suffix rest es" using o mem.over_sorted sst.over_sorted by (cases s) simp_all
  show "\<exists>s'. io_First child_iterator s = Some s' \<and> child_over s' es es"
  proof (cases s)
    case (MemIter m)
    then obtain m' where "io_First mem_it m = Some m'" "mem_over m' es es" using o mem.over_First by (metis child_over.simps(1))
    then show ?thesis using MemIter by (simp add: child_iter_simps)
  next
    case (TableIter m)
    then obtain m' where "io_First sst_iterator m = Some m'" "sst_over m' es es" using o sst.over_First by (metis child_over.simps(2))
    then show ?thesis using TableIter by (simp add: child_iter_simps)
  qed
  show "io_Valid child_iterator s = (rest \<noteq> [])" using o mem.over_Valid sst.over_Valid by (cases s) (simp_all add: child_iter_simps)
  show "io_Error child_iterator s = None" using o mem.over_Error sst.over_Error by (cases s) (simp_all add: child_iter_simps)
  show "\<exists>s'. io_SeekGE child_iterator key s = Some s' \<and> child_over s' es (dropWhile (ltk key) es)" if v: "valid_ikey key" for key
  proof (cases s)
    case (MemIter m)
    then obtain m' where "io_SeekGE mem_it key m = Some m'" "mem_over m' es (dropWhile (ltk key) es)" using o mem.over_SeekGE [OF _ v] by (metis child_over.simps(1))
    then show ?thesis using MemIter by (simp add: child_iter_simps)
  next
    case (TableIter m)
    then obtain m' where "io_SeekGE sst_iterator key m = Some m'" "sst_over m' es (dropWhile (ltk key) es)" using o sst.over_SeekGE [OF _ v] by (metis child_over.simps(2))
    then show ?thesis using TableIter by (simp add: child_iter_simps)
  qed
  show "valid_ikey (fst e)" if "e \<in> set es" for e
    using o that mem_over_wf wf_valid by (cases s) (auto simp: sst_over_def tbl_over_def tbl_reader_def)
next
  fix s es e rest assume o: "child_over s es (e # rest)"
  show "\<exists>s'. io_Next child_iterator s = Some s' \<and> child_over s' es rest"
  proof (cases s)
    case (MemIter m)
    then obtain m' where "io_Next mem_it m = Some m'" "mem_over m' es rest" using o mem.over_Next by (metis child_over.simps(1))
    then show ?thesis using MemIter by (simp add: child_iter_simps)
  next
    case (TableIter m)
    then obtain m' where "io_Next sst_iterator m = Some m'" "sst_over m' es rest" using o sst.over_Next by (metis child_over.simps(2))
    then show ?thesis using TableIter by (simp add: child_iter_simps)
  qed
  show "io_Key child_iterator s = Some (fst e) \<and> io_Value child_iterator s = Some (snd e)"
    using o mem.over_Key sst.over_Key by (cases s) (simp_all add: child_iter_simps)
qed

section \<open>Layers\<close>

text \<open>The first version of a user key that is visible, in two arrangements of the same entries.\<close>

definition newer_first :: "entry list list \<Rightarrow> bool" where
  "newer_first ls \<longleftrightarrow> sorted_wrt (\<lambda>A B. \<forall>x\<in>set A. \<forall>y\<in>set B. UserKey (fst x) = UserKey (fst y) \<longrightarrow> seq_of y < seq_of x) ls"

lemma rank_le_seq: "UserKey (fst x) = UserKey (fst y) \<Longrightarrow> seq_of y < seq_of x \<Longrightarrow> ikey_rank (fst x) < ikey_rank (fst y)"
proof -
  assume a: "UserKey (fst x) = UserKey (fst y)" "seq_of y < seq_of x"
  have "trailer_of (fst y) < trailer_of (fst x)" using a(2) by (metis div_le_mono not_less)
  then show ?thesis using a(1) trailer_less [of "fst x"] by (simp add: ikey_rank_def less_prod_def)
qed

lemma first_sorted:
  "key_sorted es \<Longrightarrow> filter P es = x # xs \<Longrightarrow> y \<in> set es \<Longrightarrow> P y \<Longrightarrow> ikey_rank (fst x) \<le> ikey_rank (fst y)"
  by (induction es) (auto split: if_splits)

lemma first_layers:
  assumes "newer_first ls" "\<forall>es\<in>set ls. key_sorted es" "filter (visible uk seq) (concat ls) = x # xs" "y \<in> set (concat ls)" "visible uk seq y"
  shows "ikey_rank (fst x) \<le> ikey_rank (fst y)"
  using assms
proof (induction ls)
  case (Cons es ls)
  show ?case
  proof (cases "filter (visible uk seq) es")
    case Nil
    then have "y \<notin> set es" using Cons.prems(5) by (auto simp: filter_empty_conv)
    then show ?thesis using Cons Nil by (simp add: newer_first_def)
  next
    case (Cons z zs)
    then have z: "x = z" "z \<in> set es" "visible uk seq z" using Cons.prems(3) Cons_eq_filterD [OF Cons [symmetric]] by auto
    show ?thesis
    proof (cases "y \<in> set es")
      case True
      then show ?thesis using first_sorted [of es] Cons Cons.prems(2,5) z(1) by simp
    next
      case False
      then have "seq_of y < seq_of x" using Cons.prems(1,4,5) z by (auto simp: newer_first_def visible_def)
      then show ?thesis using rank_le_seq [of x y] z Cons.prems(5) by (simp add: visible_def)
    qed
  qed
qed simp

lemma newest_visible_layers:
  assumes "newer_first ls" "\<forall>es\<in>set ls. key_sorted es" "key_sorted es" "mset es = mset (concat ls)"
  shows "newest_visible uk seq es = newest_visible uk seq (concat ls)"
proof -
  let ?P = "visible uk seq"
  have s: "set es = set (concat ls)" using assms(4) by (metis mset_eq_setD)
  show ?thesis
  proof (cases "filter ?P (concat ls)")
    case Nil
    then have "filter ?P es = []" using s by (auto simp: filter_empty_conv)
    then show ?thesis using Nil by (simp add: newest_visible_def)
  next
    case (Cons x xs)
    have x: "x \<in> set (concat ls)" "?P x" using arg_cong [OF Cons, of set] unfolding set_filter by auto
    then obtain z zs where z: "filter ?P es = z # zs" using s by (metis filter_empty_conv neq_Nil_conv)
    have z': "z \<in> set es" "?P z" using arg_cong [OF z, of set] unfolding set_filter by auto
    have "ikey_rank (fst z) \<le> ikey_rank (fst x)" by (rule first_sorted [OF assms(3) z]) (use x s in auto)
    moreover have "ikey_rank (fst x) \<le> ikey_rank (fst z)" by (rule first_layers [OF assms(1,2) Cons]) (use z' s in auto)
    ultimately have "x = z" using key_sorted_rank_inj [OF assms(3)] x z' s by auto
    then show ?thesis using Cons z by (simp add: newest_visible_def)
  qed
qed

lemma layers_merge:
  assumes "newer_first ls" "\<forall>es\<in>set ls. key_sorted es"
  shows "\<exists>es. key_sorted es \<and> mset es = mset (concat ls)"
proof -
  let ?r = "\<lambda>e. ikey_rank (fst e)"
  have "distinct (map ?r (concat ls))" using assms
  proof (induction ls)
    case (Cons es ls)
    have d: "distinct (map ?r es)" using Cons.prems(2) by (induction es) auto
    have "?r x \<noteq> ?r y" if "x \<in> set es" "y \<in> set (concat ls)" for x y
    proof
      assume r: "?r x = ?r y"
      then have u: "UserKey (fst x) = UserKey (fst y)" by (simp add: ikey_rank_def)
      then have "seq_of y < seq_of x" using Cons.prems(1) that by (auto simp: newer_first_def)
      then show False using rank_le_seq [OF u] r by simp
    qed
    then have "?r ` set es \<inter> ?r ` set (concat ls) = {}" by blast
    then show ?case using Cons d by (simp add: newer_first_def)
  qed simp
  then have "sorted_wrt (<) (map ?r (sort_key ?r (concat ls)))"
    by (simp add: strict_sorted_iff distinct_map)
  then show ?thesis by (intro exI [of _ "sort_key ?r (concat ls)"]) (simp add: key_sorted_def sorted_wrt_map)
qed

lemma newest_visible_append:
  "newest_visible uk seq (es @ fs) = (case newest_visible uk seq es of None \<Rightarrow> newest_visible uk seq fs | Some x \<Rightarrow> Some x)"
  by (simp add: newest_visible_def split: list.splits)
section \<open>What a read state holds\<close>

definition table_holds :: "tableHandle \<Rightarrow> entry list \<Rightarrow> bool" where
  "table_holds h es \<longleftrightarrow> th_open h \<and> (\<exists>ri blks. tbl_reader ri blks (th_r h) \<and> concat blks = es)
     \<and> (\<forall>e\<in>set es. wf_key (fst e) \<and> th_smallest h \<le> UserKey (fst e) \<and> UserKey (fst e) \<le> th_largest h)"

text \<open>The tables of a level below the first are sorted by user key and disjoint.\<close>

definition level_disjoint :: "tableHandle list \<Rightarrow> bool" where
  "level_disjoint hs \<longleftrightarrow> sorted_wrt (\<lambda>f g. th_largest f < th_smallest g) hs \<and> (\<forall>h\<in>set hs. th_smallest h \<le> th_largest h)"

definition rs_handles :: "readState \<Rightarrow> DB \<Rightarrow> tableHandle list list" where
  "rs_handles rs db = map (map ((!) (db_handles db))) (rs_levels rs)"

text \<open>The entries of the memtables and, level by level, of the tables.\<close>

definition view :: "DB \<Rightarrow> readState \<Rightarrow> entry list \<Rightarrow> entry list option \<Rightarrow> entry list list list \<Rightarrow> bool" where
  "view db rs me im tss \<longleftrightarrow> holds (db_mems db ! rs_mem rs) me
     \<and> (case (rs_imm rs, im) of (None, None) \<Rightarrow> True | (Some i, Some ie) \<Rightarrow> holds (db_mems db ! i) ie | _ \<Rightarrow> False)
     \<and> tss \<noteq> [] \<and> list_all2 (list_all2 table_holds) (rs_handles rs db) tss
     \<and> (\<forall>hs\<in>set (drop 1 (rs_handles rs db)). level_disjoint hs)"

definition layers :: "entry list \<Rightarrow> entry list option \<Rightarrow> entry list list list \<Rightarrow> entry list list" where
  "layers me im tss = me # (case im of None \<Rightarrow> [] | Some ie \<Rightarrow> [ie]) @ hd tss @ map concat (tl tss)"

section \<open>Point reads\<close>

abbreviation answer :: "(bytes \<times> nat) option \<Rightarrow> (db_error + bytes) option" where
  "answer r \<equiv> map_option (\<lambda>(v, kind). finish v kind) r"

lemma get_mem_holds: "holds m es \<Longrightarrow> seq \<le> MaxSeq \<Longrightarrow> get_mem key seq m = Some (answer (newest_visible key seq es))"
  by (simp add: get_mem_def Memtable_Get_holds)

lemma get_table_holds: "table_holds h es \<Longrightarrow> seq \<le> MaxSeq \<Longrightarrow> get_table key seq h = Some (answer (newest_visible key seq es))"
  using Reader_Get_newest by (fastforce simp: table_holds_def get_table_def th_reader_def)

lemma get_L0_holds:
  "list_all2 table_holds hs ess \<Longrightarrow> seq \<le> MaxSeq \<Longrightarrow> get_L0 key seq hs = Some (answer (newest_visible key seq (concat ess)))"
proof (induction rule: list_all2_induct)
  case (Cons h hs es ess)
  then show ?case by (simp add: get_table_holds newest_visible_append split: option.splits)
qed (simp add: newest_visible_def)

lemma newest_visible_None: "\<forall>e\<in>set es. UserKey (fst e) \<noteq> key \<Longrightarrow> newest_visible key seq es = None"
  by (induction es) (auto simp: newest_visible_def visible_def)

lemma newest_visible_concat_None: "(\<And>es. es \<in> set ess \<Longrightarrow> newest_visible key seq es = None) \<Longrightarrow> newest_visible key seq (concat ess) = None"
  by (induction ess) (simp_all add: newest_visible_append, simp add: newest_visible_def)

lemma newest_visible_only:
  assumes "i < length ess" "\<And>j. j < length ess \<Longrightarrow> j \<noteq> i \<Longrightarrow> newest_visible key seq (ess ! j) = None"
  shows "newest_visible key seq (concat ess) = newest_visible key seq (ess ! i)"
  using assms
proof (induction ess arbitrary: i)
  case (Cons es ess)
  show ?case
  proof (cases i)
    case 0
    have "newest_visible key seq (concat ess) = None"
      by (rule newest_visible_concat_None) (use Cons.prems(2) [of "Suc j" for j] 0 in \<open>auto simp: in_set_conv_nth\<close>)
    then show ?thesis using 0 by (simp add: newest_visible_append split: option.splits)
  next
    case (Suc k)
    then show ?thesis using Cons.IH [of k] Cons.prems(1) Cons.prems(2) [of 0] Cons.prems(2) [of "Suc j" for j] by (simp add: newest_visible_append)
  qed
qed simp

lemma get_level_holds:
  assumes "list_all2 table_holds hs ess" "level_disjoint hs" "seq \<le> MaxSeq"
  shows "get_level key seq hs = Some (answer (newest_visible key seq (concat ess)))"
proof -
  let ?f = "\<lambda>i. bytes_compare (th_largest (hs ! i)) key \<ge> 0"
  define i where "i = sort_search (length hs) ?f"
  have lt: "th_largest (hs ! j) < th_smallest (hs ! k)" if "j < k" "k < length hs" for j k
    using assms(2) sorted_wrt_nth_less that by (fastforce simp: level_disjoint_def)
  have le: "th_smallest (hs ! k) \<le> th_largest (hs ! k)" if "k < length hs" for k using assms(2) that by (simp add: level_disjoint_def)
  have mono: "?f k'" if "k \<le> k'" "k' < length hs" "?f k" for k k'
    using that lt [of k k'] le [of k'] by (cases "k = k'") auto
  have "i \<le> length hs" "\<And>k. k < i \<Longrightarrow> \<not> ?f k" "\<And>k. i \<le> k \<Longrightarrow> k < length hs \<Longrightarrow> ?f k"
    unfolding i_def using sort_search_spec [of "length hs" ?f] mono by blast+
  then have sp: "i \<le> length hs" "\<And>k. k < i \<Longrightarrow> th_largest (hs ! k) < key" "\<And>k. i \<le> k \<Longrightarrow> k < length hs \<Longrightarrow> key \<le> th_largest (hs ! k)"
    by (auto simp: not_le)
  have gl: "get_level key seq hs = (if i = length hs \<or> key < th_smallest (hs ! i) then Some None else get_table key seq (hs ! i))"
    unfolding get_level_def Let_def i_def [symmetric] by simp
  have len: "length ess = length hs" using assms(1) by (simp add: list_all2_lengthD)
  have th: "table_holds (hs ! j) (ess ! j)" if "j < length hs" for j using assms(1) that by (simp add: list_all2_nthD)
  have out: "newest_visible key seq (ess ! j) = None" if "j < length hs" "key < th_smallest (hs ! j) \<or> th_largest (hs ! j) < key" for j
    by (rule newest_visible_None) (use th [OF that(1)] that(2) in \<open>auto simp: table_holds_def\<close>)
  have below: "newest_visible key seq (ess ! j) = None" if "j < i" for j using out [of j] sp(1) sp(2) [OF that] that by auto
  show ?thesis
  proof (cases "i < length hs")
    case False
    then have "newest_visible key seq (concat ess) = None"
      using below len by (intro newest_visible_concat_None) (auto simp: in_set_conv_nth)
    then show ?thesis using False sp(1) by (simp add: gl)
  next
    case True
    have above: "newest_visible key seq (ess ! j) = None" if "i < j" "j < length hs" for j
      using out [OF that(2)] le_less_trans [OF sp(3) [OF order_refl True] lt [OF that]] by blast
    have "newest_visible key seq (concat ess) = newest_visible key seq (ess ! i)"
      by (rule newest_visible_only) (use True len below above in \<open>metis linorder_neqE_nat\<close>)+
    then show ?thesis using True get_table_holds [OF th [OF True] assms(3)] out [OF True] by (auto simp: gl)
  qed
qed
lemma get_levels_holds:
  "list_all2 (list_all2 table_holds) hss tss \<Longrightarrow> \<forall>hs\<in>set hss. level_disjoint hs \<Longrightarrow> seq \<le> MaxSeq \<Longrightarrow>
   get_levels key seq hss = Some (case answer (newest_visible key seq (concat (map concat tss))) of None \<Rightarrow> Inl ErrNotFound | Some x \<Rightarrow> x)"
proof (induction rule: list_all2_induct)
  case (Cons hs hss ts tss)
  then show ?case by (simp add: get_level_holds newest_visible_append split: option.splits)
qed (simp add: newest_visible_def)

abbreviation lookup_answer :: "bytes option \<Rightarrow> db_error + bytes" where
  "lookup_answer r \<equiv> (case r of None \<Rightarrow> Inl ErrNotFound | Some v \<Rightarrow> Inr v)"

lemma answer_live: "(case answer (newest_visible key seq es) of None \<Rightarrow> Inl ErrNotFound | Some x \<Rightarrow> x) = lookup_answer (live seq es key)"
  by (simp add: live_def finish_def split: option.splits prod.splits)

lemma get_rs_live:
  assumes "view db rs me im tss" "seq \<le> MaxSeq"
  shows "get_rs key seq rs db = Some (lookup_answer (live seq (concat (layers me im tss)) key))"
proof -
  obtain ts tss' where tss: "tss = ts # tss'" using assms(1) by (cases tss) (auto simp: view_def)
  then obtain hs hss where h: "rs_handles rs db = hs # hss" "list_all2 table_holds hs ts" "list_all2 (list_all2 table_holds) hss tss'" "\<forall>hs\<in>set hss. level_disjoint hs"
    using assms(1) by (auto simp: view_def list_all2_Cons2)
  then have l: "map ((!) (db_handles db)) (rs_levels rs ! 0) = hs" "map (map ((!) (db_handles db))) (drop 1 (rs_levels rs)) = hss"
    by (auto simp: rs_handles_def)
  have m: "get_mem key seq (db_mems db ! rs_mem rs) = Some (answer (newest_visible key seq me))"
    using assms get_mem_holds by (simp add: view_def)
  have i: "(case rs_imm rs of None \<Rightarrow> Some None | Some i \<Rightarrow> get_mem key seq (db_mems db ! i))
    = Some (answer (newest_visible key seq (case im of None \<Rightarrow> [] | Some ie \<Rightarrow> ie)))"
    using assms get_mem_holds by (auto simp: view_def newest_visible_def split: option.splits)
  have n: "newest_visible key seq (concat (layers me im tss)) = newest_visible key seq (me @ (case im of None \<Rightarrow> [] | Some ie \<Rightarrow> ie) @ concat ts @ concat (map concat tss'))"
    by (cases im) (simp_all add: layers_def tss)
  show ?thesis
    unfolding get_rs_def l m i get_L0_holds [OF h(2) assms(2)] get_levels_holds [OF h(3,4) assms(2)] answer_live [symmetric] n newest_visible_append
    by (simp split: option.splits)
qed
section \<open>Scans\<close>

lemma table_holds_sorted: "table_holds h es \<Longrightarrow> key_sorted es"
  by (auto simp: table_holds_def tbl_reader_def)

lemma level_sorted_concat:
  "list_all2 table_holds hs ess \<Longrightarrow> level_disjoint hs \<Longrightarrow> key_sorted (concat ess)"
proof (induction rule: list_all2_induct)
  case (Cons h hs es ess)
  have "ikey_rank (fst x) < ikey_rank (fst y)" if xy: "x \<in> set es" "y \<in> set (concat ess)" for x y
  proof -
    obtain j where j: "j < length ess" "y \<in> set (ess ! j)" using xy(2) by (metis UN_E in_set_conv_nth set_concat)
    then have "table_holds (hs ! j) (ess ! j)" "hs ! j \<in> set hs" using Cons.hyps(2) by (auto simp: list_all2_conv_all_nth)
    then have "UserKey (fst x) < UserKey (fst y)"
      using Cons.hyps(1) Cons.prems xy(1) j(2) by (fastforce simp: table_holds_def level_disjoint_def)
    then show ?thesis by (simp add: ikey_rank_def less_prod_def)
  qed
  then show ?case using Cons table_holds_sorted by (auto simp: key_sorted_append level_disjoint_def)
qed simp

lemma view_layers_sorted: "view db rs me im tss \<Longrightarrow> \<forall>es\<in>set (layers me im tss). key_sorted es"
proof -
  assume v: "view db rs me im tss"
  obtain ts tss' where tss: "tss = ts # tss'" using v by (cases tss) (auto simp: view_def)
  then obtain hs hss where h: "rs_handles rs db = hs # hss" "list_all2 table_holds hs ts" "list_all2 (list_all2 table_holds) hss tss'" "\<forall>hs\<in>set hss. level_disjoint hs"
    using v by (auto simp: view_def list_all2_Cons2)
  have "\<forall>es\<in>set ts. key_sorted es" using h(2) table_holds_sorted by (metis in_set_conv_nth list_all2_conv_all_nth)
  moreover have "\<forall>es\<in>set (map concat tss'). key_sorted es" using h(3,4) level_sorted_concat by (induction rule: list_all2_induct) auto
  moreover have "key_sorted me" "\<forall>ie. im = Some ie \<longrightarrow> key_sorted ie"
    using v holds_sorted by (auto simp: view_def key_sorted_def split: option.splits)
  ultimately show ?thesis by (auto simp: layers_def tss split: option.splits)
qed

text \<open>The sources a scan gathers, in the order of the children, hold the entries of the layers.\<close>

lemma rs_children_over:
  assumes "view db rs me im tss"
  shows "list_all2 (\<lambda>c es. child_over c es []) (rs_children rs db) (me # (case im of None \<Rightarrow> [] | Some ie \<Rightarrow> [ie]) @ concat tss)"
proof -
  have t: "child_over (TableIter (sst_NewIterator (th_reader h))) es []" if "table_holds h es" for h es
    using that sst_over_new by (auto simp: table_holds_def th_reader_def)
  have tt: "list_all2 (\<lambda>h es. child_over (TableIter (sst_NewIterator (th_reader h))) es []) (concat hss) (concat tss)"
    if "list_all2 (list_all2 table_holds) hss tss" for hss tss
    using that
  proof (induction rule: list_all2_induct)
    case (Cons hs hss ts tss)
    then show ?case unfolding concat.simps by (blast intro: list_all2_appendI list_all2_mono t)
  qed simp
  have "map (\<lambda>h. TableIter (sst_NewIterator (th_reader (db_handles db ! h)))) (concat (rs_levels rs)) = map (\<lambda>h. TableIter (sst_NewIterator (th_reader h))) (concat (rs_handles rs db))"
    by (simp add: rs_handles_def map_concat comp_def)
  then have "list_all2 (\<lambda>c es. child_over c es []) (map (\<lambda>h. TableIter (sst_NewIterator (th_reader (db_handles db ! h)))) (concat (rs_levels rs))) (concat tss)"
    using tt assms by (simp add: view_def list_all2_map1)
  moreover have "mem_over (mem_NewIterator (db_mems db ! rs_mem rs)) me []" using assms mem_over_new by (simp add: view_def)
  moreover have "list_all2 (\<lambda>c es. child_over c es []) (case rs_imm rs of None \<Rightarrow> [] | Some i \<Rightarrow> [MemIter (mem_NewIterator (db_mems db ! i))]) (case im of None \<Rightarrow> [] | Some ie \<Rightarrow> [ie])"
    using assms mem_over_new by (auto simp: view_def split: option.splits)
  ultimately show ?thesis unfolding rs_children_def by (auto intro: list_all2_appendI)
qed

lemma list_all2_set2: "list_all2 P xs ys \<Longrightarrow> y \<in> set ys \<Longrightarrow> \<exists>x. P x y"
  by (induction rule: list_all2_induct) auto

lemma view_wf:
  assumes v: "view db rs me im tss" and e: "e \<in> set (concat (layers me im tss))"
  shows "wf_key (fst e)"
proof -
  have t: "wf_key (fst e)" if "ts \<in> set tss" "es \<in> set ts" "e \<in> set es" for ts es
  proof -
    have "list_all2 (list_all2 table_holds) (rs_handles rs db) tss" using v by (simp add: view_def)
    from list_all2_set2 [OF this that(1)] have "\<exists>hs. list_all2 table_holds hs ts" .
    then have "\<exists>h. table_holds h es" using list_all2_set2 [OF _ that(2)] by metis
    then show ?thesis using that(3) by (auto simp: table_holds_def)
  qed
  have "tss \<noteq> []" using v by (simp add: view_def)
  then consider "e \<in> set me" | ie where "im = Some ie" "e \<in> set ie" | ts es where "ts \<in> set tss" "es \<in> set ts" "e \<in> set es"
    using e by (cases tss; cases im) (auto simp: layers_def)
  then show ?thesis
  proof cases
    case 1
    then show ?thesis using v by (simp add: view_def holds_def)
  next
    case (2 ie)
    then show ?thesis using v by (cases "rs_imm rs") (auto simp: view_def holds_def)
  qed (rule t)
qed

lemma concat_concat: "concat (map concat xsss) = concat (concat xsss)"
  by (induction xsss) auto

lemma mset_layers: "tss \<noteq> [] \<Longrightarrow> mset (concat (me # (case im of None \<Rightarrow> [] | Some ie \<Rightarrow> [ie]) @ concat tss)) = mset (concat (layers me im tss))"
  by (cases tss) (auto simp: layers_def concat_concat split: option.splits)

lemma scan_live:
  assumes "view db rs me im tss" "newer_first (layers me im tss)" "seq \<le> MaxSeq"
  shows "\<exists>it kvs it'. scan_start db_merging start hi incl seq (newMergingIter (rs_children rs db)) = Some it
    \<and> it_collect db_merging (Suc (length (concat (layers me im tss)))) it = Some (kvs, it') \<and> \<not> it_Valid it' \<and> it_err it' = None
    \<and> sorted_wrt (<) (map fst kvs)
    \<and> set kvs = {(uk, v). live seq (concat (layers me im tss)) uk = Some v \<and> in_scan hi incl uk \<and> (\<forall>s. start = Some s \<longrightarrow> s \<le> uk)}"
proof -
  let ?ls = "layers me im tss"
  obtain es where es: "key_sorted es" "mset es = mset (concat ?ls)" using layers_merge [OF assms(2) view_layers_sorted [OF assms(1)]] by blast
  have eq: "set es = set (concat ?ls)" "length es = length (concat ?ls)" using es(2) by (metis mset_eq_setD) (metis es(2) size_mset)
  have wf: "\<forall>e\<in>set es. wf_key (fst e)" using view_wf [OF assms(1)] eq(1) by blast
  note c = rs_children_over [OF assms(1)]
  have ms: "mset es = mset (concat (me # (case im of None \<Rightarrow> [] | Some ie \<Rightarrow> [ie]) @ concat tss))"
    using es(2) mset_layers assms(1) by (simp add: view_def)
  have "merge_over child_over (newMergingIter (rs_children rs db) :: db_merge) es []"
    by (rule child.merge_new [OF _ _ es(1) ms]) (use c in \<open>auto simp: list_all2_conv_all_nth\<close>)
  from child.mrg.scan_over [OF this wf assms(3), of start hi incl]
  have "\<exists>it kvs it'. scan_start db_merging start hi incl seq (newMergingIter (rs_children rs db)) = Some it
    \<and> it_collect db_merging (Suc (length es)) it = Some (kvs, it') \<and> \<not> it_Valid it' \<and> it_err it' = None \<and> sorted_wrt (<) (map fst kvs)
    \<and> set kvs = {(uk, v). live seq es uk = Some v \<and> in_scan hi incl uk \<and> (\<forall>s. start = Some s \<longrightarrow> s \<le> uk)}" .
  moreover have "live seq es uk = live seq (concat ?ls) uk" for uk
    using newest_visible_layers [OF assms(2) view_layers_sorted [OF assms(1)] es] by (simp add: live_def)
  ultimately show ?thesis unfolding eq(2) by simp
qed
section \<open>The engine's map\<close>

text \<open>The value of every user key in the current read state at the published sequence number.\<close>

definition current_view :: "DB \<Rightarrow> entry list \<Rightarrow> entry list option \<Rightarrow> entry list list list \<Rightarrow> bool" where
  "current_view db me im tss \<longleftrightarrow> \<not> db_closed db \<and> db_rs db < length (db_states db) \<and> 0 < rs_refs (db_states db ! db_rs db)
     \<and> view db (db_states db ! db_rs db) me im tss \<and> newer_first (layers me im tss) \<and> db_seq db \<le> MaxSeq"

lemma view_cong:
  "db_mems db' = db_mems db \<Longrightarrow> db_handles db' = db_handles db \<Longrightarrow> rs_mem rs' = rs_mem rs \<Longrightarrow> rs_imm rs' = rs_imm rs \<Longrightarrow> rs_levels rs' = rs_levels rs
    \<Longrightarrow> view db' rs' me im tss \<longleftrightarrow> view db rs me im tss"
  by (simp add: view_def rs_handles_def split: option.splits)

definition pin :: "nat \<Rightarrow> int \<Rightarrow> DB \<Rightarrow> DB" where
  "pin a k db = db\<lparr>db_states := (db_states db)[a := (db_states db ! a)\<lparr>rs_refs := rs_refs (db_states db ! a) + k\<rparr>]\<rparr>"

lemma acquire_eq: "\<not> db_closed db \<Longrightarrow> acquire db = Inr (db_rs db, db_seq db, pin (db_rs db) 1 db)"
  by (simp add: acquire_def pin_def Let_def)

lemma release_pin: "a < length (db_states db) \<Longrightarrow> 0 < rs_refs (db_states db ! a) \<Longrightarrow> release a (pin a 1 db) = Some db"
  by (simp add: release_def pin_def Let_def)

lemma view_pin: "a < length (db_states db) \<Longrightarrow> view (pin a k db) (db_states (pin a k db) ! a) me im tss \<longleftrightarrow> view db (db_states db ! a) me im tss"
  by (rule view_cong) (simp_all add: pin_def)

lemma db_get_live:
  assumes "current_view db me im tss"
  shows "db_get key db = Some (lookup_answer (live (db_seq db) (concat (layers me im tss)) key), db)"
proof -
  let ?a = "db_rs db"
  note c = assms [unfolded current_view_def]
  have "view (pin ?a 1 db) (db_states (pin ?a 1 db) ! ?a) me im tss" using view_pin c by blast
  from get_rs_live [OF this] show ?thesis using c acquire_eq [of db] release_pin [of ?a db] by (simp add: db_get_def)
qed

lemma db_scan_live:
  assumes "current_view db me im tss"
  shows "\<exists>it kvs it'. db_scan start hi incl db = Some (Some (db_rs db), it, pin (db_rs db) 1 db)
    \<and> it_collect db_merging (Suc (length (concat (layers me im tss)))) it = Some (kvs, it') \<and> \<not> it_Valid it' \<and> it_err it' = None
    \<and> sorted_wrt (<) (map fst kvs)
    \<and> set kvs = {(uk, v). live (db_seq db) (concat (layers me im tss)) uk = Some v \<and> in_scan hi incl uk \<and> (\<forall>s. start = Some s \<longrightarrow> s \<le> uk)}"
proof -
  let ?a = "db_rs db"
  note c = assms [unfolded current_view_def]
  have "view (pin ?a 1 db) (db_states (pin ?a 1 db) ! ?a) me im tss" using view_pin c by blast
  from scan_live [OF this, of "db_seq db" start hi incl] show ?thesis using c acquire_eq [of db] by (auto simp: db_scan_def)
qed

lemma scan_Close: "current_view db me im tss \<Longrightarrow> \<not> it_closed it \<Longrightarrow> \<exists>it'. it_Close (Some (db_rs db)) it (pin (db_rs db) 1 db) = Some (it', db)"
  using release_pin [of "db_rs db" db] by (auto simp: it_Close_def current_view_def)

lemma db_reads:
  assumes "current_view db me im tss" "M = live (db_seq db) (concat (layers me im tss))"
  shows "db_get key db = Some (lookup_answer (M key), db) \<and>
    (\<exists>it kvs it'. db_scan start hi incl db = Some (Some (db_rs db), it, pin (db_rs db) 1 db)
      \<and> it_collect db_merging (Suc (length (concat (layers me im tss)))) it = Some (kvs, it') \<and> \<not> it_Valid it' \<and> it_err it' = None
      \<and> sorted_wrt (<) (map fst kvs) \<and> (\<forall>uk v. (uk, v) \<in> set kvs \<longleftrightarrow> M uk = Some v \<and> in_scan hi incl uk \<and> (\<forall>s. start = Some s \<longrightarrow> s \<le> uk)))"
  using db_get_live [OF assms(1), of key] db_scan_live [OF assms(1), of start hi incl] unfolding assms(2) by fastforce

text \<open>
  C36. Point reads and scans return one and the same map.  In a read state whose newer layers hold newer versions, a get
  returns the newest visible value of its key, or that there is none, and leaves the engine as it was; a scan yields, in ascending order and without an error, exactly the
  live pairs of that map inside its bounds, reserved keys only when it asks for them, and pins the read state once.
\<close>

theorem get_and_scan_agree:
  assumes "current_view db me im tss" "M = live (db_seq db) (concat (layers me im tss))"
  shows "db_get key db = Some (lookup_answer (M key), db) \<and>
    (\<exists>it kvs it'. db_scan start hi incl db = Some (Some (db_rs db), it, pin (db_rs db) 1 db)
      \<and> it_collect db_merging (Suc (length (concat (layers me im tss)))) it = Some (kvs, it') \<and> \<not> it_Valid it' \<and> it_err it' = None
      \<and> sorted_wrt (<) (map fst kvs) \<and> (\<forall>uk v. (uk, v) \<in> set kvs \<longleftrightarrow> M uk = Some v \<and> in_scan hi incl uk \<and> (\<forall>s. start = Some s \<longrightarrow> s \<le> uk)))"
  by (rule db_reads [OF assms])

section \<open>An example\<close>

definition sample_db :: "MemTable \<Rightarrow> Reader \<Rightarrow> DB" where
  "sample_db m r = \<lparr>db_opts = defaults \<lparr>MemTableSize = 0, L0CompactThreshold = 0, L0StopThreshold = 0, LevelBytesBase = 0, TargetFileSize = 0,
       DisableWALSync = False, DisableWAL = True, DisableCompaction = False\<rparr>,
     db_vs = fresh_set 0, db_wal = None, db_seq = 4, db_metrics = \<lparr>m_Flushes = 0, m_Compactions = 0, m_FlushBytes = 0, m_CompactionBytes = 0\<rparr>, db_mems = [m],
     db_handles = [\<lparr>th_num = 5, th_smallest = [97], th_largest = [98], th_r = r, th_refs = 2, th_open = True\<rparr>],
     db_states = [\<lparr>rs_mem = 0, rs_imm = None, rs_levels = [[], [0], [], [], [], [], []], rs_refs = 1\<rparr>], db_rs = 0, db_tables = [(5, 0)],
     db_pending = [], db_compactPtr = replicate NumLevels None, db_immSeq = 0, db_immBound = 0, db_bgErr = None, db_flushers = 0,
     db_compacting = False, db_closing = False, db_closed = False\<rparr>"

abbreviation sample_mem :: "entry list" where "sample_mem \<equiv> [(enc_ikey [98] 4 KindPut, [4])]"

lemma seq_of_enc: "s \<le> MaxSeq \<Longrightarrow> k \<le> maxKind \<Longrightarrow> seq_of (enc_ikey uk s k, v) = s \<and> kind_of (enc_ikey uk s k, v) = k"
  by (simp add: trailer_enc maxKind_def KindPut_def)

lemma sample_view: "\<exists>m r. current_view (sample_db m r) sample_mem None [[], [sst_example], [], [], [], [], []]"
proof -
  have four: "4 \<le> MaxSeq" by (simp add: MaxSeq_def)
  obtain m where m: "holds m sample_mem" using Add_holds [OF holds_new four sst_small(4), of "[98]" "[]" "[4]"] by (auto simp: ins_kv_def)
  obtain p w where w: "write_table SstWriter.no_faults default_options sst_example = Some (Inr p, w)" "length (sw_out w) < 2 ^ 31"
    using sst_example_written by blast
  obtain r ri blks where r: "tbl_reader ri blks r" "concat blks = sst_example" using open_written [OF w serves_file_src] by blast
  have u: "UserKey (enc_ikey [97] 3 KindPut) = [97]" "UserKey (enc_ikey [97] 1 KindPut) = [97]" "UserKey (enc_ikey [98] 2 KindDelete) = [98]" "UserKey (enc_ikey [98] 4 KindPut) = [98]"
    by (rule UserKey_enc)+
  have s: "seq_of (enc_ikey [98] 2 KindDelete, []) = 2" "seq_of (enc_ikey [98] 4 KindPut, [4]) = 4"
    using seq_of_enc [OF sst_small(2,5)] seq_of_enc [OF four sst_small(4)] by blast+
  have "table_holds (db_handles (sample_db m r) ! 0) sst_example"
    using r sst_example_ok(2) u by (auto simp: table_holds_def sample_db_def)
  then have "view (sample_db m r) (db_states (sample_db m r) ! 0) sample_mem None [[], [sst_example], [], [], [], [], []]"
    using m by (simp add: view_def rs_handles_def level_disjoint_def sample_db_def)
  moreover have "newer_first (layers sample_mem None [[], [sst_example], [], [], [], [], []])"
    using u s by (simp add: layers_def newer_first_def)
  ultimately show ?thesis using four by (intro exI [of _ m] exI [of _ r]) (simp add: current_view_def, simp add: sample_db_def)
qed

lemma sample_live: "live 4 (concat (layers sample_mem None [[], [sst_example], [], [], [], [], []])) = [[97] \<mapsto> [3], [98] \<mapsto> [4]]"
proof
  fix uk
  have four: "4 \<le> MaxSeq" by (simp add: MaxSeq_def)
  have v: "visible uk 4 (enc_ikey [97] 3 KindPut, [3]) \<longleftrightarrow> uk = [97]" "visible uk 4 (enc_ikey [97] 1 KindPut, [1]) \<longleftrightarrow> uk = [97]"
    "visible uk 4 (enc_ikey [98] 2 KindDelete, []) \<longleftrightarrow> uk = [98]" "visible uk 4 (enc_ikey [98] 4 KindPut, [4]) \<longleftrightarrow> uk = [98]"
    unfolding visible_def fst_conv UserKey_enc trailer_enc [OF sst_small(3,4)] trailer_enc [OF sst_small(1,4)] trailer_enc [OF sst_small(2,5)] trailer_enc [OF four sst_small(4)]
    by (auto simp: KindPut_def KindDelete_def)
  have k: "kind_of (enc_ikey [97] 3 KindPut, [3]) = KindPut" "kind_of (enc_ikey [98] 4 KindPut, [4]) = KindPut"
    using seq_of_enc [OF sst_small(3,4)] seq_of_enc [OF four sst_small(4)] by blast+
  show "live 4 (concat (layers sample_mem None [[], [sst_example], [], [], [], [], []])) uk = [[97] \<mapsto> [3], [98] \<mapsto> [4]] uk"
    using v k by (auto simp: layers_def live_def newest_visible_def KindPut_def KindDelete_def)
qed

theorem get_and_scan_agree_witness:
  "\<exists>db it kvs it'. db_get [97] db = Some (Inr [3], db) \<and> db_scan (Some [98]) None False db = Some (Some 0, it, pin 0 1 db)
    \<and> it_collect db_merging 5 it = Some (kvs, it') \<and> set kvs = {([98], [4])}"
proof -
  obtain m r where c: "current_view (sample_db m r) sample_mem None [[], [sst_example], [], [], [], [], []]" using sample_view by blast
  have s: "db_seq (sample_db m r) = 4" "db_rs (sample_db m r) = 0" by (simp_all add: sample_db_def)
  note t = get_and_scan_agree [OF c refl, of "[97]" "Some [98]" None False, unfolded s sample_live]
  obtain it kvs it' where k: "db_scan (Some [98]) None False (sample_db m r) = Some (Some 0, it, pin 0 1 (sample_db m r))"
    "it_collect db_merging (Suc (length (concat (layers sample_mem None [[], [sst_example], [], [], [], [], []])))) it = Some (kvs, it')"
    "\<And>uk v. (uk, v) \<in> set kvs \<longleftrightarrow> [[97] \<mapsto> [3], [98] \<mapsto> [4]] uk = Some v \<and> in_scan None False uk \<and> (\<forall>s. Some [98] = Some s \<longrightarrow> s \<le> uk)"
    using t by blast
  have "set kvs = {([98], [4])}" using k(3) by (auto simp: in_scan_def past_end_def reservedPrefix_def split: if_splits)
  moreover have "Suc (length (concat (layers sample_mem None [[], [sst_example], [], [], [], [], []]))) = 5" by (simp add: layers_def)
  moreover have "db_get [97] (sample_db m r) = Some (Inr [3], sample_db m r)" using t by simp
  ultimately show ?thesis using k(1,2) by metis
qed

end
