(* ===== verification/DbPick.thy ===== *)
theory DbPick
  imports DbRead "HOL-Library.Log_Nat"
begin

text \<open>
  Choosing a compaction, the first half of \<^verbatim>\<open>src/compaction.go\<close>: the score of every level, the inputs, their overlaps in the
  next level, and the files below that a tombstone must not resurrect.  Scores are the program's 64-bit floating-point quotients: conversions and the division
  round to 53 significant bits, half to even; sizes and budgets stay far from subnormal and overflowing values.
\<close>

section \<open>Scores\<close>

definition round_even :: "rat \<Rightarrow> int" where
  "round_even x =
     (let n = \<lfloor>x\<rfloor>; r = x - of_int n
      in if r < 1 / 2 \<or> r = 1 / 2 \<and> even n then n else n + 1)"

definition pow2 :: "int \<Rightarrow> rat" where
  "pow2 e = (if e \<ge> 0 then 2 ^ nat e else 1 / 2 ^ nat (- e))"

definition f64_pos :: "rat \<Rightarrow> rat" where
  "f64_pos x =
     (let (n, d) = quotient_of x;
          e = int (floorlog 2 (nat n)) - int (floorlog 2 (nat d)) - 53;
          e = (if x / pow2 e \<ge> 2 ^ 53 then e + 1 else e)
      in of_int (round_even (x / pow2 e)) * pow2 e)"

definition f64 :: "rat \<Rightarrow> rat" where
  "f64 x = (if x = 0 then 0 else if x > 0 then f64_pos x else - f64_pos (- x))"

datatype float64 = Fin rat | Infinite bool | NaN

definition f64_div :: "rat \<Rightarrow> rat \<Rightarrow> float64" where
  "f64_div a b = (if b = 0 then (if a = 0 then NaN else Infinite (a > 0)) else Fin (f64 (a / b)))"

fun f64_ge :: "float64 \<Rightarrow> float64 \<Rightarrow> bool" where
  "f64_ge (Fin a) (Fin b) = (a \<ge> b)"
| "f64_ge (Infinite p) (Infinite q) = (p \<or> \<not> q)"
| "f64_ge (Infinite p) (Fin b) = p"
| "f64_ge (Fin a) (Infinite p) = (\<not> p)"
| "f64_ge _ _ = False"

definition wrap_i64 :: "int \<Rightarrow> int" where
  "wrap_i64 x = (x + 2 ^ 63) mod 2 ^ 64 - 2 ^ 63"

text \<open>The budget of a level: a loop of wrapping multiplications.\<close>

fun times10 :: "nat \<Rightarrow> int \<Rightarrow> int" where
  "times10 0 x = x"
| "times10 (Suc n) x = times10 n (wrap_i64 (x * 10))"

definition maxBytes :: "db_Options \<Rightarrow> nat \<Rightarrow> int" where
  "maxBytes opts level = times10 (level - 1) (LevelBytesBase opts)"

definition level_bytes :: "FileMeta list \<Rightarrow> nat" where
  "level_bytes fs = fold (\<lambda>m total. (total + fm_Size m) mod 2 ^ 64) fs 0"

definition level_score :: "db_Options \<Rightarrow> Version \<Rightarrow> nat \<Rightarrow> float64" where
  "level_score opts v lvl =
     (if lvl = 0 then f64_div (f64 (of_nat (length (v ! 0)))) (f64 (of_int (L0CompactThreshold opts)))
      else f64_div (f64 (of_nat (level_bytes (v ! lvl)))) (f64 (of_int (maxBytes opts lvl))))"

fun best_level :: "db_Options \<Rightarrow> Version \<Rightarrow> nat list \<Rightarrow> nat option \<Rightarrow> float64 \<Rightarrow> nat option" where
  "best_level opts v [] best score = best"
| "best_level opts v (l # ls) best score =
     (let s = level_score opts v l
      in if f64_ge s score then best_level opts v ls (Some l) s else best_level opts v ls best score)"

section \<open>Inputs\<close>

record compaction =
  c_level :: nat
  c_output :: nat
  c_inputs :: "nat list"
  c_inMeta :: "FileMeta list"
  c_below :: "FileMeta list list"

text \<open>\<^verbatim>\<open>base.UserKey\<close> slices the trailer off and panics on a key shorter than it.\<close>

definition user_key :: "bytes \<Rightarrow> bytes option" where
  "user_key k = (if valid_ikey k then Some (UserKey k) else None)"

fun userKeyRange :: "FileMeta list \<Rightarrow> bytes option \<times> bytes option \<Rightarrow> (bytes option \<times> bytes option) option" where
  "userKeyRange [] r = Some r"
| "userKeyRange (m # ms) (lo, hi) =
     do {
       s \<leftarrow> user_key (fm_Smallest m);
       l \<leftarrow> user_key (fm_Largest m);
       let lo = (case lo of None \<Rightarrow> Some s | Some x \<Rightarrow> if bytes_compare s x < 0 then Some s else Some x);
       let hi = (case hi of None \<Rightarrow> Some l | Some x \<Rightarrow> if bytes_compare l x > 0 then Some l else Some x);
       userKeyRange ms (lo, hi)
     }"

fun overlapping :: "FileMeta list \<Rightarrow> bytes \<Rightarrow> bytes \<Rightarrow> FileMeta list option" where
  "overlapping [] lo hi = Some []"
| "overlapping (m # ms) lo hi =
     do {
       l \<leftarrow> user_key (fm_Largest m);
       skip \<leftarrow> (if bytes_compare l lo < 0 then Some True else do { s \<leftarrow> user_key (fm_Smallest m); Some (bytes_compare s hi > 0) });
       out \<leftarrow> overlapping ms lo hi;
       Some (if skip then out else m # out)
     }"

fun file_covers :: "bytes \<Rightarrow> FileMeta list \<Rightarrow> bool option" where
  "file_covers uk [] = Some False"
| "file_covers uk (m # ms) =
     do {
       s \<leftarrow> user_key (fm_Smallest m);
       hit \<leftarrow> (if bytes_compare uk s \<ge> 0 then do { l \<leftarrow> user_key (fm_Largest m); Some (bytes_compare uk l \<le> 0) } else Some False);
       if hit then Some True else file_covers uk ms
     }"

definition keyMayExistBelow :: "compaction \<Rightarrow> bytes \<Rightarrow> bool option" where
  "keyMayExistBelow c uk = file_covers uk (concat (c_below c))"

text \<open>The rotation cursor: the first file past the one compacted last, or the first.\<close>

fun past_cursor :: "bytes \<Rightarrow> FileMeta list \<Rightarrow> nat option" where
  "past_cursor ptr [] = Some 0"
| "past_cursor ptr (f # fs) =
     do { c \<leftarrow> compare_keys (fm_Smallest f) ptr; if c \<le> 0 then map_option Suc (past_cursor ptr fs) else Some 0 }"

definition pick_index :: "bytes option \<Rightarrow> FileMeta list \<Rightarrow> nat option" where
  "pick_index ptr files =
     (case ptr of
        None \<Rightarrow> Some 0
      | Some p \<Rightarrow> do { idx \<leftarrow> past_cursor p files; Some (if idx = length files then 0 else idx) })"

text \<open>The files of the source level, with the cursor moved.\<close>

definition pick_source :: "nat \<Rightarrow> DB \<Rightarrow> (FileMeta list \<times> DB) option" where
  "pick_source lvl db =
     (let files = vs_cur (db_vs db) ! lvl in
      if lvl = 0 then Some (files, db)
      else do {
        idx \<leftarrow> pick_index (db_compactPtr db ! lvl) files;
        if idx < length files
        then Some ([files ! idx], db\<lparr>db_compactPtr := (db_compactPtr db)[lvl := Some (fm_Smallest (files ! idx))]\<rparr>)
        else None
      })"

fun input_handles :: "(nat \<times> nat) list \<Rightarrow> FileMeta list \<Rightarrow> nat + nat list" where
  "input_handles tables [] = Inr []"
| "input_handles tables (m # ms) =
     (case map_of tables (fm_FileNum m) of
        None \<Rightarrow> Inl (fm_FileNum m)
      | Some h \<Rightarrow> (case input_handles tables ms of Inl n \<Rightarrow> Inl n | Inr hs \<Rightarrow> Inr (h # hs)))"

definition pick_inputs :: "nat \<Rightarrow> DB \<Rightarrow> (compaction option \<times> DB) option" where
  "pick_inputs lvl db =
     do {
       (src, db) \<leftarrow> pick_source lvl db;
       (lo, hi) \<leftarrow> userKeyRange src (None, None);
       let v = vs_cur (db_vs db);
       ov \<leftarrow> overlapping (v ! (lvl + 1)) (case_option [] id lo) (case_option [] id hi);
       case input_handles (db_tables db) (src @ ov) of
         Inl n \<Rightarrow> Some (None, db\<lparr>db_bgErr := Some (DbNoHandle n)\<rparr>)
       | Inr hs \<Rightarrow> Some (Some \<lparr>c_level = lvl, c_output = lvl + 1, c_inputs = hs, c_inMeta = src @ ov, c_below = drop (lvl + 2) v\<rparr>, db)
     }"

definition pickCompactionLocked :: "DB \<Rightarrow> (compaction option \<times> DB) option" where
  "pickCompactionLocked db =
     (case best_level (db_opts db) (vs_cur (db_vs db)) [0..<NumLevels - 1] None (Fin 1) of
        None \<Rightarrow> Some (None, db)
      | Some lvl \<Rightarrow> pick_inputs lvl db)"

text \<open>A compaction that is picked pins its inputs; the caller starts it as a goroutine of its own.\<close>

definition maybeScheduleCompactionLocked :: "DB \<Rightarrow> (compaction option \<times> DB) option" where
  "maybeScheduleCompactionLocked db =
     (if db_compacting db \<or> db_closing db \<or> db_bgErr db \<noteq> None then Some (None, db)
      else do {
        (c, db) \<leftarrow> pickCompactionLocked db;
        case c of
          None \<Rightarrow> Some (None, db)
        | Some c \<Rightarrow> Some (Some c, (fold h_ref (c_inputs c) db)\<lparr>db_compacting := True\<rparr>)
      })"

end
