(* ===== verification/DbWrite.thy ===== *)
theory DbWrite
  imports DbPick
begin

text \<open>
  Writing and flushing, \<^verbatim>\<open>src/db.go\<close> and \<^verbatim>\<open>src/batch.go\<close>.  Everything a goroutine does while it holds the engine's mutex is one
  definition; a flush is the sequence of its critical sections and the file work between them.  A call that would wait on the
  condition variable returns \<open>WaitImm\<close> or \<open>WaitStall\<close>, the loop it waits in, and is resumed by the definition of what follows.
\<close>

section \<open>Tables and versions\<close>

definition openTable :: "bool \<Rightarrow> FileMeta \<Rightarrow> disk \<Rightarrow> DB \<Rightarrow> ((db_error + nat) \<times> DB) option" where
  "openTable fl meta d db =
     (case dk_read (TableFileName (fm_FileNum meta)) d of
        None \<Rightarrow> Some (Inl DbIO, db)
      | Some data \<Rightarrow>
          if fl then Some (Inl DbIO, db)
          else do {
            r \<leftarrow> NewReader (file_src data) (length data);
            case r of
              Inl e \<Rightarrow> Some (Inl (DbTable e), db)
            | Inr r \<Rightarrow> do {
                s \<leftarrow> user_key (fm_Smallest meta);
                l \<leftarrow> user_key (fm_Largest meta);
                Some (Inr (length (db_handles db)), db\<lparr>db_handles := db_handles db
                  @ [\<lparr>th_num = fm_FileNum meta, th_smallest = s, th_largest = l, th_r = r, th_refs = 1, th_open = True\<rparr>]\<rparr>)
              }
          })"

text \<open>The handles of one level; \<open>fl\<close> tells which files cannot be opened.\<close>

fun install_files :: "(nat \<Rightarrow> bool) \<Rightarrow> disk \<Rightarrow> FileMeta list \<Rightarrow> DB \<Rightarrow> ((db_error + nat list) \<times> DB) option" where
  "install_files fl d [] db = Some (Inr [], db)"
| "install_files fl d (m # ms) db =
     do {
       (r, db) \<leftarrow> (case map_of (db_tables db) (fm_FileNum m) of
                    Some h \<Rightarrow> Some (Inr h, db)
                  | None \<Rightarrow> do {
                      (r, db) \<leftarrow> openTable (fl (fm_FileNum m)) m d db;
                      case r of Inl e \<Rightarrow> Some (Inl e, db) | Inr h \<Rightarrow> Some (Inr h, db\<lparr>db_tables := (fm_FileNum m, h) # db_tables db\<rparr>)
                    });
       case r of
         Inl e \<Rightarrow> Some (Inl e, db)
       | Inr h \<Rightarrow> do {
           (r, db) \<leftarrow> install_files fl d ms db;
           Some (case r of Inl e \<Rightarrow> Inl e | Inr hs \<Rightarrow> Inr (h # hs), db)
         }
     }"

fun install_levels :: "(nat \<Rightarrow> bool) \<Rightarrow> disk \<Rightarrow> Version \<Rightarrow> DB \<Rightarrow> ((db_error + nat list list) \<times> DB) option" where
  "install_levels fl d [] db = Some (Inr [], db)"
| "install_levels fl d (fs # v) db =
     do {
       (r, db) \<leftarrow> install_files fl d fs db;
       case r of
         Inl e \<Rightarrow> Some (Inl e, db)
       | Inr hs \<Rightarrow> do {
           (r, db) \<leftarrow> install_levels fl d v db;
           Some (case r of Inl e \<Rightarrow> Inl e | Inr ls \<Rightarrow> Inr (hs # ls), db)
         }
     }"

text \<open>At \<^verbatim>\<open>Open\<close> there is no read state yet.  Iteration over the map of tables is in no particular order, which does not matter here.\<close>

definition installVersionLocked :: "(nat \<Rightarrow> bool) \<Rightarrow> nat \<Rightarrow> nat option \<Rightarrow> disk \<Rightarrow> DB \<Rightarrow> ((db_error + unit) \<times> DB) option" where
  "installVersionLocked fl mem imm d db =
     do {
       let v = vs_cur (db_vs db);
       let old = (if db_states db = [] then None else Some (db_rs db));
       (r, db) \<leftarrow> install_levels fl d v db;
       case r of
         Inl e \<Rightarrow> Some (Inl e, db)
       | Inr levels \<Rightarrow> do {
           let seen = (\<lambda>(num, h). num \<in> Live v);
           db \<leftarrow> unref_all (map snd (filter (\<lambda>t. \<not> seen t) (db_tables db))) (db\<lparr>db_tables := filter seen (db_tables db)\<rparr>);
           let (a, db) = newReadState mem imm levels db;
           db \<leftarrow> (case old of None \<Rightarrow> Some (db\<lparr>db_rs := a\<rparr>) | Some o' \<Rightarrow> release o' (db\<lparr>db_rs := a\<rparr>));
           Some (Inr (), db)
         }
     }"

section \<open>Writes\<close>

definition cur_rs :: "DB \<Rightarrow> readState" where
  "cur_rs db = db_states db ! db_rs db"

definition cur_mem :: "DB \<Rightarrow> MemTable" where
  "cur_mem db = db_mems db ! rs_mem (cur_rs db)"

definition sealLocked :: "faults \<Rightarrow> DB \<Rightarrow> waldir \<Rightarrow> ((db_error + unit) \<times> DB \<times> waldir) option" where
  "sealLocked fl db e =
     (let db = db\<lparr>db_immBound := 0\<rparr>;
          (r, db, e) =
            (case db_wal db of
               None \<Rightarrow> (Inr (), db, e)
             | Some w \<Rightarrow>
                 (case Rotate fl w e of
                    (Inl err, w, e) \<Rightarrow> (Inl (DbWal err), db\<lparr>db_wal := Some w, db_bgErr := Some (DbWal err)\<rparr>, e)
                  | (Inr _, w, e) \<Rightarrow> (Inr (), db\<lparr>db_wal := Some w, db_immBound := SegmentID w\<rparr>, e)))
      in case r of
           Inl err \<Rightarrow> Some (Inl err, db, e)
         | Inr _ \<Rightarrow> do {
             let old = db_rs db;
             let m = length (db_mems db);
             let (a, db) = newReadState m (Some (rs_mem (cur_rs db))) (rs_levels (cur_rs db)) (db\<lparr>db_mems := db_mems db @ [Memtable_New]\<rparr>);
             db \<leftarrow> release old (db\<lparr>db_rs := a\<rparr>);
             Some (Inr (), db\<lparr>db_immSeq := db_seq db\<rparr>, e)
           })"

text \<open>\<open>Room\<close> carries whether a flush was started, and a compaction scheduled while stalling is handed out with \<open>WaitStall\<close>.\<close>

datatype room = Room bool DB waldir | RoomErr db_error DB waldir | WaitImm DB waldir | WaitStall "compaction option" DB waldir

definition room_full :: "DB \<Rightarrow> bool" where
  "room_full db \<longleftrightarrow> \<not> int (ApproximateSize (cur_mem db)) < MemTableSize (db_opts db)"

text \<open>From the stall loop on; a writer that was woken up there resumes here.\<close>

definition room_stalled :: "faults \<Rightarrow> DB \<Rightarrow> waldir \<Rightarrow> room option" where
  "room_stalled fl db e =
     (if int (length (rs_levels (cur_rs db) ! 0)) \<ge> L0StopThreshold (db_opts db) \<and> db_bgErr db = None \<and> \<not> db_closing db
      then do { (c, db) \<leftarrow> maybeScheduleCompactionLocked db; Some (WaitStall c db e) }
      else case db_bgErr db of
        Some err \<Rightarrow> Some (RoomErr err db e)
      | None \<Rightarrow>
          if \<not> room_full db then Some (Room False db e)
          else do {
            (r, db, e) \<leftarrow> sealLocked fl db e;
            Some (case r of Inl err \<Rightarrow> RoomErr err db e | Inr _ \<Rightarrow> Room True (db\<lparr>db_flushers := db_flushers db + 1\<rparr>) e)
          })"

text \<open>From the first loop on; a writer that waited for the flush in flight resumes here.\<close>

definition room_imm :: "faults \<Rightarrow> DB \<Rightarrow> waldir \<Rightarrow> room option" where
  "room_imm fl db e =
     (if rs_imm (cur_rs db) \<noteq> None \<and> db_bgErr db = None then Some (WaitImm db e)
      else case db_bgErr db of Some err \<Rightarrow> Some (RoomErr err db e) | None \<Rightarrow> room_stalled fl db e)"

definition makeRoomLocked :: "faults \<Rightarrow> DB \<Rightarrow> waldir \<Rightarrow> room option" where
  "makeRoomLocked fl db e = (if \<not> room_full db then Some (Room False db e) else room_imm fl db e)"

fun add_ops :: "(nat \<Rightarrow> nat list) \<Rightarrow> nat \<Rightarrow> nat \<Rightarrow> Op list \<Rightarrow> MemTable \<Rightarrow> MemTable option" where
  "add_ops draws base i [] m = Some m"
| "add_ops draws base i (op # ops) m = Add (draws i) (op_UserKey op) (base + i) (op_Kind op) (op_Value op) m \<bind> add_ops draws base (Suc i) ops"

text \<open>The part of \<^verbatim>\<open>write\<close> after room was made.\<close>

definition write_commit :: "faults \<Rightarrow> (nat \<Rightarrow> nat list) \<Rightarrow> Op list \<Rightarrow> DB \<Rightarrow> waldir \<Rightarrow> ((db_error + unit) \<times> DB \<times> waldir) option" where
  "write_commit fl draws ops db e =
     (let prev = db_seq db;
          b = \<lparr>BaseSeq = prev + 1, Ops = ops\<rparr>;
          (r, db, e) =
            (case db_wal db of
               None \<Rightarrow> (Inr (), db, e)
             | Some w \<Rightarrow>
                 (case Append fl (Encode b []) w e of
                    (Inl err, w, e) \<Rightarrow> (Inl err, db\<lparr>db_wal := Some w\<rparr>, e)
                  | (Inr _, w, e) \<Rightarrow> (Inr (), db\<lparr>db_wal := Some w\<rparr>, e)))
      in case r of
           Inl RecordPanic \<Rightarrow> None
         | Inl ErrRecordTooLarge \<Rightarrow> Some (Inl ErrBatchTooLarge, db, e)
         | Inl err \<Rightarrow> Some (Inl (DbWal err), db\<lparr>db_bgErr := Some (DbWal err)\<rparr>, e)
         | Inr _ \<Rightarrow> do {
             m \<leftarrow> add_ops draws (prev + 1) 0 ops (cur_mem db);
             Some (Inr (), db\<lparr>db_mems := (db_mems db)[rs_mem (cur_rs db) := m], db_seq := prev + length ops\<rparr>, e)
           })"

text \<open>The checks before room is made.\<close>

definition write_check :: "bool \<Rightarrow> Op list \<Rightarrow> DB \<Rightarrow> db_error option" where
  "write_check allowReserved ops db =
     (case (if allowReserved then None else find (\<lambda>op. reserved (op_UserKey op)) ops) of
        Some op \<Rightarrow> Some (ErrReservedKey (op_UserKey op))
      | None \<Rightarrow> if db_closed db then Some ErrClosed else db_bgErr db)"

datatype written = Returned "db_error + unit" bool DB waldir | Waiting room

definition after_room :: "faults \<Rightarrow> (nat \<Rightarrow> nat list) \<Rightarrow> Op list \<Rightarrow> room \<Rightarrow> written option" where
  "after_room fl draws ops r =
     (case r of
        Room started db e \<Rightarrow> do { (r, db, e) \<leftarrow> write_commit fl draws ops db e; Some (Returned r started db e) }
      | RoomErr err db e \<Rightarrow> Some (Returned (Inl err) False db e)
      | _ \<Rightarrow> Some (Waiting r))"

definition db_write :: "faults \<Rightarrow> faults \<Rightarrow> (nat \<Rightarrow> nat list) \<Rightarrow> Op list \<Rightarrow> bool \<Rightarrow> DB \<Rightarrow> waldir \<Rightarrow> written option" where
  "db_write flr fl draws ops allowReserved db e =
     (case write_check allowReserved ops db of
        Some err \<Rightarrow> Some (Returned (Inl err) False db e)
      | None \<Rightarrow> makeRoomLocked flr db e \<bind> after_room fl draws ops)"

definition db_Put :: "faults \<Rightarrow> faults \<Rightarrow> (nat \<Rightarrow> nat list) \<Rightarrow> bytes \<Rightarrow> bytes \<Rightarrow> DB \<Rightarrow> waldir \<Rightarrow> written option" where
  "db_Put flr fl draws key v = db_write flr fl draws (Ops (Batch_Put key v \<lparr>BaseSeq = 0, Ops = []\<rparr>)) False"

definition db_Delete :: "faults \<Rightarrow> faults \<Rightarrow> (nat \<Rightarrow> nat list) \<Rightarrow> bytes \<Rightarrow> DB \<Rightarrow> waldir \<Rightarrow> written option" where
  "db_Delete flr fl draws key = db_write flr fl draws (Ops (Batch_Delete key \<lparr>BaseSeq = 0, Ops = []\<rparr>)) False"

definition applyRaft :: "faults \<Rightarrow> faults \<Rightarrow> (nat \<Rightarrow> nat list) \<Rightarrow> Batch \<Rightarrow> DB \<Rightarrow> waldir \<Rightarrow> written option" where
  "applyRaft flr fl draws b = db_write flr fl draws (Ops b) True"

definition db_Apply :: "faults \<Rightarrow> faults \<Rightarrow> (nat \<Rightarrow> nat list) \<Rightarrow> Batch \<Rightarrow> DB \<Rightarrow> waldir \<Rightarrow> written option" where
  "db_Apply flr fl draws b db e = (if Ops b = [] then Some (Returned (Inr ()) False db e) else db_write flr fl draws (Ops b) False db e)"

end
