(* ===== verification/DbFlush.thy ===== *)
theory DbFlush
  imports DbWrite
begin

text \<open>
  Flushing a sealed memtable, \<^verbatim>\<open>flushImm\<close> and \<^verbatim>\<open>writeTable\<close> of \<^verbatim>\<open>src/db.go\<close>, in its steps: the critical section that allocates
  the table, the file work outside the mutex, the critical section that commits the table to the manifest, and pruning.
\<close>

section \<open>The table file\<close>

text \<open>
  Outcomes of the calls on one new table file.  Bytes pass through a buffered writer: \<open>tf_io\<close> are the writes that fail, and on a
  failure \<open>tf_kept\<close> bytes of what was accepted have reached the file.
\<close>

record table_faults =
  tf_create :: bool
  tf_io :: writes
  tf_kept :: nat
  tf_flush :: bool
  tf_sync :: bool
  tf_close :: bool
  tf_syncDir :: bool

partial_function (option) fill_table :: "writes \<Rightarrow> (MemTable \<times> nat option) \<Rightarrow> sst_Writer \<Rightarrow> ((sst_error + unit) \<times> sst_Writer) option" where
  "fill_table io it w =
     (if io_Valid mem_it it
      then do {
        k \<leftarrow> io_Key mem_it it;
        v \<leftarrow> io_Value mem_it it;
        case Writer_Add io k v w of
          (Inl e, w) \<Rightarrow> Some (Inl e, w)
        | (Inr _, w) \<Rightarrow> do { it \<leftarrow> io_Next mem_it it; fill_table io it w }
      }
      else Some (Inr (), w))"

text \<open>Closing a finished table: the rest of the buffer, the sync, the close.\<close>

definition close_table :: "table_faults \<Rightarrow> nat \<Rightarrow> nat \<Rightarrow> nat \<Rightarrow> ((sst_error + Properties) \<times> sst_Writer) \<Rightarrow> disk \<Rightarrow> (db_error + FileMeta) \<times> disk" where
  "close_table tf level num f rw d =
     (case rw of
        (Inl e, w) \<Rightarrow> (Inl (DbTable e), dk_append f (take (tf_kept tf) (sw_out w)) d)
      | (Inr props, w) \<Rightarrow>
          if tf_flush tf then (Inl DbIO, dk_append f (take (tf_kept tf) (sw_out w)) d)
          else
            let d = dk_append f (sw_out w) d in
            if tf_sync tf then (Inl DbIO, d)
            else
              let d = dk_fsync f d in
              if tf_close tf then (Inl DbIO, d)
              else (Inr \<lparr>fm_Level = int level, fm_FileNum = num, fm_Size = FileSize props,
                      fm_Smallest = case_option [] id (Smallest props), fm_Largest = case_option [] id (Largest props)\<rparr>, d))"

definition writeTable :: "table_faults \<Rightarrow> nat \<Rightarrow> MemTable \<Rightarrow> disk \<Rightarrow> ((db_error + FileMeta) \<times> disk) option" where
  "writeTable tf num m d =
     (if tf_create tf \<or> dk_dir d (TableFileName num) \<noteq> None then Some (Inl DbIO, d)
      else do {
        let (f, d) = dk_create (TableFileName num) d;
        it \<leftarrow> io_First mem_it (mem_NewIterator m);
        (r, w) \<leftarrow> fill_table (tf_io tf) it (NewWriter default_options);
        rw \<leftarrow> (case r of Inl e \<Rightarrow> Some (Inl e, w) | Inr _ \<Rightarrow> Finish (tf_io tf) w);
        let (r, d) = close_table tf 0 num f rw d;
        case r of
          Inl e \<Rightarrow> Some (Inl e, d)
        | Inr meta \<Rightarrow> if tf_syncDir tf then Some (Inl DbIO, d) else Some (Inr meta, dk_syncdir d)
      })"

section \<open>The steps of a flush\<close>

record flushJob =
  fj_imm :: "nat option"
  fj_sealSeq :: nat
  fj_bound :: nat
  fj_num :: nat

definition flush_begin :: "DB \<Rightarrow> flushJob \<times> DB" where
  "flush_begin db =
     (let (num, vs) = AllocFileNum (db_vs db)
      in (\<lparr>fj_imm = rs_imm (cur_rs db), fj_sealSeq = db_immSeq db, fj_bound = db_immBound db, fj_num = num\<rparr>,
          db\<lparr>db_vs := vs, db_pending := num # db_pending db\<rparr>))"

definition poison :: "db_error \<Rightarrow> DB \<Rightarrow> DB" where
  "poison err db = (if db_bgErr db = None then db\<lparr>db_bgErr := Some err\<rparr> else db)"

definition flush_fail :: "db_error \<Rightarrow> flushJob \<Rightarrow> DB \<Rightarrow> DB" where
  "flush_fail err job db =
     (let db = poison err db
      in db\<lparr>db_pending := removeAll (fj_num job) (db_pending db), db_flushers := db_flushers db - 1\<rparr>)"

text \<open>Writing and opening the table; \<open>hook\<close> is the crash-injection hook after the write.\<close>

definition flush_table :: "table_faults \<Rightarrow> bool \<Rightarrow> bool \<Rightarrow> flushJob \<Rightarrow> DB \<Rightarrow> disk \<Rightarrow> ((db_error + FileMeta \<times> nat) \<times> DB \<times> disk) option" where
  "flush_table tf hook ofl job db d =
     do {
       imm \<leftarrow> fj_imm job;
       (r, d) \<leftarrow> writeTable tf (fj_num job) (db_mems db ! imm) d;
       case r of
         Inl e \<Rightarrow> Some (Inl e, flush_fail e job db, d)
       | Inr meta \<Rightarrow>
           if hook then Some (Inl DbHook, flush_fail DbHook job db, d)
           else do {
             (r, db) \<leftarrow> openTable ofl meta d db;
             case r of
               Inl e \<Rightarrow> Some (Inl e, flush_fail e job db, d)
             | Inr h \<Rightarrow> Some (Inr (meta, h), db, d)
           }
     }"

text \<open>The outcomes of the calls in the committing critical section.\<close>

record commit_faults =
  cf_write :: "nat option"
  cf_sync :: bool
  cf_rotate :: vs_faults
  cf_open :: "nat \<Rightarrow> bool"
  cf_hook :: bool
  cf_collect :: vs_faults

definition set_table :: "nat \<Rightarrow> nat \<Rightarrow> DB \<Rightarrow> DB" where
  "set_table num h db = db\<lparr>db_tables := (num, h) # filter (\<lambda>(n, _). n \<noteq> num) (db_tables db)\<rparr>"

definition flush_edit :: "FileMeta \<Rightarrow> flushJob \<Rightarrow> VersionEdit" where
  "flush_edit meta job = empty_edit\<lparr>ve_AddFiles := [meta], ve_LogNumber := Some (fj_bound job), ve_LastSeq := Some (fj_sealSeq job)\<rparr>"

definition count_flush :: "FileMeta \<Rightarrow> DB \<Rightarrow> DB" where
  "count_flush meta db =
     db\<lparr>db_metrics := (db_metrics db)\<lparr>m_Flushes := (m_Flushes (db_metrics db) + 1) mod 2 ^ 64,
       m_FlushBytes := (m_FlushBytes (db_metrics db) + fm_Size meta) mod 2 ^ 64\<rparr>\<rparr>"

text \<open>The result carries a compaction that the flush made due; pruning follows a success.\<close>

definition flush_commit :: "commit_faults \<Rightarrow> flushJob \<Rightarrow> FileMeta \<Rightarrow> nat \<Rightarrow> DB \<Rightarrow> disk \<Rightarrow> ((db_error + unit) \<times> compaction option \<times> DB \<times> disk) option" where
  "flush_commit cf job meta h db d =
     do {
       (r, vs, d) \<leftarrow> vs_Apply (cf_write cf) (cf_sync cf) (cf_rotate cf) (flush_edit meta job) (db_vs db) d;
       let db = db\<lparr>db_vs := vs\<rparr>;
       case r of
         Inl e \<Rightarrow> do { db \<leftarrow> h_unref h db; Some (Inl (DbManifest e), None, flush_fail (DbManifest e) job db, d) }
       | Inr _ \<Rightarrow> do {
           let db = set_table (th_num (db_handles db ! h)) h db;
           let db = count_flush meta (db\<lparr>db_pending := removeAll (fj_num job) (db_pending db)\<rparr>);
           (r, db) \<leftarrow> installVersionLocked (cf_open cf) (rs_mem (cur_rs db)) None d db;
           case r of
             Inl e \<Rightarrow> Some (Inl e, None, flush_fail e job db, d)
           | Inr _ \<Rightarrow> do {
               (c, db) \<leftarrow> maybeScheduleCompactionLocked db;
               if cf_hook cf
               then Some (Inl DbHook, c, (poison DbHook db)\<lparr>db_flushers := db_flushers db - 1\<rparr>, d)
               else Some (Inr (), c, db, d)
             }
         }
     }"

definition flush_prune :: "nat \<Rightarrow> flushJob \<Rightarrow> DB \<Rightarrow> waldir \<Rightarrow> bool \<times> waldir" where
  "flush_prune budget job db e = (if db_wal db = None then (True, e) else DeleteSegmentsBelow budget (fj_bound job) e)"

definition flush_end :: "bool \<Rightarrow> DB \<Rightarrow> DB" where
  "flush_end ok db = (let db = (if ok then db else poison (DbWal IOError) db) in db\<lparr>db_flushers := db_flushers db - 1\<rparr>)"

end
