(* ===== verification/DbRefs.thy ===== *)
theory DbRefs
  imports DbFlush
begin

text \<open>
  Reference counting of table handles and read states.  A multiset says who holds what: every count is the number of holders,
  and a file is open exactly while somebody holds its handle.  No release goes below zero, so none of the panics of
  \<^verbatim>\<open>unref\<close> and \<^verbatim>\<open>release\<close> can happen, and a file is never closed under a reader.
\<close>

section \<open>Handles\<close>

definition refs_ok :: "nat multiset \<Rightarrow> DB \<Rightarrow> bool" where
  "refs_ok P db \<longleftrightarrow> (\<forall>h<length (db_handles db). th_refs (db_handles db ! h) = int (count P h) \<and> (th_open (db_handles db ! h) \<longleftrightarrow> h \<in># P))
     \<and> (\<forall>h\<in>#P. h < length (db_handles db))"

definition strip :: "tableHandle \<Rightarrow> tableHandle" where
  "strip th = th\<lparr>th_refs := 0, th_open := False\<rparr>"

text \<open>Nothing but the counts of handles changed.\<close>

definition only_refs :: "DB \<Rightarrow> DB \<Rightarrow> bool" where
  "only_refs db db' \<longleftrightarrow> db' = db\<lparr>db_handles := db_handles db'\<rparr> \<and> map strip (db_handles db') = map strip (db_handles db)"

lemma only_refs_refl [simp]: "only_refs db db"
  by (simp add: only_refs_def)

lemma only_refs_trans: "only_refs a b \<Longrightarrow> only_refs b c \<Longrightarrow> only_refs a c"
  unfolding only_refs_def by (metis (no_types, lifting) DB.surjective DB.update_convs(7))

lemma only_refs_length: "only_refs db db' \<Longrightarrow> length (db_handles db') = length (db_handles db)"
  unfolding only_refs_def by (metis length_map)

lemma only_refs_nth: "only_refs db db' \<Longrightarrow> h < length (db_handles db) \<Longrightarrow> strip (db_handles db' ! h) = strip (db_handles db ! h)"
  using only_refs_length unfolding only_refs_def by (metis nth_map)

lemma strip_sel:
  "strip a = strip b \<Longrightarrow> th_num a = th_num b \<and> th_smallest a = th_smallest b \<and> th_largest a = th_largest b \<and> th_r a = th_r b"
  by (cases a; cases b) (simp add: strip_def)

lemma strip_upd [simp]: "strip (th\<lparr>th_refs := r\<rparr>) = strip th" "strip (th\<lparr>th_refs := r, th_open := b\<rparr>) = strip th"
  by (simp_all add: strip_def)

lemma map_strip_update: "strip x = strip (hs ! h) \<Longrightarrow> map strip (hs[h := x]) = map strip hs"
  by (cases "h < length hs") (simp_all add: map_update list_update_same_conv list_update_beyond not_less)

lemma h_ref_ok:
  assumes "refs_ok P db" "h \<in># P"
  shows "refs_ok (add_mset h P) (h_ref h db) \<and> only_refs db (h_ref h db)"
proof -
  have "h < length (db_handles db)" using assms by (simp add: refs_ok_def)
  then show ?thesis using assms map_strip_update [of "(db_handles db ! h)\<lparr>th_refs := th_refs (db_handles db ! h) + 1\<rparr>" "db_handles db" h]
    by (auto simp: refs_ok_def h_ref_def only_refs_def nth_list_update)
qed

lemma fold_ref_ok:
  "refs_ok P db \<Longrightarrow> set hs \<subseteq> set_mset P \<Longrightarrow> refs_ok (P + mset hs) (fold h_ref hs db) \<and> only_refs db (fold h_ref hs db)"
proof (induction hs arbitrary: P db)
  case (Cons h hs)
  then have h: "refs_ok (add_mset h P) (h_ref h db)" "only_refs db (h_ref h db)" using h_ref_ok [of P db h] by auto
  have "refs_ok (add_mset h P + mset hs) (fold h_ref hs (h_ref h db)) \<and> only_refs (h_ref h db) (fold h_ref hs (h_ref h db))"
    by (rule Cons.IH [OF h(1)]) (use Cons.prems(2) in auto)
  then show ?case using only_refs_trans [OF h(2)] by simp
qed simp

lemma h_unref_ok:
  assumes "refs_ok P db" "h \<in># P"
  shows "\<exists>db'. h_unref h db = Some db' \<and> refs_ok (P - {#h#}) db' \<and> only_refs db db'"
proof -
  have h: "h < length (db_handles db)" "0 < count P h" using assms by (auto simp: refs_ok_def)
  let ?th = "(db_handles db ! h)\<lparr>th_refs := int (count P h) - 1, th_open := th_open (db_handles db ! h) \<and> int (count P h) - 1 \<noteq> 0\<rparr>"
  have r: "th_refs (db_handles db ! h) = int (count P h)" "th_open (db_handles db ! h)" using assms h by (auto simp: refs_ok_def)
  have "h_unref h db = Some (db\<lparr>db_handles := (db_handles db)[h := ?th]\<rparr>)" using r h(2) by (simp add: h_unref_def Let_def)
  moreover have "Suc 0 < count P h \<longleftrightarrow> count P h \<noteq> Suc 0" using h(2) by linarith
  then have "refs_ok (P - {#h#}) (db\<lparr>db_handles := (db_handles db)[h := ?th]\<rparr>)"
    using assms h r by (auto simp: refs_ok_def nth_list_update in_diff_count dest: in_diffD)
  moreover have "only_refs db (db\<lparr>db_handles := (db_handles db)[h := ?th]\<rparr>)"
    using map_strip_update [of ?th "db_handles db" h] by (simp add: only_refs_def)
  ultimately show ?thesis by blast
qed

lemma unref_all_ok:
  "refs_ok P db \<Longrightarrow> mset hs \<subseteq># P \<Longrightarrow> \<exists>db'. unref_all hs db = Some db' \<and> refs_ok (P - mset hs) db' \<and> only_refs db db'"
proof (induction hs arbitrary: P db)
  case (Cons h hs)
  then have "h \<in># P" by (auto dest: mset_subset_eqD)
  then obtain db1 where h: "h_unref h db = Some db1" "refs_ok (P - {#h#}) db1" "only_refs db db1" using h_unref_ok [OF Cons.prems(1)] by blast
  have "mset hs \<subseteq># P - {#h#}" using Cons.prems(2) by (simp add: insert_subset_eq_iff)
  from Cons.IH [OF h(2) this] obtain db' where "unref_all hs db1 = Some db'" "refs_ok (P - {#h#} - mset hs) db'" "only_refs db1 db'" by blast
  then show ?case using h only_refs_trans by auto
qed simp

section \<open>Read states\<close>

definition held :: "readState \<Rightarrow> nat list" where
  "held rs = (if 0 < rs_refs rs then concat (rs_levels rs) else [])"

text \<open>\<open>pins\<close> are the holders of read states, the engine's own reference among them; \<open>ext\<close> are handles held by a flush or a compaction.\<close>

definition all_pins :: "nat multiset \<Rightarrow> DB \<Rightarrow> nat multiset" where
  "all_pins ext db = mset (concat (map held (db_states db))) + mset (map snd (db_tables db)) + ext"

definition pins_ok :: "nat multiset \<Rightarrow> nat multiset \<Rightarrow> DB \<Rightarrow> bool" where
  "pins_ok pins ext db \<longleftrightarrow> refs_ok (all_pins ext db) db \<and> (\<forall>a<length (db_states db). rs_refs (db_states db ! a) = int (count pins a)) \<and> (\<forall>a\<in>#pins. a < length (db_states db))"

lemma only_refs_sel:
  assumes "only_refs db db'"
  shows "db_states db' = db_states db" "db_tables db' = db_tables db" "db_mems db' = db_mems db" "db_vs db' = db_vs db" "db_rs db' = db_rs db" "db_seq db' = db_seq db"
    "db_closed db' = db_closed db" "db_opts db' = db_opts db" "db_bgErr db' = db_bgErr db" "db_compacting db' = db_compacting db" "db_closing db' = db_closing db"
    "db_pending db' = db_pending db" "db_wal db' = db_wal db" "db_immSeq db' = db_immSeq db" "db_immBound db' = db_immBound db" "db_flushers db' = db_flushers db"
  by (metis only_refs_def [THEN iffD1, OF assms] DB.select_convs DB.surjective DB.update_convs(7))+

lemma newReadState_ok:
  assumes ok: "pins_ok pins ext db" and lv: "set (concat levels) \<subseteq> set_mset (all_pins ext db)" and n: "newReadState mem imm levels db = (a, db')"
  shows "a = length (db_states db)" "pins_ok (add_mset a pins) ext db'"
    "\<exists>db1. only_refs db db1 \<and> db' = db1\<lparr>db_states := db_states db @ [\<lparr>rs_mem = mem, rs_imm = imm, rs_levels = levels, rs_refs = 1\<rparr>]\<rparr>"
proof -
  let ?db1 = "fold h_ref (concat levels) db" and ?rs = "\<lparr>rs_mem = mem, rs_imm = imm, rs_levels = levels, rs_refs = 1\<rparr>"
  have r: "refs_ok (all_pins ext db + mset (concat levels)) ?db1" "only_refs db ?db1" using fold_ref_ok [OF _ lv] ok by (auto simp: pins_ok_def)
  note s = only_refs_sel [OF r(2)]
  have db': "a = length (db_states db)" "db' = ?db1\<lparr>db_states := db_states db @ [?rs]\<rparr>" using n s by (auto simp: newReadState_def Let_def)
  then show "a = length (db_states db)" "\<exists>db1. only_refs db db1 \<and> db' = db1\<lparr>db_states := db_states db @ [?rs]\<rparr>" using r(2) by auto
  have "all_pins ext db' = all_pins ext db + mset (concat levels)" using db' s by (simp add: all_pins_def held_def)
  then have "refs_ok (all_pins ext db') db'" using r(1) db'(2) by (simp add: refs_ok_def)
  moreover have "rs_refs (db_states db' ! b) = int (count (add_mset a pins) b)" if "b < length (db_states db')" for b
  proof (cases "b = a")
    case True
    then have "count pins b = 0" using ok db'(1) by (metis count_eq_zero_iff less_irrefl pins_ok_def)
    then show ?thesis using True db' by (simp add: nth_append)
  next
    case False
    then show ?thesis using that db' ok by (auto simp: pins_ok_def nth_append)
  qed
  ultimately show "pins_ok (add_mset a pins) ext db'" using ok db' by (auto simp: pins_ok_def less_SucI)
qed

lemma concat_map_split:
  assumes "a < length xs"
  shows "concat (map f xs) = concat (map f (take a xs)) @ f (xs ! a) @ concat (map f (drop (Suc a) xs))"
  using arg_cong [OF id_take_nth_drop [OF assms], of "\<lambda>ys. concat (map f ys)"] by simp

lemma mset_concat_update:
  assumes "a < length xs"
  shows "mset (concat (map f (xs[a := y]))) + mset (f (xs ! a)) = mset (concat (map f xs)) + mset (f y)"
  using assms by (simp add: concat_map_split [OF assms] upd_conv_take_nth_drop)

lemma held_subset: "a < length (db_states db) \<Longrightarrow> mset (held (db_states db ! a)) \<subseteq># mset (concat (map held (db_states db)))"
  by (simp add: concat_map_split)

lemma pin_sel [simp]:
  "db_tables (pin a k db) = db_tables db" "db_handles (pin a k db) = db_handles db" "db_mems (pin a k db) = db_mems db" "db_vs (pin a k db) = db_vs db"
  "db_rs (pin a k db) = db_rs db" "length (db_states (pin a k db)) = length (db_states db)"
  by (simp_all add: pin_def)

lemma release_ok:
  assumes ok: "pins_ok pins ext db" and a: "a \<in># pins"
  shows "\<exists>db'. release a db = Some db' \<and> pins_ok (pins - {#a#}) ext db' \<and> only_refs (pin a (- 1) db) db'"
proof -
  let ?rs = "db_states db ! a" and ?db = "pin a (- 1) db"
  have l: "a < length (db_states db)" "rs_refs ?rs = int (count pins a)" "0 < count pins a" using assms by (auto simp: pins_ok_def)
  have refs: "rs_refs (db_states ?db ! b) = int (count (pins - {#a#}) b)" if "b < length (db_states db)" for b
    using that ok l by (auto simp: pin_def pins_ok_def nth_list_update of_nat_diff)
  have rng: "\<forall>b\<in>#pins - {#a#}. b < length (db_states db)" using ok by (auto simp: pins_ok_def dest: in_diffD)
  have all: "all_pins ext ?db + mset (held ?rs) = all_pins ext db + mset (held (?rs\<lparr>rs_refs := rs_refs ?rs - 1\<rparr>))"
    using mset_concat_update [OF l(1), of held "?rs\<lparr>rs_refs := rs_refs ?rs - 1\<rparr>"] by (simp add: all_pins_def pin_def ac_simps)
  show ?thesis
  proof (cases "count pins a = 1")
    case True
    have h: "held ?rs = concat (rs_levels ?rs)" "held (?rs\<lparr>rs_refs := rs_refs ?rs - 1\<rparr>) = []" using l True by (simp_all add: held_def)
    have "refs_ok (all_pins ext db) ?db" using ok by (simp add: pins_ok_def refs_ok_def)
    moreover have "mset (concat (rs_levels ?rs)) \<subseteq># all_pins ext db"
      using held_subset [OF l(1)] unfolding all_pins_def h(1) by (metis subset_mset.add_increasing2 subset_mset.zero_le)
    ultimately obtain db' where u: "unref_all (concat (rs_levels ?rs)) ?db = Some db'" "refs_ok (all_pins ext db - mset (concat (rs_levels ?rs))) db'" "only_refs ?db db'"
      using unref_all_ok by blast
    have "release a db = Some db'" using u(1) l True by (simp add: release_def Let_def pin_def)
    moreover have "pins_ok (pins - {#a#}) ext db'"
    proof -
      have "all_pins ext db' = all_pins ext ?db" using only_refs_sel(1,2) [OF u(3)] by (simp add: all_pins_def)
      also have "\<dots> = all_pins ext db - mset (concat (rs_levels ?rs))" using all unfolding h by (metis add.right_neutral add_diff_cancel_right' mset.simps(1))
      finally show ?thesis using u(2) refs rng only_refs_sel(1) [OF u(3)] by (simp add: pins_ok_def)
    qed
    ultimately show ?thesis using u(3) by blast
  next
    case False
    then have n: "Suc 0 < count pins a" using l(3) by linarith
    then have "held (?rs\<lparr>rs_refs := rs_refs ?rs - 1\<rparr>) = held ?rs" using l by (simp add: held_def)
    then have "all_pins ext ?db = all_pins ext db" using all by simp
    then have "pins_ok (pins - {#a#}) ext ?db" using ok refs rng by (simp add: pins_ok_def refs_ok_def)
    moreover have "release a db = Some ?db" using l False by (simp add: release_def Let_def pin_def)
    ultimately show ?thesis by auto
  qed
qed

lemma acquire_ok: "pins_ok (add_mset (db_rs db) R) ext db \<Longrightarrow> pins_ok (add_mset (db_rs db) (add_mset (db_rs db) R)) ext (pin (db_rs db) 1 db)"
proof -
  assume ok: "pins_ok (add_mset (db_rs db) R) ext db"
  let ?a = "db_rs db"
  have l: "?a < length (db_states db)" "0 < rs_refs (db_states db ! ?a)" using ok by (auto simp: pins_ok_def)
  have "map held ((db_states db)[?a := (db_states db ! ?a)\<lparr>rs_refs := rs_refs (db_states db ! ?a) + 1\<rparr>]) = map held (db_states db)"
    using l by (auto simp: held_def map_update list_update_same_conv)
  then have "all_pins ext (pin ?a 1 db) = all_pins ext db" by (simp add: all_pins_def pin_def)
  then show ?thesis using ok l by (auto simp: pins_ok_def refs_ok_def pin_def nth_list_update)
qed

section \<open>Replacing the current read state\<close>

definition same_view :: "readState \<Rightarrow> readState \<Rightarrow> bool" where
  "same_view a b \<longleftrightarrow> rs_mem a = rs_mem b \<and> rs_imm a = rs_imm b \<and> rs_levels a = rs_levels b"

lemma pins_ok_rs [simp]: "pins_ok pins ext (db\<lparr>db_rs := a\<rparr>) \<longleftrightarrow> pins_ok pins ext db"
  by (simp add: pins_ok_def all_pins_def refs_ok_def)

lemma swap_state_ok:
  assumes ok: "pins_ok (add_mset (db_rs db) R) ext db" and lv: "set (concat levels) \<subseteq> set_mset (all_pins ext db)"
    and n: "newReadState mem imm levels db = (a, db1)"
  shows "\<exists>H S. release (db_rs db) (db1\<lparr>db_rs := a\<rparr>) = Some (db\<lparr>db_handles := H, db_states := S, db_rs := a\<rparr>) \<and> a = length (db_states db)
    \<and> map strip H = map strip (db_handles db) \<and> length S = Suc a \<and> S ! a = \<lparr>rs_mem = mem, rs_imm = imm, rs_levels = levels, rs_refs = 1\<rparr>
    \<and> (\<forall>b<a. same_view (S ! b) (db_states db ! b)) \<and> pins_ok (add_mset a R) ext (db\<lparr>db_handles := H, db_states := S, db_rs := a\<rparr>)"
proof -
  note ns = newReadState_ok [OF ok lv n]
  let ?old = "db_rs db"
  obtain db0 where db0: "only_refs db db0" "db1 = db0\<lparr>db_states := db_states db @ [\<lparr>rs_mem = mem, rs_imm = imm, rs_levels = levels, rs_refs = 1\<rparr>]\<rparr>" using ns(3) by blast
  have old: "?old < length (db_states db)" using ok by (simp add: pins_ok_def)
  have "pins_ok (add_mset a (add_mset ?old R)) ext (db1\<lparr>db_rs := a\<rparr>)" using ns(2) by simp
  then obtain db' where db': "release ?old (db1\<lparr>db_rs := a\<rparr>) = Some db'" "pins_ok (add_mset a (add_mset ?old R) - {#?old#}) ext db'" "only_refs (pin ?old (- 1) (db1\<lparr>db_rs := a\<rparr>)) db'"
    using release_ok [of "add_mset a (add_mset ?old R)" ext "db1\<lparr>db_rs := a\<rparr>" ?old] by auto
  have P: "pins_ok (add_mset a R) ext db'" using db'(2) by (metis add_mset_commute add_mset_remove_trivial)
  define H S where "H = db_handles db'" and "S = db_states (pin ?old (- 1) (db1\<lparr>db_rs := a\<rparr>))"
  obtain X where X: "db0 = db\<lparr>db_handles := X\<rparr>" using db0(1) unfolding only_refs_def by blast
  have "db' = (pin ?old (- 1) (db1\<lparr>db_rs := a\<rparr>))\<lparr>db_handles := H\<rparr>" using db'(3) unfolding only_refs_def H_def by blast
  also have "\<dots> = db\<lparr>db_handles := H, db_states := S, db_rs := a\<rparr>" unfolding S_def pin_def db0(2) X by simp
  finally have "db' = db\<lparr>db_handles := H, db_states := S, db_rs := a\<rparr>" .
  moreover have "map strip H = map strip (db_handles db)" using db'(3) db0 unfolding only_refs_def H_def by simp
  moreover have "length S = Suc a" "S ! a = \<lparr>rs_mem = mem, rs_imm = imm, rs_levels = levels, rs_refs = 1\<rparr>" "\<forall>b<a. same_view (S ! b) (db_states db ! b)"
    using db0(2) ns(1) old by (auto simp: S_def pin_def nth_append nth_list_update same_view_def)
  ultimately show ?thesis using db'(1) P ns(1) by (intro exI [of _ H] exI [of _ S]) simp
qed

end
