(* ===== verification/VersionSetSafety.thy ===== *)
theory VersionSetSafety
  imports VersionSet
begin

text \<open>
  The version set survives failures and crashes.  \<open>vs_run\<close> collects every history of openings, edits, collections, table writes,
  failures and crashes, together with the state the last acknowledged edit produced and the states of edits that failed since.
  Whatever happened, loading the directory succeeds, gives one of these states, and every table of it is there.
\<close>

section \<open>What a manifest file recovers to\<close>

type_synonym man_state = "Version \<times> nat \<times> nat"

definition init_state :: man_state where
  "init_state = (empty_version, 0, 0)"

definition replay_init :: replay_state where
  "replay_init = (empty_version, 0, 1, 0)"

definition recovers :: "bytes \<Rightarrow> man_state \<Rightarrow> bool" where
  "recovers buf S \<longleftrightarrow> (\<exists>clean nxt. nxt < 2 ^ 64 \<and> ScanRecords buf replay_edit replay_init = (clean, Inr (fst S, fst (snd S), nxt, snd (snd S)))
     \<and> \<not> damaged_tail (drop clean buf))"

definition good_man :: "man_state set \<Rightarrow> nfile \<Rightarrow> bool" where
  "good_man A f \<longleftrightarrow> (\<forall>k. nf_synced f \<le> k \<and> k \<le> length (nf_data f) \<longrightarrow> (\<exists>S\<in>A. recovers (take k (nf_data f)) S))"

definition state_ok :: "man_state \<Rightarrow> bool" where
  "state_ok S \<longleftrightarrow> version_ok (fst S) \<and> (\<forall>f\<in>set (concat (fst S)). wf_meta f) \<and> fst (snd S) < 2 ^ 64 \<and> snd (snd S) < 2 ^ 64"

text \<open>The records of a manifest that stands for a state.\<close>

definition logs :: "bytes list \<Rightarrow> man_state \<Rightarrow> bool" where
  "logs ps S \<longleftrightarrow> (\<forall>p\<in>set ps. fits p) \<and> (\<exists>nxt<2 ^ 64. fold_fn replay_edit ps replay_init = Inr (fst S, fst (snd S), nxt, snd (snd S)))"

lemma torn_not_damaged:
  assumes "fits p" "strict_prefix t (frame p)"
  shows "\<not> damaged_tail t"
proof
  assume d: "damaged_tail t"
  obtain u where u: "frame p = t @ u" using assms(2) by (auto simp: strict_prefix_def prefix_def)
  have "length t \<ge> 8" using d by (simp add: damaged_tail_def)
  then have "take 8 t = take 8 (frame p)" using u by simp
  then have "drop 4 (take 8 t) = drop 4 (take 8 (frame p))" by simp
  also have "\<dots> = put_u32 (length p)" by (simp add: frame_def)
  finally have "get_u32 (drop 4 (take 8 t)) = length p" using fits_less [OF assms(1)] by (simp add: le_dec_le_enc)
  then have "length (frame p) < length t" using d by (simp add: damaged_tail_def)
  then show False using prefix_length_less [OF assms(2)] by simp
qed

lemma recovers_frames:
  assumes "logs ps S" "t = [] \<or> (\<exists>p. fits p \<and> strict_prefix t (frame p))"
  shows "recovers (frames ps @ t) S"
proof -
  have t: "NextRecord t = None" "\<not> damaged_tail t"
    using assms(2) NextRecord_torn torn_not_damaged by (auto simp: damaged_tail_def)
  obtain nxt where f: "\<forall>p\<in>set ps. fits p" "fold_fn replay_edit ps replay_init = Inr (fst S, fst (snd S), nxt, snd (snd S))" "nxt < 2 ^ 64"
    using assms(1) by (auto simp: logs_def)
  have "ScanRecords (frames ps @ t) replay_edit replay_init = (length (frames ps), Inr (fst S, fst (snd S), nxt, snd (snd S)))"
    using ScanRecords_frames(1) [OF f(1) t(1), of replay_edit replay_init] ScanRecords_frames(2) [OF f(1) t(1) f(2)] f(2) by (metis prod.collapse)
  then show ?thesis using t(2) f(3) unfolding recovers_def by auto
qed

lemma good_man_synced: "logs ps S \<Longrightarrow> S \<in> A \<Longrightarrow> good_man A \<lparr>nf_data = frames ps, nf_synced = length (frames ps)\<rparr>"
  using recovers_frames [of ps S "[]"] by (auto simp: good_man_def)

text \<open>One more record behind a synced log: a crash keeps the old state or the new one.\<close>

lemma good_man_extend:
  assumes "logs ps S" "logs (ps @ [p]) S'" "S \<in> A" "S' \<in> A"
  shows "good_man A \<lparr>nf_data = frames ps @ take n (frame p), nf_synced = length (frames ps)\<rparr>"
  unfolding good_man_def
proof (intro allI impI; elim conjE)
  fix k assume k: "nf_synced \<lparr>nf_data = frames ps @ take n (frame p), nf_synced = length (frames ps)\<rparr> \<le> k"
  have p: "fits p" using assms(2) by (auto simp: logs_def)
  define j where "j = min (k - length (frames ps)) n"
  have e: "take k (frames ps @ take n (frame p)) = frames ps @ take j (frame p)" using k by (simp add: j_def min.commute)
  show "\<exists>S\<in>A. recovers (take k (nf_data \<lparr>nf_data = frames ps @ take n (frame p), nf_synced = length (frames ps)\<rparr>)) S"
  proof (cases "j < length (frame p)")
    case True
    then have "strict_prefix (take j (frame p)) (frame p)"
      by (metis length_take min.absorb4 less_irrefl strict_prefix_def take_is_prefix)
    then show ?thesis using recovers_frames [OF assms(1)] p e assms(3) by auto
  next
    case False
    then show ?thesis using recovers_frames [OF assms(2), of "[]"] e assms(4) by auto
  qed
qed

lemma good_man_mono: "good_man A f \<Longrightarrow> A \<subseteq> B \<Longrightarrow> good_man B f"
  unfolding good_man_def by blast

lemma good_man_cut:
  assumes "good_man A f" "nf_synced f \<le> k" "k \<le> length (nf_data f)"
  shows "good_man A \<lparr>nf_data = take k (nf_data f), nf_synced = k\<rparr>"
proof -
  have "\<exists>S\<in>A. recovers (take k (nf_data f)) S" using assms unfolding good_man_def by blast
  then show ?thesis using assms(3) unfolding good_man_def by auto
qed

lemma good_man_fsync: "good_man A f \<Longrightarrow> nf_synced f \<le> length (nf_data f) \<Longrightarrow> good_man A (f\<lparr>nf_synced := length (nf_data f)\<rparr>)"
  using good_man_cut [of A f "length (nf_data f)"] by (cases f) simp

section \<open>The invariant of the directory\<close>

definition durable_table :: "disk \<Rightarrow> nat \<Rightarrow> bool" where
  "durable_table d num \<longleftrightarrow> (\<exists>i f. dk_hist d (TableFileName num) = {Some i} \<and> dk_ino d i = Some f \<and> nf_synced f = length (nf_data f))"

definition tables_of :: "man_state \<Rightarrow> nat set" where
  "tables_of S = Live (fst S)"

definition names_man :: "disk \<Rightarrow> nat \<Rightarrow> nat \<Rightarrow> bool" where
  "names_man d c num \<longleftrightarrow> dk_ino d c = Some \<lparr>nf_data = manifestName num @ [10], nf_synced = length (manifestName num @ [10])\<rparr>"

text \<open>What \<^verbatim>\<open>CURRENT\<close> may be after a crash.\<close>

definition cur_ok :: "man_state set \<Rightarrow> disk \<Rightarrow> nat option \<Rightarrow> bool" where
  "cur_ok A d x = (case x of
     None \<Rightarrow> init_state \<in> A \<and> (\<forall>n. parseTableName n \<noteq> None \<longrightarrow> dk_hist d n = {None})
   | Some c \<Rightarrow> \<exists>num<2 ^ 64. names_man d c num \<and> (\<exists>m f. dk_hist d (manifestName num) = {Some m} \<and> dk_ino d m = Some f \<and> good_man A f))"

definition owned :: "disk \<Rightarrow> bool" where
  "owned d \<longleftrightarrow> (\<forall>a b i. Some i \<in> dk_hist d a \<longrightarrow> Some i \<in> dk_hist d b \<longrightarrow> a = b \<or> {a, b} \<subseteq> {tmpName, currentName})
     \<and> (\<forall>i. dk_dir d tmpName = Some i \<longrightarrow> Some i \<notin> dk_hist d currentName)"

definition dir_inv :: "man_state set \<Rightarrow> disk \<Rightarrow> bool" where
  "dir_inv A d \<longleftrightarrow> disk_ok d \<and> owned d \<and> (\<forall>x\<in>dk_hist d currentName. cur_ok A d x) \<and> (\<forall>S\<in>A. state_ok S) \<and> (\<forall>S\<in>A. \<forall>t\<in>tables_of S. durable_table d t)"

lemma dir_invI:
  assumes "disk_ok d" "owned d" "\<And>x. x \<in> dk_hist d currentName \<Longrightarrow> cur_ok A d x" "\<And>S. S \<in> A \<Longrightarrow> state_ok S" "\<And>S t. S \<in> A \<Longrightarrow> t \<in> tables_of S \<Longrightarrow> durable_table d t"
  shows "dir_inv A d"
  using assms unfolding dir_inv_def by blast

lemma dir_invD:
  assumes "dir_inv A d"
  shows "disk_ok d" "owned d" "x \<in> dk_hist d currentName \<Longrightarrow> cur_ok A d x" "S \<in> A \<Longrightarrow> state_ok S" "S \<in> A \<Longrightarrow> t \<in> tables_of S \<Longrightarrow> durable_table d t"
  using assms unfolding dir_inv_def by blast+

text \<open>A name that neither \<^verbatim>\<open>CURRENT\<close> nor a state refers to may be changed freely.\<close>

definition idle :: "man_state set \<Rightarrow> disk \<Rightarrow> bytes \<Rightarrow> bool" where
  "idle A d n \<longleftrightarrow> n \<noteq> currentName \<and> (\<forall>num c. n = manifestName num \<longrightarrow> Some c \<in> dk_hist d currentName \<longrightarrow> \<not> names_man d c num)
     \<and> (\<forall>S\<in>A. \<forall>t\<in>tables_of S. n \<noteq> TableFileName t) \<and> (parseTableName n = None \<or> None \<notin> dk_hist d currentName)"

text \<open>Two disks that agree on everything that is not idle.\<close>

definition same_busy :: "man_state set \<Rightarrow> disk \<Rightarrow> disk \<Rightarrow> bool" where
  "same_busy A d d' \<longleftrightarrow> (\<forall>n. \<not> idle A d n \<longrightarrow> dk_hist d' n = dk_hist d n)
     \<and> (\<forall>n i. \<not> idle A d n \<longrightarrow> Some i \<in> dk_hist d n \<longrightarrow> dk_ino d' i = dk_ino d i)"

lemma busy:
  "\<not> idle A d currentName" "Some c \<in> dk_hist d currentName \<Longrightarrow> names_man d c num \<Longrightarrow> \<not> idle A d (manifestName num)"
  "S \<in> A \<Longrightarrow> t \<in> tables_of S \<Longrightarrow> \<not> idle A d (TableFileName t)"
  "parseTableName n \<noteq> None \<Longrightarrow> None \<in> dk_hist d currentName \<Longrightarrow> \<not> idle A d n"
  unfolding idle_def by blast+

lemma dir_inv_same:
  assumes "dir_inv A d" "same_busy A d d'" "disk_ok d'" "owned d'"
  shows "dir_inv A d'"
proof (rule dir_invI)
  note inv = dir_invD [OF assms(1)]
  have h: "\<not> idle A d n \<Longrightarrow> dk_hist d' n = dk_hist d n" and i: "\<not> idle A d n \<Longrightarrow> Some j \<in> dk_hist d n \<Longrightarrow> dk_ino d' j = dk_ino d j" for n j
    using assms(2) unfolding same_busy_def by blast+
  show "cur_ok A d' x" if x: "x \<in> dk_hist d' currentName" for x
  proof (cases x)
    case None
    have "None \<in> dk_hist d currentName" using x h [OF busy(1)] None by simp
    then show ?thesis using inv(3) [of None] h busy(4) unfolding cur_ok_def None by auto
  next
    case (Some c)
    have c: "Some c \<in> dk_hist d currentName" using x h [OF busy(1)] Some by simp
    then obtain num m f where n: "num < 2 ^ 64" "names_man d c num" "dk_hist d (manifestName num) = {Some m}" "dk_ino d m = Some f" "good_man A f"
      using inv(3) [of "Some c"] unfolding cur_ok_def by auto
    note b = busy(2) [OF c n(2), of A]
    have "names_man d' c num" using n(2) i [OF busy(1) c] by (simp add: names_man_def)
    moreover have "dk_hist d' (manifestName num) = {Some m}" "dk_ino d' m = Some f" using h [OF b] i [OF b, of m] n(3,4) by auto
    ultimately show ?thesis using n(1,5) unfolding cur_ok_def Some by auto
  qed
  show "durable_table d' t" if "S \<in> A" "t \<in> tables_of S" for S t
    using inv(5) [OF that] h [OF busy(3) [OF that]] i [OF busy(3) [OF that]] unfolding durable_table_def by auto
qed (use dir_invD [OF assms(1)] assms in auto)

lemma dir_inv_mono:
  assumes "dir_inv A d" "A \<subseteq> B" "\<And>S. S \<in> B \<Longrightarrow> state_ok S" "\<And>S t. S \<in> B \<Longrightarrow> t \<in> tables_of S \<Longrightarrow> durable_table d t"
  shows "dir_inv B d"
proof (rule dir_invI)
  show "cur_ok B d x" if "x \<in> dk_hist d currentName" for x
    using dir_invD(3) [OF assms(1) that] assms(2) good_man_mono [OF _ assms(2)] unfolding cur_ok_def by (auto split: option.splits)
qed (use dir_invD [OF assms(1)] assms in auto)

section \<open>Disk operations keep it\<close>

lemma ownedD:
  assumes "owned d"
  shows "Some i \<in> dk_hist d a \<Longrightarrow> Some i \<in> dk_hist d b \<Longrightarrow> a = b \<or> {a, b} \<subseteq> {tmpName, currentName}"
    "dk_dir d tmpName = Some i \<Longrightarrow> Some i \<notin> dk_hist d currentName"
  using assms unfolding owned_def by blast+

lemma ownedI:
  assumes "\<And>a b i. Some i \<in> dk_hist d a \<Longrightarrow> Some i \<in> dk_hist d b \<Longrightarrow> a = b \<or> {a, b} \<subseteq> {tmpName, currentName}"
    "\<And>i. dk_dir d tmpName = Some i \<Longrightarrow> Some i \<notin> dk_hist d currentName"
  shows "owned d"
  using assms unfolding owned_def by blast

lemma dir_inv_create:
  assumes inv: "dir_inv A d" and idle: "idle A d n"
  shows "dir_inv A (snd (dk_create n d))"
proof (rule dir_inv_same [OF inv])
  note d = dir_invD(1,2) [OF inv] and fr = disk_ok_fresh [OF dir_invD(1) [OF inv]]
  let ?d = "snd (dk_create n d)"
  have h: "dk_hist ?d a = (if a = n then insert (Some (dk_next d)) (dk_hist d n) else dk_hist d a)" for a
    by (simp add: dk_create_def set_name_def)
  have dir: "dk_dir ?d = (dk_dir d)(n \<mapsto> dk_next d)" and ino: "dk_ino ?d = (dk_ino d)(dk_next d \<mapsto> \<lparr>nf_data = [], nf_synced = 0\<rparr>)"
    by (simp_all add: dk_create_def set_name_def)
  show "same_busy A d ?d" unfolding same_busy_def ino using idle fr by (auto simp: h)
  show "disk_ok ?d" by (rule disk_ok_create [OF d(1)])
  show "owned ?d"
  proof (rule ownedI)
    show "a = b \<or> {a, b} \<subseteq> {tmpName, currentName}" if "Some i \<in> dk_hist ?d a" "Some i \<in> dk_hist ?d b" for a b i
      using that ownedD(1) [OF d(2), of i a b] fr by (auto simp: h split: if_splits)
    show "Some i \<notin> dk_hist ?d currentName" if "dk_dir ?d tmpName = Some i" for i
      using that ownedD(2) [OF d(2), of i] idle fr by (auto simp: h dir idle_def split: if_splits)
  qed
qed

lemma dir_inv_upd:
  assumes inv: "dir_inv A d" and idle: "\<And>n. Some i \<in> dk_hist d n \<Longrightarrow> idle A d n"
    and g: "\<And>f. nf_synced f \<le> length (nf_data f) \<Longrightarrow> nf_synced (g f) \<le> length (nf_data (g f))"
  shows "dir_inv A (upd_ino i g d)"
proof (rule dir_inv_same [OF inv])
  show "same_busy A d (upd_ino i g d)" unfolding same_busy_def upd_ino_def using idle by auto
  show "disk_ok (upd_ino i g d)" by (rule disk_ok_upd [OF dir_invD(1) [OF inv] g])
  show "owned (upd_ino i g d)" using dir_invD(2) [OF inv] unfolding owned_def upd_ino_def by simp
qed

lemma dir_inv_remove:
  assumes inv: "dir_inv A d" and idle: "idle A d n"
  shows "dir_inv A (dk_remove n d)"
proof (rule dir_inv_same [OF inv])
  have h: "dk_hist (dk_remove n d) a = (if a = n then insert None (dk_hist d n) else dk_hist d a)" for a
    by (simp add: dk_remove_def set_name_def)
  show "same_busy A d (dk_remove n d)" unfolding same_busy_def using idle by (auto simp: dk_remove_def set_name_def)
  show "disk_ok (dk_remove n d)" by (rule disk_ok_remove [OF dir_invD(1) [OF inv]])
  show "owned (dk_remove n d)"
  proof (rule ownedI)
    show "a = b \<or> {a, b} \<subseteq> {tmpName, currentName}" if "Some i \<in> dk_hist (dk_remove n d) a" "Some i \<in> dk_hist (dk_remove n d) b" for a b i
      using that ownedD(1) [OF dir_invD(2) [OF inv], of i a b] by (auto simp: h split: if_splits)
    show "Some i \<notin> dk_hist (dk_remove n d) currentName" if "dk_dir (dk_remove n d) tmpName = Some i" for i
      using that ownedD(2) [OF dir_invD(2) [OF inv], of i] by (auto simp: dk_remove_def set_name_def split: if_splits)
  qed
qed

text \<open>Changes that only settle what a crash could still undo.\<close>

definition settles :: "disk \<Rightarrow> disk \<Rightarrow> bool" where
  "settles d d' \<longleftrightarrow> (\<forall>n. dk_hist d' n \<subseteq> dk_hist d n \<and> dk_hist d' n \<noteq> {})
     \<and> (\<forall>i f. dk_ino d i = Some f \<longrightarrow> (\<exists>k. nf_synced f \<le> k \<and> k \<le> length (nf_data f)
          \<and> (dk_ino d' i = Some \<lparr>nf_data = take k (nf_data f), nf_synced = k\<rparr> \<or> dk_ino d' i = Some f)))"

lemma settles_whole:
  assumes "settles d d'" "dk_ino d i = Some f" "nf_synced f = length (nf_data f)"
  shows "dk_ino d' i = Some f"
  using assms unfolding settles_def by (cases f) fastforce

lemma dir_inv_settles:
  assumes inv: "dir_inv A d" and s: "settles d d'" and ok: "disk_ok d'" "owned d'"
  shows "dir_inv A d'"
proof (rule dir_invI)
  have h: "dk_hist d' n \<subseteq> dk_hist d n" "dk_hist d' n \<noteq> {}" for n using s unfolding settles_def by blast+
  have one: "dk_hist d' n = {x}" if "dk_hist d n = {x}" for n x using h [of n] that by auto
  show "cur_ok A d' x" if x: "x \<in> dk_hist d' currentName" for x
  proof -
    have co: "cur_ok A d x" using dir_invD(3) [OF inv] x h by blast
    show ?thesis
    proof (cases x)
      case None
      then show ?thesis using co one unfolding cur_ok_def by auto
    next
      case (Some c)
      then obtain num m f where n: "num < 2 ^ 64" "names_man d c num" "dk_hist d (manifestName num) = {Some m}" "dk_ino d m = Some f" "good_man A f"
        using co unfolding cur_ok_def by auto
      have "names_man d' c num" using settles_whole [OF s] n(2) by (simp add: names_man_def)
      moreover obtain g where "dk_ino d' m = Some g" "good_man A g" using s n(4,5) good_man_cut [OF n(5)] unfolding settles_def by metis
      ultimately show ?thesis using one [OF n(3)] n(1) unfolding cur_ok_def Some by auto
    qed
  qed
  show "durable_table d' t" if "S \<in> A" "t \<in> tables_of S" for S t
    using dir_invD(5) [OF inv that] one settles_whole [OF s] unfolding durable_table_def by metis
qed (use dir_invD [OF inv] ok in auto)

lemma owned_settled:
  assumes h: "\<And>n. dk_hist d n = {dk_dir d n}" and inj: "\<And>a b i. dk_dir d a = Some i \<Longrightarrow> dk_dir d b = Some i \<Longrightarrow> a = b"
  shows "owned d"
proof (rule ownedI)
  have dir: "dk_dir d n = Some i" if "Some i \<in> dk_hist d n" for n i using that h [of n] by simp
  show "a = b \<or> {a, b} \<subseteq> {tmpName, currentName}" if "Some i \<in> dk_hist d a" "Some i \<in> dk_hist d b" for a b i
    using inj [OF dir [OF that(1)] dir [OF that(2)]] by blast
  show "Some i \<notin> dk_hist d currentName" if "dk_dir d tmpName = Some i" for i
    using inj [OF that dir [of i currentName]] names_differ(1) by metis
qed

lemma dir_inv_syncdir:
  assumes inv: "dir_inv A d"
  shows "dir_inv A (dk_syncdir d)"
proof (rule dir_inv_settles [OF inv])
  note d = dir_invD(1,2) [OF inv]
  show "settles d (dk_syncdir d)" using disk_okD(1,6) [OF d(1)] unfolding settles_def dk_syncdir_def by auto
  show "disk_ok (dk_syncdir d)" by (rule disk_ok_syncdir [OF d(1)])
  show "owned (dk_syncdir d)" by (rule owned_settled) (simp add: dk_syncdir_def, rule disk_okD(7) [OF d(1)], simp_all add: dk_syncdir_def)
qed

lemma dir_inv_fsync:
  assumes inv: "dir_inv A d"
  shows "dir_inv A (dk_fsync i d)"
proof (rule dir_inv_settles [OF inv])
  note d = dir_invD(1,2) [OF inv]
  show "settles d (dk_fsync i d)" unfolding settles_def
  proof (intro conjI allI impI)
    fix j f assume f: "dk_ino d j = Some f"
    show "\<exists>k. nf_synced f \<le> k \<and> k \<le> length (nf_data f) \<and> (dk_ino (dk_fsync i d) j = Some \<lparr>nf_data = take k (nf_data f), nf_synced = k\<rparr> \<or> dk_ino (dk_fsync i d) j = Some f)"
      using f disk_okD(6) [OF d(1) f] by (intro exI [of _ "length (nf_data f)"]) (cases f, auto simp: dk_fsync_def upd_ino_def)
  qed (use disk_okD(1) [OF d(1)] in \<open>auto simp: dk_fsync_def upd_ino_def\<close>)
  show "disk_ok (dk_fsync i d)" by (rule disk_ok_fsync [OF d(1)])
  show "owned (dk_fsync i d)" using d(2) unfolding owned_def dk_fsync_def upd_ino_def by simp
qed

lemma dir_inv_crash:
  assumes inv: "dir_inv A d" and c: "dk_crash d d'"
  shows "dir_inv A d'"
proof (rule dir_inv_settles [OF inv])
  show "settles d d'" unfolding settles_def using dk_crashD(2,3) [OF c] dk_crash_ino(2) [OF c] by fastforce
  show "disk_ok d'" by (rule disk_ok_crash [OF dir_invD(1) [OF inv] c])
  show "owned d'" by (rule owned_settled) (rule dk_crashD(3) [OF c], rule dk_crashD(5) [OF c])
qed

lemma dir_inv_rename:
  assumes inv: "dir_inv A d" and t: "dk_dir d tmpName = Some t" "names_man d t num" "num < 2 ^ 64"
    and m: "dk_hist d (manifestName num) = {Some m}" "dk_ino d m = Some f" "good_man A f"
  shows "dir_inv A (dk_rename tmpName currentName d)"
proof (rule dir_invI)
  let ?d = "dk_rename tmpName currentName d"
  have h: "dk_hist ?d n = (if n = currentName then insert (Some t) (dk_hist d n) else if n = tmpName then insert None (dk_hist d n) else dk_hist d n)" for n
    using t(1) by (auto simp: dk_rename_def set_name_def)
  have ino: "dk_ino ?d = dk_ino d" and dir: "dk_dir ?d tmpName = None" by (simp_all add: dk_rename_def set_name_def)
  have nm: "names_man ?d c n = names_man d c n" for c n by (simp add: names_man_def ino)
  have tb: "dk_hist ?d n = dk_hist d n" if "parseTableName n \<noteq> None" for n using that by (auto simp: h)
  show "disk_ok ?d" by (rule disk_ok_rename [OF dir_invD(1) [OF inv] names_differ(1) [symmetric]])
  show "owned ?d"
  proof (rule ownedI)
    have ti: "Some t \<in> dk_hist d tmpName" using disk_okD(1) [OF dir_invD(1) [OF inv], of tmpName] t(1) by simp
    show "a = b \<or> {a, b} \<subseteq> {tmpName, currentName}" if "Some i \<in> dk_hist ?d a" "Some i \<in> dk_hist ?d b" for a b i
      using that ownedD(1) [OF dir_invD(2) [OF inv], of i] ti by (auto simp: h split: if_splits)
  qed (simp add: dir)
  show "cur_ok A ?d x" if x: "x \<in> dk_hist ?d currentName" for x
  proof (cases "x = Some t")
    case True
    then show ?thesis using t(2,3) m unfolding cur_ok_def by (auto simp: nm ino h)
  next
    case False
    then have "cur_ok A d x" using x dir_invD(3) [OF inv] by (auto simp: h)
    then show ?thesis unfolding cur_ok_def using tb by (auto simp: nm ino h split: option.splits)
  qed
  show "durable_table ?d n" if "S \<in> A" "n \<in> tables_of S" for S n
    using dir_invD(5) [OF inv that] unfolding durable_table_def by (auto simp: ino h)
qed (use dir_invD [OF inv] in auto)

section \<open>Rotation\<close>

lemma idle_tmp: "idle A d tmpName"
  unfolding idle_def using names_differ(1,3,5) parseTableName_other(3) by metis

lemma tmp_holders:
  assumes "dir_inv A d" "dk_dir d tmpName = Some t"
  shows "Some t \<in> dk_hist d n \<Longrightarrow> n = tmpName"
proof -
  assume n: "Some t \<in> dk_hist d n"
  have "Some t \<in> dk_hist d tmpName" using disk_okD(1) [OF dir_invD(1) [OF assms(1)], of tmpName] assms(2) by simp
  then show ?thesis using ownedD(1) [OF dir_invD(2) [OF assms(1)] n] ownedD(2) [OF dir_invD(2) [OF assms(1)] assms(2)] n by auto
qed

lemma dir_inv_tmp_upd:
  assumes "dir_inv A d" "dk_dir d tmpName = Some t" "\<And>f. nf_synced f \<le> length (nf_data f) \<Longrightarrow> nf_synced (g f) \<le> length (nf_data (g f))"
  shows "dir_inv A (upd_ino t g d)"
  by (rule dir_inv_upd [OF assms(1) _ assms(3)]) (use tmp_holders [OF assms(1,2)] idle_tmp in auto)

lemma truncate_tmp:
  assumes "dir_inv A d" "dk_truncate tmpName d = (t, d1)"
  shows "dir_inv A d1" "dk_dir d1 tmpName = Some t" "dk_ino d1 t = Some \<lparr>nf_data = [], nf_synced = 0\<rparr>"
    "\<And>n. n \<noteq> tmpName \<Longrightarrow> dk_hist d1 n = dk_hist d n" "\<And>n i. n \<noteq> tmpName \<Longrightarrow> Some i \<in> dk_hist d n \<Longrightarrow> dk_ino d1 i = dk_ino d i"
proof -
  have "dir_inv A d1 \<and> dk_dir d1 tmpName = Some t \<and> dk_ino d1 t = Some \<lparr>nf_data = [], nf_synced = 0\<rparr>
    \<and> (\<forall>n. n \<noteq> tmpName \<longrightarrow> dk_hist d1 n = dk_hist d n) \<and> (\<forall>n i. n \<noteq> tmpName \<longrightarrow> Some i \<in> dk_hist d n \<longrightarrow> dk_ino d1 i = dk_ino d i)"
  proof (cases "dk_dir d tmpName")
    case None
    then have e: "t = dk_next d" "d1 = snd (dk_create tmpName d)" using assms(2) by (auto simp: dk_truncate_def dk_create_def)
    then show ?thesis using dir_inv_create [OF assms(1) idle_tmp] disk_ok_fresh [OF dir_invD(1) [OF assms(1)]] by (auto simp: dk_create_def set_name_def)
  next
    case (Some i)
    then have e: "t = i" "d1 = upd_ino i (\<lambda>_. \<lparr>nf_data = [], nf_synced = 0\<rparr>) d" using assms(2) by (auto simp: dk_truncate_def)
    have "dk_ino d i \<noteq> None" using disk_okD(1,3) [OF dir_invD(1) [OF assms(1)]] Some by metis
    then show ?thesis using dir_inv_tmp_upd [OF assms(1) Some] tmp_holders [OF assms(1) Some] Some unfolding e by (auto simp: upd_ino_def)
  qed
  then show "dir_inv A d1" "dk_dir d1 tmpName = Some t" "dk_ino d1 t = Some \<lparr>nf_data = [], nf_synced = 0\<rparr>"
    "\<And>n. n \<noteq> tmpName \<Longrightarrow> dk_hist d1 n = dk_hist d n" "\<And>n i. n \<noteq> tmpName \<Longrightarrow> Some i \<in> dk_hist d n \<Longrightarrow> dk_ino d1 i = dk_ino d i" by blast+
qed

lemma setCurrent_inv:
  assumes inv: "dir_inv A d" and num: "num < 2 ^ 64"
    and m: "dk_hist d (manifestName num) = {Some m}" "dk_ino d m = Some f" "good_man A f"
    and call: "vs_setCurrent fl num vs d = (r, vs', d')"
  shows "dir_inv A d'" "r = Inl e \<Longrightarrow> vs' = vs_fail e vs"
    "r = Inr () \<Longrightarrow> vs' = vs \<and> (\<exists>t. dk_hist d' currentName = {Some t} \<and> names_man d' t num) \<and> dk_hist d' (manifestName num) = {Some m} \<and> dk_ino d' m = Some f"
proof -
  obtain t d1 where t: "dk_truncate tmpName d = (t, d1)" by (cases "dk_truncate tmpName d")
  note tr = truncate_tmp [OF inv t]
  define d2 where "d2 = dk_append t (manifestName num @ [10]) d1"
  define d3 where "d3 = dk_fsync t d2"
  define d4 where "d4 = dk_rename tmpName currentName d3"
  have nm: "manifestName num \<noteq> tmpName" by simp
  have mt: "m \<noteq> t" using tmp_holders [OF tr(1,2), of "manifestName num"] tr(4) [OF nm] m(1) nm by auto
  have m1: "dk_hist d1 (manifestName num) = {Some m}" "dk_ino d1 m = Some f" using tr(4) [OF nm] tr(5) [OF nm, of m] m by auto
  have part: "dir_inv A (dk_append t b d1)" for b unfolding dk_append_def by (rule dir_inv_tmp_upd [OF tr(1,2)]) simp
  have i3: "dir_inv A d3" unfolding d3_def d2_def by (rule dir_inv_fsync [OF part])
  have x3: "dk_dir d3 tmpName = Some t" "names_man d3 t num" "dk_hist d3 (manifestName num) = {Some m}" "dk_ino d3 m = Some f"
    using tr(2,3) m1 mt by (simp_all add: d3_def d2_def dk_fsync_def dk_append_def upd_ino_def names_man_def)
  have i4: "dir_inv A d4" unfolding d4_def by (rule dir_inv_rename [OF i3 x3(1,2) num x3(3,4) m(3)])
  have dir4: "dk_dir d4 currentName = Some t" "dk_dir d4 (manifestName num) = Some m"
    using x3 disk_okD(1) [OF dir_invD(1) [OF i3], of "manifestName num"] names_differ(1) by (auto simp: d4_def dk_rename_def set_name_def)
  have ino4: "names_man d4 t num" "dk_ino d4 m = Some f" using x3 by (auto simp: d4_def dk_rename_def set_name_def names_man_def)
  have x5: "dk_hist (dk_syncdir d4) currentName = {Some t} \<and> names_man (dk_syncdir d4) t num \<and> dk_hist (dk_syncdir d4) (manifestName num) = {Some m} \<and> dk_ino (dk_syncdir d4) m = Some f"
    using dir4 ino4 by (simp add: dk_syncdir_def names_man_def)
  note eq = call [unfolded vs_setCurrent_def t prod.case, folded d2_def, unfolded Let_def, folded d3_def, folded d4_def]
  show "dir_inv A d'" using eq inv part part [of "manifestName num @ [10]", folded d2_def] i3 i4 dir_inv_syncdir [OF i4]
    by (auto split: if_splits option.splits)
  show "vs' = vs_fail e vs" if "r = Inl e" using eq that by (auto split: if_splits option.splits)
  show "vs' = vs \<and> (\<exists>t. dk_hist d' currentName = {Some t} \<and> names_man d' t num) \<and> dk_hist d' (manifestName num) = {Some m} \<and> dk_ino d' m = Some f" if "r = Inr ()"
    using eq that x5 by (auto split: if_splits option.splits)
qed

lemma names_man_inj: "names_man d c n \<Longrightarrow> names_man d c m \<Longrightarrow> n = m"
  by (simp add: names_man_def)

lemma idle_unused:
  assumes inv: "dir_inv A d" and free: "dk_dir d (manifestName num) = None"
  shows "idle A d (manifestName num)"
proof -
  have "\<not> names_man d c n" if n: "manifestName num = manifestName n" and c: "Some c \<in> dk_hist d currentName" for n c
  proof
    assume nm: "names_man d c n"
    obtain n' m where "names_man d c n'" "dk_hist d (manifestName n') = {Some m}" using dir_invD(3) [OF inv c] unfolding cur_ok_def by auto
    then have "dk_dir d (manifestName num) = Some m" using names_man_inj [OF nm] n disk_okD(1) [OF dir_invD(1) [OF inv], of "manifestName num"] by auto
    then show False using free by simp
  qed
  then show ?thesis unfolding idle_def using names_differ(2,6) parseTableName_other(1) by metis
qed

lemma create_man:
  assumes inv: "dir_inv A d" and free: "dk_dir d (manifestName num) = None" and c: "dk_create (manifestName num) d = (f, d1)"
  shows "dir_inv A d1" "dk_ino d1 f = Some \<lparr>nf_data = [], nf_synced = 0\<rparr>" "dk_dir d1 (manifestName num) = Some f" "\<And>b. dir_inv A (dk_append f b d1)"
proof -
  note id = idle_unused [OF inv free] and fr = disk_ok_fresh [OF dir_invD(1) [OF inv]]
  have e: "f = dk_next d" "d1 = snd (dk_create (manifestName num) d)" using c by (auto simp: dk_create_def)
  show i1: "dir_inv A d1" unfolding e(2) by (rule dir_inv_create [OF inv id])
  have h: "dk_hist d1 n = (if n = manifestName num then insert (Some f) (dk_hist d n) else dk_hist d n)" for n
    unfolding e by (simp add: dk_create_def set_name_def)
  have ino: "dk_ino d1 = (dk_ino d)(f \<mapsto> \<lparr>nf_data = [], nf_synced = 0\<rparr>)" unfolding e by (simp add: dk_create_def set_name_def)
  show "dk_ino d1 f = Some \<lparr>nf_data = [], nf_synced = 0\<rparr>" by (simp add: ino)
  show "dk_dir d1 (manifestName num) = Some f" unfolding e by (simp add: dk_create_def set_name_def)
  have "names_man d1 c n = names_man d c n" if "Some c \<in> dk_hist d currentName" for c n
    using that fr unfolding names_man_def ino e(1) by auto
  then have "idle A d1 (manifestName num)" using id unfolding idle_def h by auto
  moreover have "n = manifestName num" if "Some f \<in> dk_hist d1 n" for n using that fr by (auto simp: h e(1) split: if_splits)
  ultimately show "dir_inv A (dk_append f b d1)" for b
    unfolding dk_append_def by (intro dir_inv_upd [OF i1]) auto
qed

lemma install_inv:
  assumes inv: "dir_inv A d" and num: "num < 2 ^ 64" and free: "dk_dir d (manifestName num) = None" and S: "logs [p] S" "S \<in> A"
    and call: "vs_install fl num (frame p) vs d = (r, vs', d')"
  shows "dir_inv A d'" "r = Inl e \<Longrightarrow> vs' = vs_fail e vs"
    "r = Inr () \<Longrightarrow> \<exists>t m. dk_hist d' currentName = {Some t} \<and> names_man d' t num \<and> dk_hist d' (manifestName num) = {Some m}
       \<and> dk_ino d' m = Some \<lparr>nf_data = frame p, nf_synced = length (frame p)\<rparr>
       \<and> vs' = vs\<lparr>vs_f := Some m, vs_size := length (frame p), vs_snapshotSize := length (frame p), vs_manifestNum := num\<rparr>"
proof -
  obtain f d1 where c: "dk_create (manifestName num) d = (f, d1)" by (cases "dk_create (manifestName num) d")
  note cr = create_man [OF inv free c]
  define d2 where "d2 = dk_append f (frame p) d1"
  define d3 where "d3 = dk_fsync f d2"
  define d4 where "d4 = dk_syncdir d3"
  have i2: "dir_inv A d2" unfolding d2_def by (rule cr(4))
  have i3: "dir_inv A d3" unfolding d3_def by (rule dir_inv_fsync [OF i2])
  have i4: "dir_inv A d4" unfolding d4_def by (rule dir_inv_syncdir [OF i3])
  let ?g = "\<lparr>nf_data = frame p, nf_synced = length (frame p)\<rparr>"
  have x4: "dk_hist d4 (manifestName num) = {Some f}" "dk_ino d4 f = Some ?g"
    using cr(2,3) by (simp_all add: d4_def d3_def d2_def dk_syncdir_def dk_fsync_def dk_append_def upd_ino_def)
  have g: "good_man A ?g" using good_man_synced [OF S] by simp
  obtain r0 vs0 d5 where sc: "vs_setCurrent fl num vs d4 = (r0, vs0, d5)" by (cases "vs_setCurrent fl num vs d4")
  note sci = setCurrent_inv [OF i4 num x4 g sc]
  note eq = call [unfolded vs_install_def c prod.case, folded d2_def, unfolded Let_def, folded d3_def, folded d4_def, unfolded sc]
  show "dir_inv A d'" using eq i2 i3 i4 cr(4) sci(1) by (auto split: if_splits option.splits sum.splits)
  show "vs' = vs_fail e vs" if "r = Inl e" using eq that sci(2) by (auto split: if_splits option.splits sum.splits)
  show "\<exists>t m. dk_hist d' currentName = {Some t} \<and> names_man d' t num \<and> dk_hist d' (manifestName num) = {Some m} \<and> dk_ino d' m = Some ?g
       \<and> vs' = vs\<lparr>vs_f := Some m, vs_size := length (frame p), vs_snapshotSize := length (frame p), vs_manifestNum := num\<rparr>" if "r = Inr ()"
    using eq that sci(3) by (auto split: if_splits option.splits sum.splits)
qed

lemma applyEdit_cong:
  assumes "ve_AddFiles e = ve_AddFiles e'" "ve_DeleteFiles e = ve_DeleteFiles e'"
  shows "applyEdit v e = applyEdit v e'"
  unfolding applyEdit_def assms ..

lemma logs_snapshot:
  assumes "state_ok (vs_cur vs, vs_logNumber vs, vs_lastSeq vs)" "vs_nextFileNum vs < 2 ^ 64" "fits (edit_encode (snapshot_edit vs) [])"
  shows "logs [edit_encode (snapshot_edit vs) []] (vs_cur vs, vs_logNumber vs, vs_lastSeq vs)"
proof -
  have "wf_edit (snapshot_edit vs)" using assms(1,2) by (simp add: wf_edit_def snapshot_edit_def snapshot_def empty_edit_def state_ok_def)
  then have "decodeEdit (edit_encode (snapshot_edit vs) []) = Inr (snapshot_edit vs)" by (rule decodeEdit_encode)
  moreover have "applyEdit empty_version (snapshot_edit vs) = Some (Inr (vs_cur vs))"
    using applyEdit_snapshot [of "vs_cur vs"] assms(1) applyEdit_cong [of "snapshot_edit vs" "snapshot (vs_cur vs)"]
    by (simp add: snapshot_edit_def state_ok_def)
  ultimately show ?thesis using assms(2,3) by (simp add: logs_def replay_init_def replay_edit_def snapshot_edit_def)
qed

text \<open>Once \<^verbatim>\<open>CURRENT\<close> exists it exists for good.\<close>

definition settled :: "disk \<Rightarrow> bool" where
  "settled d \<longleftrightarrow> None \<notin> dk_hist d currentName \<and> dk_dir d currentName \<noteq> None"

lemma settled_ops:
  assumes "settled d"
  shows "settled (dk_append i b d)" "settled (dk_fsync i d)" "settled (dk_syncdir d)" "settled (upd_ino i g d)"
    "n \<noteq> currentName \<Longrightarrow> settled (snd (dk_create n d))" "n \<noteq> currentName \<Longrightarrow> settled (snd (dk_truncate n d))" "n \<noteq> currentName \<Longrightarrow> settled (dk_remove n d)"
    "dk_dir d a \<noteq> None \<Longrightarrow> a \<noteq> currentName \<Longrightarrow> settled (dk_rename a currentName d)"
  using assms by (auto simp: settled_def disk_defs split: option.splits)

lemma settled_crash: "settled d \<Longrightarrow> dk_crash d d' \<Longrightarrow> settled d'"
  using dk_crashD(2,3) [of d d' currentName] by (cases "dk_dir d' currentName") (auto simp: settled_def)

lemma settled_setCurrent:
  assumes "settled d" "vs_setCurrent fl num vs d = (r, vs', d')"
  shows "settled d'"
proof -
  obtain t d1 where t: "dk_truncate tmpName d = (t, d1)" by (cases "dk_truncate tmpName d")
  have s1: "settled d1" using settled_ops(6) [OF assms(1), of tmpName] t by simp
  have d1: "dk_dir d1 tmpName \<noteq> None" using t by (auto simp: disk_defs split: option.splits)
  have "settled (dk_rename tmpName currentName (dk_fsync t (dk_append t b d1)))" for b
  proof (rule settled_ops(8))
    show "settled (dk_fsync t (dk_append t b d1))" by (intro settled_ops(1,2) s1)
  qed (use d1 in \<open>simp_all add: dk_fsync_def dk_append_def upd_ino_def\<close>)
  then show ?thesis using assms t s1 settled_ops(1-3)
    by (auto simp: vs_setCurrent_def Let_def split: if_splits option.splits)
qed

lemma settled_install:
  assumes "settled d" "vs_install fl num buf vs d = (r, vs', d')"
  shows "settled d'"
proof -
  obtain f d1 where c: "dk_create (manifestName num) d = (f, d1)" by (cases "dk_create (manifestName num) d")
  have s1: "settled d1" using settled_ops(5) [OF assms(1), of "manifestName num"] c by simp
  note ops = settled_ops(1-3)
  show ?thesis using assms(2) c s1 ops(1) [OF s1] ops(2) [OF ops(1) [OF s1]] ops(3) [OF ops(2) [OF ops(1) [OF s1]]] settled_setCurrent [OF ops(3) [OF ops(2) [OF ops(1) [OF s1]]]]
    by (auto simp: vs_install_def Let_def split: if_splits option.splits sum.splits prod.splits)
qed

section \<open>The running version set\<close>

definition vst :: "VersionSet \<Rightarrow> man_state" where
  "vst vs = (vs_cur vs, vs_logNumber vs, vs_lastSeq vs)"

definition live_log :: "disk \<Rightarrow> VersionSet \<Rightarrow> man_state \<Rightarrow> bool" where
  "live_log d vs S \<longleftrightarrow> fst S = vs_cur vs \<and> fst (snd S) = vs_logNumber vs \<and> snd (snd S) \<le> vs_lastSeq vs
     \<and> (\<exists>t m ps. dk_hist d currentName = {Some t} \<and> names_man d t (vs_manifestNum vs) \<and> vs_manifestNum vs < 2 ^ 64
          \<and> dk_hist d (manifestName (vs_manifestNum vs)) = {Some m} \<and> (vs_f vs = Some m \<or> vs_f vs = None)
          \<and> dk_ino d m = Some \<lparr>nf_data = frames ps, nf_synced = length (frames ps)\<rparr> \<and> logs ps S)"

lemma inc64_less: "inc64 n < 2 ^ 64"
  by (simp add: inc64_def)

lemma vs_fail_sel [simp]:
  "vs_cur (vs_fail e vs) = vs_cur vs" "vs_logNumber (vs_fail e vs) = vs_logNumber vs" "vs_lastSeq (vs_fail e vs) = vs_lastSeq vs"
  "vs_nextFileNum (vs_fail e vs) = vs_nextFileNum vs" "vs_err (vs_fail e vs) \<noteq> None" "vst (vs_fail e vs) = vst vs"
  by (simp_all add: vs_fail_def vst_def split: option.splits)

lemma dir_inv_only:
  assumes "dir_inv A d" "S \<in> A" "dk_hist d currentName = {Some t}" "names_man d t num" "num < 2 ^ 64" "dk_hist d (manifestName num) = {Some m}"
    "dk_ino d m = Some f" "good_man {S} f"
  shows "dir_inv {S} d"
proof (rule dir_invI)
  show "cur_ok {S} d x" if "x \<in> dk_hist d currentName" for x using that assms(3-) unfolding cur_ok_def by auto
qed (use dir_invD [OF assms(1)] assms(2) in auto)

lemma vs_rotate_inv:
  assumes inv: "dir_inv A d" and S: "vst vs \<in> A" and n: "vs_nextFileNum vs < 2 ^ 64" and call: "vs_rotate fl vs d = Some (r, vs', d')"
  shows "dir_inv A d'" "vst vs' = vst vs" "vs_nextFileNum vs' < 2 ^ 64" "settled d \<Longrightarrow> settled d'" "r = Inl e \<Longrightarrow> vs_err vs' \<noteq> None"
    "r = Inr () \<Longrightarrow> vs_err vs' = vs_err vs \<and> dir_inv {vst vs} d' \<and> live_log d' vs' (vst vs) \<and> settled d'"
proof -
  define num vs1 p where "num = vs_nextFileNum vs" and "vs1 = vs\<lparr>vs_nextFileNum := inc64 num\<rparr>" and "p = edit_encode (snapshot_edit vs1) []"
  have v1: "vst vs1 = vst vs" "vs_nextFileNum vs1 < 2 ^ 64" "vs_err vs1 = vs_err vs" using inc64_less by (simp_all add: vs1_def vst_def)
  consider (no) "r = Inl VsIO" "vs' = vs_fail VsIO vs1" "d' = d"
    | (yes) "dk_dir d (manifestName num) = None" "fits p" "vs_install fl num (frame p) vs1 d = (r, vs', d')"
    using call AppendRecord_frame [of p "[]"] AppendRecord_panics_iff [of "[]" p]
    unfolding vs_rotate_def Let_def num_def [symmetric] vs1_def [symmetric] p_def [symmetric] by (auto split: if_splits)
  then have "dir_inv A d' \<and> vst vs' = vst vs \<and> vs_nextFileNum vs' < 2 ^ 64 \<and> (settled d \<longrightarrow> settled d') \<and> (r = Inl e \<longrightarrow> vs_err vs' \<noteq> None)
    \<and> (r = Inr () \<longrightarrow> vs_err vs' = vs_err vs \<and> dir_inv {vst vs} d' \<and> live_log d' vs' (vst vs) \<and> settled d')"
  proof cases
    case no
    then show ?thesis using inv v1 by simp
  next
    case yes
    have lg: "logs [p] (vst vs)"
      using logs_snapshot [of vs1] dir_invD(4) [OF inv S] v1(1,2) yes(2) unfolding p_def vst_def by simp
    note ii = install_inv [OF inv n [folded num_def] yes(1) lg S yes(3)]
    show ?thesis
    proof (cases r)
      case (Inl e')
      then show ?thesis using ii(1) ii(2) [OF Inl] v1 settled_install [OF _ yes(3)] by auto
    next
      case (Inr u)
      then obtain t m where x: "dk_hist d' currentName = {Some t}" "names_man d' t num" "dk_hist d' (manifestName num) = {Some m}"
        "dk_ino d' m = Some \<lparr>nf_data = frame p, nf_synced = length (frame p)\<rparr>"
        "vs' = vs1\<lparr>vs_f := Some m, vs_size := length (frame p), vs_snapshotSize := length (frame p), vs_manifestNum := num\<rparr>" using ii(3) by auto
      have "dir_inv {vst vs} d'"
        by (rule dir_inv_only [OF ii(1) S x(1,2) n [folded num_def] x(3,4)]) (use good_man_synced [OF lg, of "{vst vs}"] in simp)
      moreover have "live_log d' vs' (vst vs)" unfolding live_log_def
        using x lg n by (auto simp: vs1_def vst_def num_def intro!: exI [of _ "[p]"])
      moreover have "settled d'" using x(1) disk_okD(1) [OF dir_invD(1) [OF ii(1)], of currentName] by (auto simp: settled_def)
      moreover have "vst vs' = vst vs" "vs_nextFileNum vs' < 2 ^ 64" "vs_err vs' = vs_err vs" using x(5) v1 by (simp_all add: vst_def)
      ultimately show ?thesis using ii(1) Inr by simp
    qed
  qed
  then show "dir_inv A d'" "vst vs' = vst vs" "vs_nextFileNum vs' < 2 ^ 64" "settled d \<Longrightarrow> settled d'" "r = Inl e \<Longrightarrow> vs_err vs' \<noteq> None"
    "r = Inr () \<Longrightarrow> vs_err vs' = vs_err vs \<and> dir_inv {vst vs} d' \<and> live_log d' vs' (vst vs) \<and> settled d'" by blast+
qed

section \<open>Applying an edit\<close>

definition set_inv :: "disk \<Rightarrow> VersionSet \<Rightarrow> man_state \<Rightarrow> man_state set \<Rightarrow> bool" where
  "set_inv d vs S M \<longleftrightarrow> dir_inv (insert S M) d \<and> settled d \<and> vs_nextFileNum vs < 2 ^ 64 \<and> vs_lastSeq vs < 2 ^ 64
     \<and> (vs_err vs = None \<longrightarrow> M = {} \<and> live_log d vs S)"

text \<open>The state an edit leads to, if it is not refused.\<close>

definition edited :: "VersionSet \<Rightarrow> VersionEdit \<Rightarrow> Version \<Rightarrow> man_state" where
  "edited vs e v = (v, case_option (vs_logNumber vs) id (ve_LogNumber e), case_option (vs_lastSeq vs) id (ve_LastSeq e))"

definition regresses :: "VersionSet \<Rightarrow> VersionEdit \<Rightarrow> bool" where
  "regresses vs e \<longleftrightarrow> case_option False (\<lambda>n. n < vs_logNumber vs) (ve_LogNumber e) \<or> case_option False (\<lambda>n. n < vs_lastSeq vs) (ve_LastSeq e)"

definition attempted :: "VersionSet \<Rightarrow> VersionEdit \<Rightarrow> man_state set" where
  "attempted vs e = {edited vs e v | v. vs_err vs = None \<and> \<not> regresses vs e \<and> applyEdit (vs_cur vs) e = Some (Inr v)}"

lemma dir_inv_log:
  assumes inv: "dir_inv A d" and c: "dk_hist d currentName = {Some t}" "names_man d t num" "num < 2 ^ 64"
    and m: "dk_hist d (manifestName num) = {Some m}" "dk_ino d m = Some f"
    and g: "good_man B (g f)" "nf_synced (g f) \<le> length (nf_data (g f))"
    and B: "\<And>S. S \<in> B \<Longrightarrow> state_ok S" "\<And>S t. S \<in> B \<Longrightarrow> t \<in> tables_of S \<Longrightarrow> durable_table d t"
  shows "dir_inv B (upd_ino m g d)"
proof (rule dir_invI)
  let ?d = "upd_ino m g d"
  have h: "dk_hist ?d = dk_hist d" "dk_dir ?d = dk_dir d" by (simp_all add: upd_ino_def)
  have mo: "n = manifestName num" if "Some m \<in> dk_hist d n" for n
    using ownedD(1) [OF dir_invD(2) [OF inv], of m n "manifestName num"] that m(1) by auto
  have tm: "t \<noteq> m" using mo [of currentName] c(1) by auto
  show "disk_ok ?d"
  proof (rule disk_okI)
    show "nf_synced k \<le> length (nf_data k)" if "dk_ino ?d i = Some k" for i k
      using that g(2) m(2) disk_okD(6) [OF dir_invD(1) [OF inv], of i] by (auto simp: upd_ino_def split: if_splits)
  qed (use disk_okD [OF dir_invD(1) [OF inv]] in \<open>auto simp: upd_ino_def split: if_splits\<close>)
  show "owned ?d" using dir_invD(2) [OF inv] by (simp add: owned_def h)
  show "cur_ok B ?d x" if "x \<in> dk_hist ?d currentName" for x
    using that c m g(1) tm unfolding cur_ok_def h by (auto simp: upd_ino_def names_man_def)
  show "durable_table ?d k" if "S \<in> B" "k \<in> tables_of S" for S k
  proof -
    note dur = B(2) [OF that]
    obtain i h' where i: "dk_hist d (TableFileName k) = {Some i}" "dk_ino d i = Some h'" "nf_synced h' = length (nf_data h')"
      using dur unfolding durable_table_def by auto
    have "i \<noteq> m" using mo [of "TableFileName k"] i(1) by auto
    then show ?thesis using i unfolding durable_table_def h by (auto simp: upd_ino_def)
  qed
qed (use B in auto)

lemma edited_ok:
  assumes S: "state_ok S" "fst S = vs_cur vs" "fst (snd S) = vs_logNumber vs" and ls: "vs_lastSeq vs < 2 ^ 64" and e: "wf_edit e"
    and v: "applyEdit (vs_cur vs) e = Some (Inr v)"
  shows "state_ok (edited vs e v)" "tables_of (edited vs e v) \<subseteq> tables_of S \<union> fm_FileNum ` set (ve_AddFiles e)"
proof -
  have "\<forall>f\<in>set (ve_AddFiles e). meta_keys f" using e by (auto simp: wf_edit_def wf_meta_def meta_keys_def)
  then have a: "version_ok v" "set (concat v) = {f \<in> set (concat (vs_cur vs)). fm_FileNum f \<notin> df_FileNum ` set (ve_DeleteFiles e)} \<union> set (ve_AddFiles e)"
    using applyEdit_spec [of "vs_cur vs" e] S(1,2) v by (auto simp: state_ok_def)
  have "\<forall>f\<in>set (concat v). wf_meta f" unfolding a(2) using S(1,2) e by (auto simp: state_ok_def wf_edit_def)
  then show "state_ok (edited vs e v)" using a(1) S ls e by (auto simp: state_ok_def edited_def wf_edit_def split: option.splits)
  show "tables_of (edited vs e v) \<subseteq> tables_of S \<union> fm_FileNum ` set (ve_AddFiles e)"
    unfolding tables_of_def edited_def Live_def fst_conv a(2) S(2) by auto
qed

lemma logs_edit:
  assumes S: "logs ps S" "fst S = vs_cur vs" and n: "vs_nextFileNum vs < 2 ^ 64" "vs_lastSeq vs < 2 ^ 64" "vs_logNumber vs < 2 ^ 64" and e: "wf_edit e"
    and v: "applyEdit (vs_cur vs) e = Some (Inr v)" and p: "fits (edit_encode (stamp vs e) [])"
  shows "logs (ps @ [edit_encode (stamp vs e) []]) (edited vs e v)"
proof -
  obtain nxt where f: "\<forall>p\<in>set ps. fits p" "fold_fn replay_edit ps replay_init = Inr (vs_cur vs, fst (snd S), nxt, snd (snd S))" using S by (auto simp: logs_def)
  have "wf_edit (stamp vs e)" using e n by (auto simp: wf_edit_def stamp_def split: option.splits)
  then have "decodeEdit (edit_encode (stamp vs e) []) = Inr (stamp vs e)" by (rule decodeEdit_encode)
  moreover have "applyEdit (vs_cur vs) (stamp vs e) = Some (Inr v)" using v applyEdit_cong [of "stamp vs e" e] by (simp add: stamp_def)
  ultimately show ?thesis using f p n(1) by (auto simp: logs_def fold_fn_append replay_edit_def stamp_def edited_def)
qed

lemma log_edit_cases:
  assumes "vs_log_edit fw fs fl st v vs d = Some (r, vs', d')"
  obtains (closed) "r = Inl VsIO" "vs' = vs_fail VsIO vs" "d' = d"
  | (torn) f n where "fits (edit_encode st [])" "vs_f vs = Some f" "r = Inl VsIO" "vs' = vs_fail VsIO vs" "d' = dk_append f (take n (frame (edit_encode st []))) d"
  | (logged) f vs2 where "fits (edit_encode st [])" "vs_f vs = Some f" "r = Inr ()" "vst vs2 = (v, the (ve_LogNumber st), the (ve_LastSeq st))"
      "vs_nextFileNum vs2 = vs_nextFileNum vs" "vs_err vs2 = vs_err vs" "vs_f vs2 = Some f" "vs_manifestNum vs2 = vs_manifestNum vs"
      "vs' = vs2 \<and> d' = dk_fsync f (dk_append f (frame (edit_encode st [])) d)
        \<or> (\<exists>x. vs_rotate fl vs2 (dk_fsync f (dk_append f (frame (edit_encode st [])) d)) = Some (x, vs', d'))"
proof -
  define p where "p = edit_encode st []"
  define vs2 where "vs2 = vs\<lparr>vs_size := vs_size vs + length (frame p), vs_cur := v, vs_logNumber := the (ve_LogNumber st), vs_lastSeq := the (ve_LastSeq st)\<rparr>"
  have fp: "fits p" "AppendRecord [] p = Some (frame p)"
    using assms AppendRecord_panics_iff [of "[]" p] AppendRecord_frame [of p "[]"] unfolding vs_log_edit_def p_def [symmetric] by (cases "AppendRecord [] p"; auto)+
  note eq = assms [unfolded vs_log_edit_def p_def [symmetric] fp(2), simplified]
  show thesis
  proof (cases "vs_f vs")
    case None
    then show thesis using eq closed by simp
  next
    case f: (Some f)
    show thesis
    proof (cases "fw = None \<and> \<not> fs")
      case True
      have v2: "vst vs2 = (v, the (ve_LogNumber st), the (ve_LastSeq st))" "vs_nextFileNum vs2 = vs_nextFileNum vs" "vs_err vs2 = vs_err vs"
        "vs_f vs2 = Some f" "vs_manifestNum vs2 = vs_manifestNum vs" using f by (simp_all add: vs2_def vst_def)
      show thesis by (rule logged [OF fp(1) [unfolded p_def] f _ v2])
        (use eq True f in \<open>auto simp: vs2_def Let_def bind_eq_Some_conv p_def [symmetric] split: if_splits\<close>)
    next
      case False
      then show thesis using eq f torn [OF fp(1) [unfolded p_def] f, of "length (frame p)"] torn [OF fp(1) [unfolded p_def] f, of "the fw"]
        unfolding p_def [symmetric] by (cases fw) auto
    qed
  qed
qed

lemma Apply_cases:
  assumes "vs_Apply fw fs fl e vs d = Some (r, vs', d')"
  obtains (refused) err where "r = Inl err" "d' = d" "vs' = vs \<or> (\<exists>x. vs' = vs_fail x vs)" "vs_err vs' \<noteq> None" "attempted vs e = {}"
  | (tried) v where "vs_err vs = None" "\<not> regresses vs e" "applyEdit (vs_cur vs) e = Some (Inr v)" "vs_log_edit fw fs fl (stamp vs e) v vs d = Some (r, vs', d')"
proof (cases "vs_err vs")
  case (Some err)
  then show thesis using assms refused [of err] by (simp add: vs_Apply_def attempted_def)
next
  case None
  have rf: thesis if "r = Inl err" "d' = d" "vs' = vs_fail x vs" "attempted vs e = {}" for err x
    by (rule refused [OF that(1,2)]) (use that(3,4) vs_fail_sel(5) in blast)+
  show thesis
  proof (cases "regresses vs e")
    case True
    then obtain err where "r = Inl err" "d' = d" "vs' = vs_fail err vs"
      using assms None by (auto simp: vs_Apply_def regresses_def Let_def split: if_splits option.splits)
    then show thesis by (rule rf) (use True in \<open>simp add: attempted_def\<close>)
  next
    case nr: False
    then have eq: "(case applyEdit (vs_cur vs) e of None \<Rightarrow> None | Some (Inl err) \<Rightarrow> Some (Inl (VsCorrupt err), vs_fail (VsCorrupt err) vs, d)
        | Some (Inr newV) \<Rightarrow> vs_log_edit fw fs fl (stamp vs e) newV vs d) = Some (r, vs', d')"
      using assms None by (simp add: vs_Apply_def regresses_def)
    then consider err where "applyEdit (vs_cur vs) e = Some (Inl err)" | v where "applyEdit (vs_cur vs) e = Some (Inr v)" by (auto split: option.splits sum.splits)
    then show thesis
    proof cases
      case (1 err)
      then have "r = Inl (VsCorrupt err)" "d' = d" "vs' = vs_fail (VsCorrupt err) vs" using eq by auto
      then show thesis by (rule rf) (use 1 in \<open>simp add: attempted_def\<close>)
    next
      case (2 v)
      then show thesis using eq tried [OF None nr 2] by simp
    qed
  qed
qed

lemma set_invD:
  assumes "set_inv d vs S M"
  shows "dir_inv (insert S M) d" "settled d" "vs_nextFileNum vs < 2 ^ 64" "vs_lastSeq vs < 2 ^ 64" "vs_err vs = None \<Longrightarrow> M = {}" "vs_err vs = None \<Longrightarrow> live_log d vs S"
  using assms unfolding set_inv_def by blast+

lemma set_inv_failed: "set_inv d vs S M \<Longrightarrow> set_inv d (vs_fail x vs) S M"
  unfolding set_inv_def by (metis vs_fail_sel(3-5))

lemma tried_states:
  assumes inv: "set_inv d vs S M" and ok: "vs_err vs = None" and e: "wf_edit e" "\<forall>f\<in>set (ve_AddFiles e). durable_table d (fm_FileNum f)"
    and v: "applyEdit (vs_cur vs) e = Some (Inr v)"
  shows "dir_inv {S} d" "R \<in> {S, edited vs e v} \<Longrightarrow> state_ok R" "R \<in> {S, edited vs e v} \<Longrightarrow> k \<in> tables_of R \<Longrightarrow> durable_table d k"
    "dir_inv {S, edited vs e v} d"
proof -
  note I = set_invD [OF inv]
  show i: "dir_inv {S} d" using I(1,5) ok by simp
  have S: "fst S = vs_cur vs" "fst (snd S) = vs_logNumber vs" "state_ok S" using I(6) [OF ok] dir_invD(4) [OF i, of S] by (simp_all add: live_log_def)
  note ed = edited_ok [OF S(3,1,2) I(4) e(1) v]
  show B1: "state_ok R" if "R \<in> {S, edited vs e v}" for R using that S(3) ed(1) by blast
  show B2: "durable_table d k" if "R \<in> {S, edited vs e v}" "k \<in> tables_of R" for R k
    using that ed(2) dir_invD(5) [OF i, of S] e(2) by blast
  show "dir_inv {S, edited vs e v} d" by (rule dir_inv_mono [OF i _ B1 B2]) auto
qed

text \<open>What holds while an accepted edit is written to the log.\<close>

lemma log_extends:
  assumes inv: "set_inv d vs S M" and ok: "vs_err vs = None" and e: "wf_edit e" "\<forall>f\<in>set (ve_AddFiles e). durable_table d (fm_FileNum f)"
    and v: "applyEdit (vs_cur vs) e = Some (Inr v)" and p: "p = edit_encode (stamp vs e) []" "fits p" and f: "vs_f vs = Some f"
  shows "dir_inv {S, edited vs e v} (dk_append f (take n (frame p)) d)"
    "dir_inv {edited vs e v} (dk_fsync f (dk_append f (frame p) d))"
    "\<lbrakk>vst vs2 = edited vs e v; vs_f vs2 = Some f; vs_manifestNum vs2 = vs_manifestNum vs\<rbrakk> \<Longrightarrow> live_log (dk_fsync f (dk_append f (frame p) d)) vs2 (edited vs e v)"
proof -
  note I = set_invD [OF inv]
  let ?S = "edited vs e v"
  obtain t m ps where L: "fst S = vs_cur vs" "fst (snd S) = vs_logNumber vs" "dk_hist d currentName = {Some t}" "names_man d t (vs_manifestNum vs)" "vs_manifestNum vs < 2 ^ 64"
    "dk_hist d (manifestName (vs_manifestNum vs)) = {Some m}" "vs_f vs = Some m \<or> vs_f vs = None"
    "dk_ino d m = Some \<lparr>nf_data = frames ps, nf_synced = length (frames ps)\<rparr>" "logs ps S" using I(6) [OF ok] unfolding live_log_def by blast
  note B = tried_states [OF inv ok e v]
  have S: "dir_inv {S} d" "state_ok S" using B(1,2) by simp_all
  have m: "f = m" using f L(7) by simp
  have lg: "logs (ps @ [p]) ?S"
    using logs_edit [OF L(9,1) I(3,4) _ e(1) v p(2) [unfolded p(1)]] S(2) L(2) by (simp add: state_ok_def p(1))
  show app: "dir_inv {S, ?S} (dk_append f (take n (frame p)) d)" for n
    unfolding dk_append_def m using good_man_extend [OF L(9) lg, of "{S, ?S}" n]
    by (intro dir_inv_log [OF S(1) L(3-6,8)] B(2,3)) auto
  let ?d = "dk_fsync f (dk_append f (frame p) d)"
  have "t \<noteq> m" using ownedD(1) [OF dir_invD(2) [OF S(1)], of m currentName "manifestName (vs_manifestNum vs)"] L(3,6) by auto
  then have x: "dk_hist ?d currentName = {Some t}" "names_man ?d t (vs_manifestNum vs)" "dk_hist ?d (manifestName (vs_manifestNum vs)) = {Some m}"
      "dk_ino ?d m = Some \<lparr>nf_data = frames (ps @ [p]), nf_synced = length (frames (ps @ [p]))\<rparr>"
    using L(3,4,6,8) m by (simp_all add: dk_fsync_def dk_append_def upd_ino_def names_man_def)
  have "dir_inv {S, ?S} ?d" using dir_inv_fsync [OF app [of "length (frame p)"]] by simp
  then show "dir_inv {?S} ?d" by (rule dir_inv_only [OF _ _ x(1,2) L(5) x(3,4)]) (use good_man_synced [OF lg, of "{?S}"] in simp_all)
  show "live_log ?d vs2 ?S" if "vst vs2 = ?S" "vs_f vs2 = Some f" "vs_manifestNum vs2 = vs_manifestNum vs"
    using x lg L(5) m that(2,3) that(1) [symmetric] unfolding live_log_def by (auto simp: vst_def)
qed

lemma Apply_inv:
  assumes inv: "set_inv d vs S M" and e: "wf_edit e" "\<forall>f\<in>set (ve_AddFiles e). durable_table d (fm_FileNum f)"
    and call: "vs_Apply fw fs fl e vs d = Some (r, vs', d')"
  shows "r = Inl err \<Longrightarrow> set_inv d' vs' S (M \<union> attempted vs e)" "r = Inr () \<Longrightarrow> \<exists>S'. attempted vs e = {S'} \<and> set_inv d' vs' S' {}"
proof -
  note I = set_invD [OF inv]
  have "(\<forall>err. r = Inl err \<longrightarrow> set_inv d' vs' S (M \<union> attempted vs e)) \<and> (r = Inr () \<longrightarrow> (\<exists>S'. attempted vs e = {S'} \<and> set_inv d' vs' S' {}))"
    using call
  proof (cases rule: Apply_cases)
    case (refused err)
    then show ?thesis using inv set_inv_failed [OF inv] by auto
  next
    case (tried v)
    let ?S = "edited vs e v"
    have at: "attempted vs e = {?S}" using tried(1-3) by (auto simp: attempted_def)
    note ext = log_extends [OF inv tried(1) e tried(3) refl]
    show ?thesis using tried(4)
    proof (cases rule: log_edit_cases)
      case closed
      then show ?thesis using tried_states(4) [OF inv tried(1) e tried(3)] I(2-5) tried(1) by (auto simp: set_inv_def at)
    next
      case (torn f n)
      then show ?thesis using I ext(1) [OF torn(1,2)] settled_ops(1) [OF I(2)] tried(1) unfolding set_inv_def at by auto
    next
      case (logged f vs2)
      let ?d = "dk_fsync f (dk_append f (frame (edit_encode (stamp vs e) [])) d)"
      have v2: "vst vs2 = ?S" using logged(4) by (simp add: edited_def stamp_def)
      have i2: "dir_inv {?S} ?d" "live_log ?d vs2 ?S" "settled ?d" using ext(2) [OF logged(1,2)] ext(3) [OF logged(1,2) v2 logged(7,8)] settled_ops(1,2) I(2) by auto
      have ls: "vs_lastSeq vs2 < 2 ^ 64" using dir_invD(4) [OF i2(1), of ?S] v2 [symmetric] by (simp add: state_ok_def vst_def)
      from logged(9) show ?thesis
      proof
        assume "vs' = vs2 \<and> d' = ?d"
        then show ?thesis using i2 ls logged(3,5,6) I(3) tried(1) by (auto simp: set_inv_def at)
      next
        assume "\<exists>x. vs_rotate fl vs2 ?d = Some (x, vs', d')"
        then obtain x where x: "vs_rotate fl vs2 ?d = Some (x, vs', d')" by blast
        have n2: "vs_nextFileNum vs2 < 2 ^ 64" using logged(5) I(3) by simp
        note ro = vs_rotate_inv [of "{?S}", OF i2(1) _ n2 x]
        have "vst vs' = vst vs2" using ro(2) v2 by simp
        then have "vs_lastSeq vs' < 2 ^ 64" using ls by (simp add: vst_def)
        then have "set_inv d' vs' ?S {}" using ro ro(6) v2 i2(3) by (cases x) (auto simp: set_inv_def)
        then show ?thesis using logged(3) at by auto
      qed
    qed
  qed
  then show "r = Inl err \<Longrightarrow> set_inv d' vs' S (M \<union> attempted vs e)" "r = Inr () \<Longrightarrow> \<exists>S'. attempted vs e = {S'} \<and> set_inv d' vs' S' {}" by blast+
qed

section \<open>Collecting and closing\<close>

lemma live_log_same:
  assumes "same_busy {S} d d'" "live_log d vs S"
  shows "live_log d' vs S"
proof -
  obtain t m ps where L: "dk_hist d currentName = {Some t}" "names_man d t (vs_manifestNum vs)" "vs_manifestNum vs < 2 ^ 64"
    "dk_hist d (manifestName (vs_manifestNum vs)) = {Some m}" "vs_f vs = Some m \<or> vs_f vs = None"
    "dk_ino d m = Some \<lparr>nf_data = frames ps, nf_synced = length (frames ps)\<rparr>" "logs ps S" using assms(2) unfolding live_log_def by blast
  have h: "\<not> idle {S} d n \<Longrightarrow> dk_hist d' n = dk_hist d n" and i: "\<not> idle {S} d n \<Longrightarrow> Some j \<in> dk_hist d n \<Longrightarrow> dk_ino d' j = dk_ino d j" for n j
    using assms(1) unfolding same_busy_def by blast+
  note b = busy(1) [of "{S}" d] busy(2) [of t d "vs_manifestNum vs" "{S}"]
  have "dk_hist d' currentName = {Some t}" "names_man d' t (vs_manifestNum vs)" using h [OF b(1)] i [OF b(1), of t] L(1,2) by (simp_all add: names_man_def)
  moreover have "dk_hist d' (manifestName (vs_manifestNum vs)) = {Some m}" "dk_ino d' m = dk_ino d m"
    using h [OF b(2)] i [OF b(2), of m] L(1,2,4) by simp_all
  ultimately show ?thesis using assms(2) L unfolding live_log_def by metis
qed

lemma live_log_syncdir:
  assumes "disk_ok d" "live_log d vs S"
  shows "live_log (dk_syncdir d) vs S"
proof -
  have "dk_hist (dk_syncdir d) n = {x}" if "dk_hist d n = {x}" for n x using disk_okD(1) [OF assms(1), of n] that by (simp add: dk_syncdir_def)
  moreover have "dk_ino (dk_syncdir d) = dk_ino d" by (simp add: dk_syncdir_def)
  ultimately show ?thesis using assms(2) unfolding live_log_def names_man_def by metis
qed

lemma same_busy_refl [simp]: "same_busy A d d"
  by (simp add: same_busy_def)

lemma remove_loop_inv:
  assumes "dir_inv A d" "\<forall>n\<in>set ns. idle A d n" "settled d" "remove_loop k ns d = (okay, rs, d')"
  shows "dir_inv A d' \<and> settled d' \<and> same_busy A d d'"
  using assms
proof (induction ns arbitrary: k d okay rs)
  case (Cons n ns)
  show ?case
  proof (cases "k = Some 0")
    case False
    then obtain ok' rs' where r: "remove_loop (map_option (\<lambda>j. j - 1) k) ns (dk_remove n d) = (ok', rs', d')"
      using Cons.prems(4) by (auto split: prod.splits)
    have n: "idle A d n" "n \<noteq> currentName" using Cons.prems(2) by (auto simp: idle_def)
    have same: "idle A (dk_remove n d) a \<longleftrightarrow> idle A d a" for a
      using n(2) by (simp add: idle_def dk_remove_def set_name_def names_man_def)
    have "same_busy A d (dk_remove n d)" using n(1) by (auto simp: same_busy_def dk_remove_def set_name_def)
    then show ?thesis using Cons.IH [OF _ _ _ r] dir_inv_remove [OF Cons.prems(1) n(1)] settled_ops(7) [OF Cons.prems(3) n(2)] Cons.prems(2)
      unfolding same_busy_def same by auto
  qed (use Cons.prems in auto)
qed auto

lemma doomed_idle:
  assumes "dir_inv {S} d" "live_log d vs S" "settled d" "vs_doomed pr vs n"
  shows "idle {S} d n"
proof -
  obtain t where L: "fst S = vs_cur vs" "dk_hist d currentName = {Some t}" "names_man d t (vs_manifestNum vs)" "vs_manifestNum vs < 2 ^ 64"
    using assms(2) unfolding live_log_def by blast
  have "k < 2 ^ 64" if "k \<in> tables_of S" for k
    using that dir_invD(4) [OF assms(1), of S] by (auto simp: tables_of_def Live_def state_ok_def wf_meta_def)
  then have "n \<noteq> TableFileName k" if "k \<in> tables_of S" for k
    using that assms(4) L(1) by (auto simp: vs_doomed_def tables_of_def)
  moreover have "n \<noteq> currentName" using assms(4) by (auto simp: vs_doomed_def)
  moreover have "\<not> names_man d c num" if "n = manifestName num" "Some c \<in> dk_hist d currentName" for num c
  proof
    assume nm: "names_man d c num"
    have "c = t" using that(2) L(2) by simp
    then have "num = vs_manifestNum vs" using names_man_inj [OF nm] L(3) by blast
    then show False using assms(4) L(4) that(1) by (simp add: vs_doomed_def)
  qed
  ultimately show ?thesis using assms(3) unfolding idle_def settled_def by auto
qed

lemma DeleteObsolete_inv:
  assumes "set_inv d vs S M" "DeleteObsolete fl pr vs d = (res, d')"
  shows "set_inv d' vs S M"
proof (cases "vs_err vs = None \<and> \<not> vf_readDir fl")
  case True
  note I = set_invD [OF assms(1)]
  have i: "dir_inv {S} d" "live_log d vs S" "M = {}" using I(1,5,6) True by auto
  obtain okay rs d1 where r: "remove_loop (vf_remove fl) (filter (vs_doomed pr vs) (dk_entries d)) d = (okay, rs, d1)"
    by (cases "remove_loop (vf_remove fl) (filter (vs_doomed pr vs) (dk_entries d)) d")
  have "\<forall>n\<in>set (filter (vs_doomed pr vs) (dk_entries d)). idle {S} d n" using doomed_idle [OF i(1,2) I(2)] by auto
  from remove_loop_inv [OF i(1) this I(2) r] have x: "dir_inv {S} d1" "settled d1" "live_log d1 vs S" using live_log_same [OF _ i(2)] by auto
  have "d' = d1 \<or> d' = dk_syncdir d1" using assms(2) True r by (auto simp: DeleteObsolete_def split: if_splits)
  then show ?thesis using x I(3,4) i(3) dir_inv_syncdir [OF x(1)] settled_ops(3) [OF x(2)] live_log_syncdir [OF dir_invD(1) [OF x(1)] x(3)] by (auto simp: set_inv_def)
next
  case False
  then show ?thesis using assms by (auto simp: DeleteObsolete_def split: option.splits)
qed

lemma fsync_synced:
  assumes "dk_ino d i = Some f" "nf_synced f = length (nf_data f)"
  shows "dk_fsync i d = d"
proof -
  have "f\<lparr>nf_synced := length (nf_data f)\<rparr> = f" using assms(2) by (cases f) simp
  then have "(dk_ino d)(i := map_option (\<lambda>f. f\<lparr>nf_synced := length (nf_data f)\<rparr>) (dk_ino d i)) = dk_ino d" using assms(1) by auto
  then show ?thesis by (simp add: dk_fsync_def upd_ino_def)
qed

lemma Close_inv:
  assumes "set_inv d vs S M" "vs_Close fs vs d = (res, vs', d')"
  shows "set_inv d' vs' S M"
proof (cases "vs_f vs")
  case None
  then show ?thesis using assms by (simp add: vs_Close_def)
next
  case (Some f)
  note I = set_invD [OF assms(1)]
  have keep: "live_log (dk_fsync f d) (vs\<lparr>vs_f := None\<rparr>) S \<and> live_log d (vs\<lparr>vs_f := None\<rparr>) S" if "vs_err vs = None"
  proof -
    note L = I(6) [OF that]
    obtain ps where "dk_ino d f = Some \<lparr>nf_data = frames ps, nf_synced = length (frames ps)\<rparr>" using L Some by (auto simp: live_log_def)
    then have "dk_fsync f d = d" by (rule fsync_synced) simp
    then show ?thesis using L by (auto simp: live_log_def)
  qed
  have "vs' = vs_fail VsIO (vs\<lparr>vs_f := None\<rparr>) \<and> d' = d \<or> vs' = vs\<lparr>vs_f := None\<rparr> \<and> d' = dk_fsync f d"
    using assms(2) Some by (auto simp: vs_Close_def Let_def split: if_splits)
  then show ?thesis
  proof
    assume "vs' = vs_fail VsIO (vs\<lparr>vs_f := None\<rparr>) \<and> d' = d"
    moreover have "set_inv d (vs\<lparr>vs_f := None\<rparr>) S M" using I keep by (auto simp: set_inv_def)
    ultimately show ?thesis using set_inv_failed by auto
  qed (use I keep dir_inv_fsync [OF I(1)] settled_ops(2) [OF I(2)] in \<open>auto simp: set_inv_def\<close>)
qed

end
