(* ===== verification/VersionSetRun.thy ===== *)
theory VersionSetRun
  imports VersionSetSafety
begin

text \<open>
  Histories of a version set: loading a directory that satisfies the invariant, the relation \<open>vs_run\<close> of everything that can
  happen to it, and the properties of the manifest as a whole.
\<close>

section \<open>Loading\<close>

lemma scan_past_sel [simp]:
  "vst (scan_past n vs) = vst vs" "vs_err (scan_past n vs) = vs_err vs" "vs_nextFileNum vs < 2 ^ 64 \<Longrightarrow> vs_nextFileNum (scan_past n vs) < 2 ^ 64"
  using inc64_less by (auto simp: scan_past_def vst_def split: option.splits)

lemma fold_scan_past:
  "vst (fold scan_past ns vs) = vst vs \<and> vs_err (fold scan_past ns vs) = vs_err vs \<and> (vs_nextFileNum vs < 2 ^ 64 \<longrightarrow> vs_nextFileNum (fold scan_past ns vs) < 2 ^ 64)"
  by (induction ns arbitrary: vs) (auto intro: scan_past_sel(3) [simplified])

lemma fresh_set_sel [simp]:
  "vst (fresh_set r) = init_state" "vs_err (fresh_set r) = None" "vs_nextFileNum (fresh_set r) = 1" "vs_logNumber (fresh_set r) = 0" "vs_lastSeq (fresh_set r) = 0"
  by (simp_all add: fresh_set_def vst_def init_state_def)

lemma replay_recovers:
  assumes "dk_read (manifestName num) d = Some buf" "recovers buf S" "\<not> vf_readManifest fl" "num < 2 ^ 64"
  shows "\<exists>vs. vs_replay fl num (fresh_set r) d = Inr vs \<and> vst vs = S \<and> vs_err vs = None \<and> vs_nextFileNum vs < 2 ^ 64"
proof -
  obtain clean nxt where "nxt < 2 ^ 64" "ScanRecords buf replay_edit replay_init = (clean, Inr (fst S, fst (snd S), nxt, snd (snd S)))" "\<not> damaged_tail (drop clean buf)"
    using assms(2) unfolding recovers_def by blast
  then show ?thesis using assms(1,3,4) inc64_less [of num] by (auto simp: vs_replay_def replay_init_def vst_def)
qed

lemma vs_load_spec:
  assumes inv: "dir_inv A d" and fl: "\<not> vf_readDir fl" "\<not> vf_readCurrent fl" "\<not> vf_readManifest fl"
  shows "\<exists>vs. vs_load fl r d = Inr vs \<and> vst vs \<in> A \<and> vs_err vs = None \<and> vs_nextFileNum vs < 2 ^ 64"
proof -
  note d = disk_okD [OF dir_invD(1) [OF inv]]
  have co: "cur_ok A d (dk_dir d currentName)" by (rule dir_invD(3) [OF inv d(1)])
  obtain vs0 where vs0: "vst vs0 \<in> A" "vs_err vs0 = None" "vs_nextFileNum vs0 < 2 ^ 64"
    "(case dk_read currentName d of
           None \<Rightarrow> if list_ex (\<lambda>n. parseTableName n \<noteq> None) (dk_entries d) then Inl MissingCurrent else Inr (fresh_set r)
         | Some cur \<Rightarrow> (case parseManifestName (TrimSpace cur) of None \<Rightarrow> Inl BadCurrent | Some num \<Rightarrow> vs_replay fl num (fresh_set r) d)) = Inr vs0"
  proof (cases "dk_dir d currentName")
    case None
    then have "init_state \<in> A" "\<And>n. parseTableName n \<noteq> None \<Longrightarrow> dk_hist d n = {None}" using co by (auto simp: cur_ok_def)
    then have "\<not> list_ex (\<lambda>n. parseTableName n \<noteq> None) (dk_entries d)"
      using d(1) d(5) unfolding list_ex_iff dk_entries_def by (metis domIff set_sorted_list_of_set singletonD)
    then show thesis using that [of "fresh_set r"] None \<open>init_state \<in> A\<close> by (simp add: dk_read_def)
  next
    case (Some c)
    then obtain num m f where n: "num < 2 ^ 64" "names_man d c num" "dk_hist d (manifestName num) = {Some m}" "dk_ino d m = Some f" "good_man A f"
      using co by (auto simp: cur_ok_def)
    obtain S where S: "S \<in> A" "recovers (nf_data f) S" using n(5) d(6) [OF n(4)] unfolding good_man_def by (metis order_refl take_all_iff)
    have "dk_read (manifestName num) d = Some (nf_data f)" using d(1) [of "manifestName num"] n(3,4) by (simp add: dk_read_def)
    from replay_recovers [OF this S(2) fl(3) n(1)] obtain vs where "vs_replay fl num (fresh_set r) d = Inr vs" "vst vs = S" "vs_err vs = None" "vs_nextFileNum vs < 2 ^ 64" by blast
    then show thesis using that [of vs] S(1) Some n(1,2) by (simp add: dk_read_def names_man_def TrimSpace_current)
  qed
  then show ?thesis using fl fold_scan_past [of "dk_entries d" vs0] by (auto simp: vs_load_def)
qed

lemma vs_load_Inr:
  assumes "dir_inv A d" "vs_load fl r d = Inr vs"
  shows "vst vs \<in> A \<and> vs_err vs = None \<and> vs_nextFileNum vs < 2 ^ 64"
proof -
  have fl: "\<not> vf_readDir fl" "\<not> vf_readCurrent fl" using assms(2) by (auto simp: vs_load_def split: if_splits)
  have "vs_load (fl\<lparr>vf_readManifest := False\<rparr>) r d = Inr vs"
    using assms(2) by (auto simp: vs_load_def vs_replay_def sum_bind_Inr split: if_splits option.splits)
  then show ?thesis using vs_load_spec [OF assms(1), of "fl\<lparr>vf_readManifest := False\<rparr>" r] fl by auto
qed

section \<open>Histories\<close>

text \<open>
  \<open>vs_run d x S M\<close>: the directory, the version set of the running process if there is one, the state after the last acknowledged edit, and
  the states of the edits that failed since.  The engine's duties are guards: the tables an edit adds are durable, and a table
  is written under a number not in use.
\<close>

inductive vs_run :: "disk \<Rightarrow> VersionSet option \<Rightarrow> man_state \<Rightarrow> man_state set \<Rightarrow> bool" where
  fresh: "vs_run empty_disk None init_state {}"
| opened: "vs_run d None S M \<Longrightarrow> vs_load fl r d = Inr vs \<Longrightarrow> vs_rotate fl vs d = Some (Inr (), vs', d') \<Longrightarrow> vs_run d' (Some vs') (vst vs') {}"
| open_failed: "vs_run d None S M \<Longrightarrow> vs_load fl r d = Inr vs \<Longrightarrow> vs_rotate fl vs d = Some (Inl e, vs', d') \<Longrightarrow> vs_run d' None S M"
| applied: "vs_run d (Some vs) S M \<Longrightarrow> wf_edit e \<Longrightarrow> \<forall>f\<in>set (ve_AddFiles e). durable_table d (fm_FileNum f)
    \<Longrightarrow> vs_Apply fw fs fl e vs d = Some (Inr (), vs', d') \<Longrightarrow> applyEdit (vs_cur vs) e = Some (Inr v) \<Longrightarrow> vs_run d' (Some vs') (edited vs e v) {}"
| apply_failed: "vs_run d (Some vs) S M \<Longrightarrow> wf_edit e \<Longrightarrow> \<forall>f\<in>set (ve_AddFiles e). durable_table d (fm_FileNum f)
    \<Longrightarrow> vs_Apply fw fs fl e vs d = Some (Inl err, vs', d') \<Longrightarrow> vs_run d' (Some vs') S (M \<union> attempted vs e)"
| allocated: "vs_run d (Some vs) S M \<Longrightarrow> AllocFileNum vs = (n, vs') \<Longrightarrow> vs_run d (Some vs') S M"
| advanced: "vs_run d (Some vs) S M \<Longrightarrow> n < 2 ^ 64 \<Longrightarrow> vs_run d (Some (AdvanceLastSeq n vs)) S M"
| collected: "vs_run d (Some vs) S M \<Longrightarrow> DeleteObsolete fl protect vs d = (res, d') \<Longrightarrow> vs_run d' (Some vs) S M"
| closed: "vs_run d (Some vs) S M \<Longrightarrow> vs_Close fs vs d = (res, vs', d') \<Longrightarrow> vs_run d' (Some vs') S M"
| table: "vs_run d (Some vs) S M \<Longrightarrow> dk_dir d (TableFileName n) = None \<Longrightarrow> dk_create (TableFileName n) d = (i, d1)
    \<Longrightarrow> vs_run (if whole then dk_syncdir (dk_fsync i (dk_append i data d1)) else dk_append i data d1) (Some vs) S M"
| exited: "vs_run d (Some vs) S M \<Longrightarrow> vs_run d None S M"
| crashed: "vs_run d x S M \<Longrightarrow> dk_crash d d' \<Longrightarrow> vs_run d' None S M"

definition run_inv :: "disk \<Rightarrow> VersionSet option \<Rightarrow> man_state \<Rightarrow> man_state set \<Rightarrow> bool" where
  "run_inv d x S M = (case x of None \<Rightarrow> dir_inv (insert S M) d | Some vs \<Rightarrow> set_inv d vs S M)"

lemma run_inv_dir: "run_inv d x S M \<Longrightarrow> dir_inv (insert S M) d"
  by (auto simp: run_inv_def set_inv_def split: option.splits)

lemma dir_inv_empty: "dir_inv {init_state} empty_disk"
proof (rule dir_invI)
  show "state_ok S" if "S \<in> {init_state}" for S using that version_ok_empty by (simp add: state_ok_def init_state_def empty_version_def)
  show "durable_table empty_disk t" if "S \<in> {init_state}" "t \<in> tables_of S" for S t
    using that by (simp add: tables_of_def init_state_def empty_version_def Live_def)
  show "owned empty_disk" "x \<in> dk_hist empty_disk currentName \<Longrightarrow> cur_ok {init_state} empty_disk x" for x
    by (auto simp: owned_def cur_ok_def empty_disk_def)
qed (rule disk_ok_empty)

lemma table_inv:
  assumes inv: "set_inv d vs S M" and free: "dk_dir d (TableFileName n) = None" and c: "dk_create (TableFileName n) d = (i, d1)"
  shows "set_inv (dk_append i b d1) vs S M" "set_inv (dk_syncdir (dk_fsync i (dk_append i b d1))) vs S M"
proof -
  note I = set_invD [OF inv] and fr = disk_ok_fresh [OF dir_invD(1) [OF set_invD(1) [OF inv]]]
  let ?A = "insert S M" and ?n = "TableFileName n"
  have "?n \<noteq> TableFileName t" if "R \<in> ?A" "t \<in> tables_of R" for R t
    using dir_invD(5) [OF I(1) that] free disk_okD(1) [OF dir_invD(1) [OF I(1)], of ?n] by (auto simp: durable_table_def)
  then have id: "idle ?A d ?n" using I(2) by (auto simp: idle_def settled_def)
  have e: "i = dk_next d" "d1 = snd (dk_create ?n d)" using c by (auto simp: dk_create_def)
  have i1: "dir_inv ?A d1" unfolding e(2) by (rule dir_inv_create [OF I(1) id])
  have h: "dk_hist d1 a = (if a = ?n then insert (Some i) (dk_hist d ?n) else dk_hist d a)" "dk_ino d1 = (dk_ino d)(i \<mapsto> \<lparr>nf_data = [], nf_synced = 0\<rparr>)" for a
    unfolding e by (simp_all add: dk_create_def set_name_def)
  have "idle ?A d1 ?n" using id fr unfolding idle_def h names_man_def by auto
  moreover have "a = ?n" if "Some i \<in> dk_hist d1 a" for a using that fr by (auto simp: h e(1) split: if_splits)
  ultimately have i2: "dir_inv ?A (dk_append i b d1)" for b unfolding dk_append_def by (intro dir_inv_upd [OF i1]) auto
  have s1: "settled d1" unfolding e(2) by (rule settled_ops(5) [OF I(2)]) simp
  have busy: "same_busy ?A d (dk_append i b d1)" unfolding same_busy_def using id fr by (auto simp: h dk_append_def upd_ino_def e(1))
  have keep: "live_log (dk_append i b d1) vs S" if "vs_err vs = None"
    using live_log_same [OF _ I(6) [OF that]] busy I(5) [OF that] by simp
  show a: "set_inv (dk_append i b d1) vs S M" using i2 settled_ops(1) [OF s1] I(3-5) keep by (auto simp: set_inv_def)
  have "dk_hist (dk_fsync i d2) = dk_hist d2" "dk_dir (dk_fsync i d2) = dk_dir d2" for d2 by (simp_all add: dk_fsync_def upd_ino_def)
  moreover have "live_log (dk_fsync i (dk_append i b d1)) vs S" if "vs_err vs = None"
  proof (rule live_log_same [OF _ I(6) [OF that]])
    show "same_busy {S} d (dk_fsync i (dk_append i b d1))" using id fr I(5) [OF that] unfolding same_busy_def
      by (auto simp: h dk_fsync_def dk_append_def upd_ino_def e(1))
  qed
  ultimately show "set_inv (dk_syncdir (dk_fsync i (dk_append i b d1))) vs S M"
    using dir_inv_syncdir [OF dir_inv_fsync [OF i2]] settled_ops(3) [OF settled_ops(2) [OF settled_ops(1) [OF s1]]] I(3-5)
      live_log_syncdir [OF dir_invD(1) [OF dir_inv_fsync [OF i2]]] by (auto simp: set_inv_def)
qed

lemma vs_run_inv: "vs_run d x S M \<Longrightarrow> run_inv d x S M"
proof (induction rule: vs_run.induct)
  case fresh
  show ?case using dir_inv_empty by (simp add: run_inv_def)
next
  case (opened d S M fl r vs vs' d')
  have inv: "dir_inv (insert S M) d" using opened.IH by (simp add: run_inv_def)
  note l = vs_load_Inr [OF inv opened.hyps(2)]
  note ro = vs_rotate_inv [OF inv conjunct1 [OF l] conjunct2 [OF conjunct2 [OF l]] opened.hyps(3)]
  have "state_ok (vst vs')" using dir_invD(4) [OF inv, of "vst vs"] l ro(2) by simp
  then show ?case using l ro(2,3,6) by (simp add: run_inv_def set_inv_def state_ok_def vst_def)
next
  case (open_failed d S M fl r vs e vs' d')
  have inv: "dir_inv (insert S M) d" using open_failed.IH by (simp add: run_inv_def)
  note l = vs_load_Inr [OF inv open_failed.hyps(2)]
  show ?case using vs_rotate_inv(1) [OF inv conjunct1 [OF l] conjunct2 [OF conjunct2 [OF l]] open_failed.hyps(3)] by (simp add: run_inv_def)
next
  case (applied d vs S M e fw fs fl vs' d' v)
  obtain S' where S': "attempted vs e = {S'}" "set_inv d' vs' S' {}" using Apply_inv(2) [of d vs S M e fw fs fl "Inr ()" vs' d'] applied by (auto simp: run_inv_def)
  then have "S' = edited vs e v" using applied.hyps(5) by (auto simp: attempted_def)
  then show ?case using S'(2) by (simp add: run_inv_def)
next
  case (apply_failed d vs S M e fw fs fl err vs' d')
  then show ?case using Apply_inv(1) [of d vs S M e fw fs fl "Inl err" vs' d' err] by (simp add: run_inv_def)
next
  case (allocated d vs S M n vs')
  then show ?case using inc64_less by (auto simp: run_inv_def set_inv_def AllocFileNum_def live_log_def)
next
  case (advanced d vs S M n)
  then show ?case by (auto simp: run_inv_def set_inv_def AdvanceLastSeq_def live_log_def)
next
  case (collected d vs S M fl protect res d')
  then show ?case using DeleteObsolete_inv by (simp add: run_inv_def)
next
  case (closed d vs S M fs res vs' d')
  then show ?case using Close_inv by (simp add: run_inv_def)
next
  case (table d vs S M n i d1 whole data)
  then show ?case using table_inv [of d vs S M n i d1] by (simp add: run_inv_def)
next
  case (exited d vs S M)
  then show ?case by (simp add: run_inv_def set_inv_def)
next
  case (crashed d x S M d')
  then show ?case using dir_inv_crash [OF run_inv_dir] by (simp add: run_inv_def)
qed

text \<open>\<^verbatim>\<open>Open\<close> is the first two rules followed by a collection.\<close>

lemma Open_run:
  assumes "vs_run d None S M" "vs_Open fl fl' r d = Some (Inr vs, d')"
  shows "vs_run d' (Some vs) (vst vs) {}"
proof -
  obtain vs0 where l: "vs_load fl r d = Inr vs0" using assms(2) by (auto simp: vs_Open_def split: if_splits sum.splits)
  obtain x vs1 d1 where x: "vs_rotate fl vs0 d = Some (x, vs1, d1)" using assms(2) l by (auto simp: vs_Open_def bind_eq_Some_conv split: if_splits)
  obtain e rs d2 where c: "DeleteObsolete fl' {} vs1 d1 = ((e, rs), d2)" by (metis prod.exhaust)
  have "x = Inr () \<and> e = None \<and> vs1 = vs \<and> d2 = d'"
    using assms(2) l x c by (cases x; cases e) (auto simp: vs_Open_def split: if_splits)
  then have o: "vs_rotate fl vs0 d = Some (Inr (), vs, d1)" "DeleteObsolete fl' {} vs d1 = ((None, rs), d')" using x c by auto
  show ?thesis by (rule collected [OF opened [OF assms(1) l o(1)] o(2)])
qed

lemma load_after_run:
  assumes "vs_run d x S M" "d' = d \<or> dk_crash d d'"
  shows "\<exists>vs. vs_load vs_no_faults r d' = Inr vs \<and> vst vs \<in> insert S M \<and> version_ok (vs_cur vs)
    \<and> (\<forall>t\<in>Live (vs_cur vs). dk_read (TableFileName t) d' \<noteq> None)"
proof -
  have inv: "dir_inv (insert S M) d'" using run_inv_dir [OF vs_run_inv [OF assms(1)]] dir_inv_crash assms(2) by blast
  obtain vs where vs: "vs_load vs_no_faults r d' = Inr vs" "vst vs \<in> insert S M" using vs_load_spec [OF inv, of vs_no_faults r] by (auto simp: vs_no_faults_def)
  have "version_ok (vs_cur vs)" using dir_invD(4) [OF inv vs(2)] by (simp add: state_ok_def vst_def)
  moreover have "dk_read (TableFileName t) d' \<noteq> None" if "t \<in> Live (vs_cur vs)" for t
    using dir_invD(5) [OF inv vs(2), of t] that disk_okD(1) [OF dir_invD(1) [OF inv], of "TableFileName t"]
    by (auto simp: tables_of_def vst_def durable_table_def dk_read_def)
  ultimately show ?thesis using vs by blast
qed

text \<open>
  C33. However a database directory was used before - opened, edited, collected, written to, with any system call failing and any
  number of crashes - loading its manifest succeeds, now and after one more crash.  It yields the state after the last acknowledged edit or
  that of an edit that failed since; the levels of that version are sorted and disjoint, and the file of every live table is there.
\<close>

theorem manifest_survives:
  assumes "vs_run d x S M" "d' = d \<or> dk_crash d d'"
  shows "\<exists>vs. vs_load vs_no_faults r d' = Inr vs \<and> (vs_cur vs, vs_logNumber vs, vs_lastSeq vs) \<in> insert S M \<and> version_ok (vs_cur vs)
    \<and> (\<forall>t\<in>Live (vs_cur vs). dk_read (TableFileName t) d' \<noteq> None)"
  using load_after_run [OF assms] by (simp add: vst_def)

definition log3_edit :: VersionEdit where
  "log3_edit = empty_edit\<lparr>ve_LogNumber := Some 3\<rparr>"

lemma install_ok:
  "\<exists>d'. vs_install vs_no_faults num buf vs d
    = (Inr (), vs\<lparr>vs_f := Some (dk_next d), vs_size := length buf, vs_snapshotSize := length buf, vs_manifestNum := num\<rparr>, d')"
  by (simp add: vs_install_def vs_setCurrent_def vs_no_faults_def Let_def dk_create_def split_beta)

lemma open_fresh:
  "\<exists>vs d. vs_run d (Some vs) init_state {} \<and> vs_err vs = None \<and> vs_cur vs = empty_version \<and> vs_logNumber vs = 0 \<and> vs_lastSeq vs = 0
    \<and> vs_f vs \<noteq> None \<and> vs_nextFileNum vs = 2 \<and> vs_rotateSize vs = 2 ^ 20 \<and> vs_size vs = vs_snapshotSize vs"
proof -
  have l: "vs_load vs_no_faults 0 empty_disk = Inr (fresh_set 0)"
    by (simp add: vs_load_def vs_no_faults_def dk_read_def empty_disk_def dk_entries_def)
  let ?e = "edit_encode (snapshot_edit ((fresh_set 0)\<lparr>vs_nextFileNum := inc64 1\<rparr>)) []"
  have "fits ?e"
    by (simp add: fits_def MaxUint32_def edit_encode_def snapshot_edit_def fresh_set_def snapshot_def empty_edit_def empty_version_def
        encode_counter_def inc64_def tag_defs put_uvarint_small)
  then obtain d where "vs_rotate vs_no_faults (fresh_set 0) empty_disk = Some (Inr (), ((fresh_set 0)\<lparr>vs_nextFileNum := inc64 1\<rparr>)\<lparr>vs_f := Some 0,
      vs_size := length (frame ?e), vs_snapshotSize := length (frame ?e), vs_manifestNum := 1\<rparr>, d)"
    using install_ok [of 1 "frame ?e" "(fresh_set 0)\<lparr>vs_nextFileNum := inc64 1\<rparr>" empty_disk]
    by (auto simp: vs_rotate_def Let_def AppendRecord_frame vs_no_faults_def empty_disk_def)
  then obtain vs d where o: "vs_rotate vs_no_faults (fresh_set 0) empty_disk = Some (Inr (), vs, d)"
    "vs_cur vs = empty_version" "vs_logNumber vs = 0" "vs_lastSeq vs = 0" "vs_f vs \<noteq> None" "vs_nextFileNum vs = 2" "vs_rotateSize vs = 2 ^ 20" "vs_size vs = vs_snapshotSize vs" "vs_err vs = None"
    by (auto simp: fresh_set_def inc64_def)
  show ?thesis using opened [OF fresh l o(1)] o by (auto simp: vst_def init_state_def)
qed

lemma log3_run: "\<exists>vs d. vs_run d (Some vs) (empty_version, 3, 0) {}"
proof -
  obtain vs d where o: "vs_run d (Some vs) init_state {}" "vs_err vs = None" "vs_cur vs = empty_version" "vs_logNumber vs = 0" "vs_lastSeq vs = 0"
    "vs_f vs \<noteq> None" "vs_nextFileNum vs = 2" "vs_rotateSize vs = 2 ^ 20" "vs_size vs = vs_snapshotSize vs" using open_fresh by blast
  have a: "applyEdit empty_version log3_edit = Some (Inr empty_version)"
    using applyEdit_snapshot [OF version_ok_empty] applyEdit_cong [of log3_edit "snapshot empty_version"] by (simp add: log3_edit_def snapshot_def empty_edit_def empty_version_def)
  have s: "edit_encode (stamp vs log3_edit) [] = [1, 3, 2, 2, 3, 0]"
    using o by (simp add: edit_encode_def stamp_def log3_edit_def empty_edit_def encode_counter_def tag_defs put_uvarint_small)
  have "\<exists>vs' d'. vs_Apply None False vs_no_faults log3_edit vs d = Some (Inr (), vs', d')"
    using o a s AppendRecord_frame [of "[1, 3, 2, 2, 3, 0]" "[]"] by (auto simp: vs_Apply_def vs_log_edit_def log3_edit_def fits_def MaxUint32_def empty_edit_def Let_def)
  then obtain vs' d' where ap: "vs_Apply None False vs_no_faults log3_edit vs d = Some (Inr (), vs', d')" by blast
  have "vs_run d' (Some vs') (edited vs log3_edit empty_version) {}"
    by (rule applied [OF o(1) _ _ ap]) (use a o(3) in \<open>simp_all add: wf_edit_def log3_edit_def empty_edit_def\<close>)
  then show ?thesis using o(5) by (auto simp: edited_def log3_edit_def empty_edit_def)
qed

theorem manifest_survives_witness:
  "\<exists>d vs. vs_run d (Some vs) (empty_version, 3, 0) {}
    \<and> (\<exists>vs'. vs_load vs_no_faults 0 d = Inr vs' \<and> vs_cur vs' = empty_version \<and> vs_logNumber vs' = 3 \<and> vs_lastSeq vs' = 0)"
  using log3_run manifest_survives [where d' = d and d = d and r = 0 for d] by fastforce

end
