(* ===== verification/Spec2Isabelle.thy ===== *)
theory Spec2Isabelle
  imports InternalKey WalBatch WalDurability RaftNet RaftInv RaftCommit RaftRecovery ClusterConfig Memtable Sstable ContainerHeap DbRefs VersionSetRun
begin

text \<open>
  A verification library for basalt, a replicated key-value store: a log-structured storage engine, a raft implementation, and
  hash-slot sharding in front of them.  The theories below model the Go sources under \<^verbatim>\<open>src/\<close> as HOL functions and prove what
  makes each part correct.

  \<^bold>\<open>Conventions.\<close>  A byte slice is a list of 8-bit words; unsigned machine integers are natural numbers with the wrap-around written
  out where the code can reach it, checksums and hashes are words of their width.  A Go struct is a record, an enum a datatype.
  A run-time panic is \<open>None\<close>; an error return is \<open>Inl\<close>.  Shared objects live in stores indexed by address.  System calls
  that can fail take their outcome from a record of faults, so every error return of the source is a branch of the model, and a
  crash is a relation between directory contents: it keeps at least the synced bytes of every file and the synced names of every directory.
  Loops whose end is not structural are \<^theory_text>\<open>function\<close>s with a measure or \<^theory_text>\<open>partial_function (option)\<close>s whose lemmas show that they return a value.
  Randomness (tower heights, election timeouts), the YAML decoder and the source of bytes behind a table reader are parameters.

  \<^bold>\<open>Shared.\<close>
  \<^item> \<open>Prelude\<close>, \<open>Codec\<close>, \<open>Crc32c\<close>: byte strings, binary search, varints and fixed-width integers (\<^verbatim>\<open>internal/base/varint.go\<close>), the checksum.
  \<^item> \<open>InternalKey\<close>, \<open>KeyOrder\<close>: internal keys and their order (\<^verbatim>\<open>internal/base/internal_key.go\<close>), the newest visible version of a key,
    and the locale \<open>internal_iterator\<close>, the interface of \<^verbatim>\<open>merge.go\<close> that memtable, table and merging iterators implement.

  \<^bold>\<open>Write-ahead log\<close>, \<^verbatim>\<open>internal/wal\<close>.
  \<^item> \<open>WalRecord\<close>, \<open>WalBatch\<close>: framing, scanning, the batch codec.  \<open>WalLog\<close>: segments, the writer, repair, pruning, replay.
  \<^item> \<open>WalDurability\<close>: after any history of opens, appends, failures and crashes every acknowledged record is replayed, in order (C1); pruning drops a prefix (C2).

  \<^bold>\<open>Raft\<close>, \<^verbatim>\<open>internal/raft\<close>.
  \<^item> \<open>RaftLog\<close>: the log with its compacted prefix (C3).  \<open>RaftNode\<close>: every handler of \<^verbatim>\<open>raft.go\<close> and \<^verbatim>\<open>conf.go\<close>.
  \<^item> \<open>RaftElection\<close>, \<open>RaftNet\<close>: what a step changes, and a cluster over a lossy network with crashes: at most one winner per term (C4).
  \<^item> \<open>RaftInv\<close>: no handler panics on a well-formed node, entries are handed over once and in order (C5, C6).
  \<^item> \<open>RaftCommit\<close>: commitment needs a quorum; the cases in which the code falls short (C7 to C11).
  \<^item> \<open>RaftStorage\<close>, \<open>RaftRecovery\<close>: the state file, its refinement to an abstract store, crashes, atomic rewriting, restart (C12 to C17).

  \<^bold>\<open>Storage engine.\<close>
  \<^item> \<open>Memtable\<close>: the skiplist, with readers between any two stores of a writer (C24 to C27).
  \<^item> \<open>SstFormat\<close>, \<open>SstBloom\<close>, \<open>SstBlock\<close>, \<open>SstBlockCodec\<close>, \<open>SstWriter\<close>, \<open>SstReader\<close>, \<open>Sstable\<close>: sorted tables, from blocks to files (C28 to C32).
  \<^item> \<open>ManifestEdit\<close>, \<open>ManifestVersion\<close>, \<open>FileNames\<close>, \<open>DirStore\<close>, \<open>VersionSet\<close>, \<open>VersionSetSafety\<close>, \<open>VersionSetRun\<close>: the manifest, its edits, the switch of
    \<^verbatim>\<open>CURRENT\<close> and the collection of dead files, over a directory with a crash relation (C33 to C35).
  \<^item> \<open>ContainerHeap\<close>, \<open>Merge\<close>, \<open>ScanIter\<close>: \<^verbatim>\<open>container/heap\<close>, the merging iterator of \<^verbatim>\<open>merge.go\<close>, the scan iterator of \<^verbatim>\<open>iter.go\<close>.
  \<^item> \<open>DbState\<close>, \<open>DbRead\<close>: the engine's state, reference counts and read path (\<^verbatim>\<open>db.go\<close>, \<^verbatim>\<open>iter.go\<close>): get and scan agree on one map (C36).

  \<^bold>\<open>Sharding.\<close>  \<open>Shard\<close>: \<^verbatim>\<open>internal/shard\<close>, slots and their owners (C18 to C21).  \<open>ClusterConfig\<close>: \<^verbatim>\<open>cluster/config.go\<close> (C22, C23).

  \<^bold>\<open>Interfaces.\<close>  \<open>internal_iterator\<close> is interpreted on the memtable (\<open>mem\<close>), the table (\<open>sst\<close>) and, through the sublocale of \<open>mergeable\<close>, on
  the merge of both (\<open>child\<close>, \<open>child.mrg\<close>); scans are proved once inside it.  \<open>ContainerHeap\<close> states the heap laws over an abstract order.

  \<^bold>\<open>Not modelled.\<close>
  \<^item> The engine's write path, flushes, compaction, \<^verbatim>\<open>Open\<close> and \<^verbatim>\<open>Close\<close> of \<^verbatim>\<open>db.go\<close> and \<^verbatim>\<open>compaction.go\<close>, checkpoints and the raft state machine.
  \<^item> The processes around the core (\<^verbatim>\<open>cluster/node.go\<close>, \<^verbatim>\<open>group.go\<close>, \<^verbatim>\<open>shardkv.go\<close>, \<^verbatim>\<open>snapshot.go\<close>, \<^verbatim>\<open>migrate.go\<close>, \<^verbatim>\<open>rebalance.go\<close> and the servers): goroutines, channels, timers and
    gRPC streams; their protocol decisions are made in the modelled parts.
  \<^item> Generated protobuf code, the command-line programs and benchmarks: I/O only.
\<close>

end
